(* ===== verification/Prelude.thy ===== *)
theory Prelude
  imports Main "HOL-Library.Word" "HOL-Library.Signed_Division" "HOL-Library.Monad_Syntax"
    "HOL-Library.Char_ord" "HOL-Library.List_Lexorder"
begin

text \<open>
  Shared vocabulary of the development: memory as a list of bytes, C strings, writing a block
  into a byte array, the decimal rendering of \<open>printf\<close>, C's truncating division, and the
  collections of rewrite rules the component theories extend.

  Conventions used everywhere.  A C \<open>char\<close> is a HOL \<open>char\<close> (one byte, compared as
  unsigned where the code calls \<open>memcmp\<close>).  A pointer argument \<open>const char*\<close> is the
  list of the bytes that lie in memory from that address to the end of the object, so that
  reading past the object is visible.  A result of type \<open>'a option\<close> is \<open>None\<close> exactly where
  the C++ program has undefined behaviour (a read or a write outside an object, a null
  dereference, a failed assertion) or does not return.
\<close>

named_theorems buffer_simps \<open>what the buffer operations do to size, position and content\<close>
named_theorems step_defs \<open>definitions of the operations a step relation is made of\<close>

subsection \<open>Blocks inside a byte array\<close>

type_synonym bytes = "char list"

text \<open>\<open>write_at i ys xs\<close> stores the block \<open>ys\<close> into the array \<open>xs\<close> from index \<open>i\<close> on.\<close>

definition write_at :: "nat \<Rightarrow> 'a list \<Rightarrow> 'a list \<Rightarrow> 'a list" where
  "write_at i ys xs = take i xs @ ys @ drop (i + length ys) xs"

lemma length_write_at [simp, buffer_simps]:
  "i + length ys \<le> length xs \<Longrightarrow> length (write_at i ys xs) = length xs"
  by (simp add: write_at_def)

lemma take_write_at_before [simp]:
  "j \<le> i \<Longrightarrow> i \<le> length xs \<Longrightarrow> take j (write_at i ys xs) = take j xs"
  by (simp add: write_at_def min_def)

lemma take_write_at_inside:
  assumes "i \<le> length xs" and "n \<le> length ys"
  shows "take (i + n) (write_at i ys xs) = take i xs @ take n ys"
  using assms by (simp add: write_at_def)

lemma take_write_at_all:
  assumes "i \<le> length xs"
  shows "take (i + length ys) (write_at i ys xs) = take i xs @ ys"
  using take_write_at_inside [OF assms, of "length ys" ys] by simp

lemma drop_write_at:
  assumes "i \<le> length xs"
  shows "drop i (write_at i ys xs) = ys @ drop (i + length ys) xs"
  using assms by (simp add: write_at_def)

subsection \<open>C strings\<close>

abbreviation NUL :: char where
  "NUL \<equiv> CHR 0x00"

text \<open>
  \<open>strlen\<close> of the memory behind a pointer: the index of the first NUL byte, and
  \<open>None\<close> when the object holds none (\<open>strlen\<close> then reads outside it).
\<close>

fun c_strlen :: "bytes \<Rightarrow> nat option" where
  "c_strlen [] = None"
| "c_strlen (c # cs) = (if c = NUL then Some 0 else map_option Suc (c_strlen cs))"

definition c_string :: "bytes \<Rightarrow> bytes" where
  "c_string s = s @ [NUL]"

lemma c_strlen_append_NUL:
  "NUL \<notin> set s \<Longrightarrow> c_strlen (s @ NUL # rest) = Some (length s)"
  by (induction s) auto

lemma c_strlen_c_string [simp]:
  "NUL \<notin> set s \<Longrightarrow> c_strlen (c_string s) = Some (length s)"
  by (simp add: c_string_def c_strlen_append_NUL)

lemma c_strlen_SomeD:
  assumes "c_strlen m = Some n"
  shows "n < length m" "m ! n = NUL" "NUL \<notin> set (take n m)"
proof -
  have "n < length m \<and> m ! n = NUL \<and> NUL \<notin> set (take n m)"
    using assms by (induction m arbitrary: n) (auto split: if_splits)
  then show "n < length m" "m ! n = NUL" "NUL \<notin> set (take n m)" by auto
qed

lemma c_strlen_decomp:
  assumes "c_strlen m = Some n"
  shows "m = take n m @ NUL # drop (Suc n) m"
  using c_strlen_SomeD [OF assms] by (metis id_take_nth_drop)

lemma c_strlen_None_iff: "c_strlen m = None \<longleftrightarrow> NUL \<notin> set m"
  by (induction m) auto

subsection \<open>Decimal rendering, as \<open>printf\<close> does it\<close>

definition digit_char :: "nat \<Rightarrow> char" where
  "digit_char d = char_of (48 + d)"

fun dec_nat :: "nat \<Rightarrow> string" where
  "dec_nat n = (if n < 10 then [digit_char n] else dec_nat (n div 10) @ [digit_char (n mod 10)])"

declare dec_nat.simps [simp del]

text \<open>The conversions \<open>%d\<close>, \<open>%<w>d\<close> (padded with spaces) and \<open>%0<w>d\<close> (padded with zeros after the sign).\<close>

definition fmt_d :: "int \<Rightarrow> string" where
  "fmt_d v = (if v < 0 then CHR ''-'' # dec_nat (nat (- v)) else dec_nat (nat v))"

definition fmt_d_space :: "nat \<Rightarrow> int \<Rightarrow> string" where
  "fmt_d_space w v = replicate (w - length (fmt_d v)) CHR '' '' @ fmt_d v"

definition fmt_d_zero :: "nat \<Rightarrow> int \<Rightarrow> string" where
  "fmt_d_zero w v =
     (if v < 0
      then CHR ''-'' # replicate (w - length (fmt_d v)) CHR ''0'' @ dec_nat (nat (- v))
      else replicate (w - length (fmt_d v)) CHR ''0'' @ dec_nat (nat v))"

text \<open>\<open>snprintf(buf, size, ...)\<close>: what lands in \<open>buf\<close>; the call returns the untruncated length.\<close>

definition snprintf_mem :: "nat \<Rightarrow> string \<Rightarrow> bytes" where
  "snprintf_mem cap s = (if cap = 0 then [] else take (cap - 1) s @ [NUL])"

definition dec_value :: "string \<Rightarrow> nat" where
  "dec_value s = foldl (\<lambda>a c. 10 * a + (of_char c - 48)) 0 s"

lemma of_char_digit_char [simp]: "d < 10 \<Longrightarrow> of_char (digit_char d) = (48 + d :: nat)"
  by (simp add: digit_char_def)

lemma digit_char_not_NUL: "d < 10 \<Longrightarrow> digit_char d \<noteq> NUL"
proof
  assume "d < 10" and "digit_char d = NUL"
  then have "(of_char (digit_char d) :: nat) = of_char NUL" by simp
  with \<open>d < 10\<close> show False by simp
qed

lemma dec_value_snoc: "dec_value (s @ [c]) = 10 * dec_value s + (of_char c - 48)"
  by (simp add: dec_value_def)

lemma dec_value_dec_nat [simp]: "dec_value (dec_nat n) = n"
proof (induction n rule: dec_nat.induct)
  case (1 n)
  show ?case
  proof (cases "n < 10")
    case True
    then show ?thesis by (simp add: dec_nat.simps [of n] dec_value_def)
  next
    case False
    with "1.IH" show ?thesis
      by (simp add: dec_nat.simps [of n] dec_value_snoc)
  qed
qed

lemma dec_nat_nonempty [simp]: "dec_nat n \<noteq> []"
  by (subst dec_nat.simps) simp

lemma dec_nat_digits: "c \<in> set (dec_nat n) \<Longrightarrow> \<exists>d<10. c = digit_char d"
proof (induction n rule: dec_nat.induct)
  case (1 n)
  show ?case
  proof (cases "n < 10")
    case True
    with "1.prems" show ?thesis by (auto simp: dec_nat.simps [of n])
  next
    case False
    with "1.prems" have "c \<in> set (dec_nat (n div 10)) \<or> c = digit_char (n mod 10)"
      by (auto simp: dec_nat.simps [of n])
    moreover have "n mod 10 < 10" by simp
    ultimately show ?thesis using "1.IH" [OF False] by blast
  qed
qed

lemma dec_nat_length_le:
  "n < 10 ^ Suc k \<Longrightarrow> length (dec_nat n) \<le> Suc k"
proof (induction k arbitrary: n)
  case 0
  then show ?case by (simp add: dec_nat.simps)
next
  case (Suc k)
  show ?case
  proof (cases "n < 10")
    case True
    then show ?thesis by (simp add: dec_nat.simps)
  next
    case False
    have "n div 10 < 10 ^ Suc k" using Suc.prems by (simp add: div_less_iff_less_mult ac_simps)
    then have "length (dec_nat (n div 10)) \<le> Suc k" by (rule Suc.IH)
    with False show ?thesis by (simp add: dec_nat.simps [of n])
  qed
qed

lemma dec_nat_lt: "n < 10 ^ length (dec_nat n)"
proof (induction n rule: dec_nat.induct)
  case (1 n)
  show ?case
  proof (cases "n < 10")
    case True
    then show ?thesis by (simp add: dec_nat.simps [of n])
  next
    case False
    with "1.IH" have "n div 10 < 10 ^ length (dec_nat (n div 10))" by simp
    then have "n < 10 * 10 ^ length (dec_nat (n div 10))" by linarith
    with False show ?thesis by (simp add: dec_nat.simps [of n])
  qed
qed

lemma dec_nat_no_NUL: "NUL \<notin> set (dec_nat n)"
  using dec_nat_digits [of NUL n] digit_char_not_NUL by (metis (no_types))

lemma fmt_d_no_NUL: "NUL \<notin> set (fmt_d v)"
  by (simp add: fmt_d_def dec_nat_no_NUL)

subsection \<open>C integers\<close>

text \<open>
  Signed arithmetic that may not overflow is done on \<open>int\<close> with C's truncating \<open>sdiv\<close> and
  \<open>smod\<close>; the theorems about bounds say when every intermediate value fits its C type.
\<close>

definition fits_i32 :: "int \<Rightarrow> bool" where
  "fits_i32 x \<longleftrightarrow> - (2 ^ 31) \<le> x \<and> x < 2 ^ 31"

definition fits_i64 :: "int \<Rightarrow> bool" where
  "fits_i64 x \<longleftrightarrow> - (2 ^ 63) \<le> x \<and> x < 2 ^ 63"

text \<open>An \<open>int\<close> expression that is evaluated: \<open>None\<close> when its value overflows.\<close>

definition chk :: "int \<Rightarrow> int option" where
  "chk x = (if fits_i32 x then Some x else None)"

lemma chk_Some [simp]: "- (2 ^ 31) \<le> x \<Longrightarrow> x < 2 ^ 31 \<Longrightarrow> chk x = Some x"
  by (simp add: chk_def fits_i32_def)

lemma sdiv_nonneg: "0 \<le> (a::int) \<Longrightarrow> 0 < b \<Longrightarrow> a sdiv b = a div b"
  by (cases "a = 0") (simp_all add: signed_divide_int_def sgn_if)

lemma smod_nonneg: "0 \<le> (a::int) \<Longrightarrow> 0 < b \<Longrightarrow> a smod b = a mod b"
  by (cases "a = 0") (simp_all add: signed_modulo_int_def sgn_if)

lemma sdiv_neg: "(a::int) < 0 \<Longrightarrow> 0 < b \<Longrightarrow> a sdiv b = - ((- a) div b)"
  by (simp add: signed_divide_int_def sgn_if)

lemma smod_neg: "(a::int) < 0 \<Longrightarrow> 0 < b \<Longrightarrow> a smod b = - ((- a) mod b)"
  by (simp add: signed_modulo_int_def sgn_if)

lemma div_int_bounds:
  assumes "0 < (k::int)" and "0 \<le> s" and "s < n * k"
  shows "0 \<le> s div k \<and> s div k < n"
proof -
  have "k * (s div k) \<le> s"
    using assms mult_div_mod_eq [of k s] pos_mod_sign [of k s] by linarith
  with assms(3) have "k * (s div k) < k * n" by (simp only: mult.commute [of n k])
  then have "s div k < n" using assms(1) by (simp only: mult_less_cancel_left_pos)
  with assms show ?thesis by (simp add: pos_imp_zdiv_nonneg_iff)
qed

subsection \<open>Copying functions of \<open>string.h\<close>\<close>

text \<open>
  \<open>strcpy(dst + i, src)\<close> copies the bytes of \<open>src\<close> up to and including its first NUL.
  It has undefined behaviour when \<open>src\<close> holds no NUL or when the copy, NUL included, does not
  fit behind \<open>dst + i\<close>.  \<open>store_at\<close> is a sequence of plain byte stores.
\<close>

definition store_at :: "nat \<Rightarrow> bytes \<Rightarrow> bytes \<Rightarrow> bytes option" where
  "store_at i ys dst = (if i + length ys \<le> length dst then Some (write_at i ys dst) else None)"

definition strcpy_at :: "nat \<Rightarrow> bytes \<Rightarrow> bytes \<Rightarrow> bytes option" where
  "strcpy_at i src dst =
     (case c_strlen src of
        None \<Rightarrow> None
      | Some n \<Rightarrow> store_at i (take (Suc n) src) dst)"

lemma take_Suc_c_strlen:
  "c_strlen m = Some n \<Longrightarrow> take (Suc n) m = take n m @ [NUL]"
  using c_strlen_SomeD [of m n] by (simp add: take_Suc_conv_app_nth)

lemma length_take_c_strlen [simp]:
  "c_strlen m = Some n \<Longrightarrow> min (length m) (Suc n) = Suc n"
  "c_strlen m = Some n \<Longrightarrow> min (length m) n = n"
  using c_strlen_SomeD(1) [of m n] by simp_all

lemma store_at_SomeD:
  "store_at i ys dst = Some d \<Longrightarrow> i + length ys \<le> length dst \<and> d = write_at i ys dst"
  by (simp add: store_at_def split: if_splits)

lemma strcpy_at_Some:
  assumes "c_strlen m = Some n" and "i + n < length dst"
  shows "strcpy_at i m dst = Some (write_at i (take n m @ [NUL]) dst)"
  using assms by (simp add: strcpy_at_def store_at_def take_Suc_c_strlen)

lemma strcpy_at_None:
  assumes "c_strlen m = Some n" and "length dst \<le> i + n"
  shows "strcpy_at i m dst = None"
  using assms by (simp add: strcpy_at_def store_at_def take_Suc_c_strlen)

lemma strcpy_at_SomeE:
  assumes "strcpy_at i m dst = Some d"
  obtains n where "c_strlen m = Some n" "i + n < length dst"
    "d = write_at i (take n m @ [NUL]) dst"
proof (cases "c_strlen m")
  case None
  with assms show ?thesis by (simp add: strcpy_at_def)
next
  case (Some n)
  with assms have "i + n < length dst"
    by (auto simp: strcpy_at_def store_at_def take_Suc_c_strlen split: if_splits)
  with Some assms that show ?thesis by (simp add: strcpy_at_Some)
qed

subsection \<open>Running a list of fallible operations\<close>

fun fold_opt :: "('a \<Rightarrow> 's \<Rightarrow> 's option) \<Rightarrow> 'a list \<Rightarrow> 's \<Rightarrow> 's option" where
  "fold_opt f [] s = Some s"
| "fold_opt f (x # xs) s = (case f x s of None \<Rightarrow> None | Some s' \<Rightarrow> fold_opt f xs s')"

lemma fold_opt_append:
  "fold_opt f (xs @ ys) s = (case fold_opt f xs s of None \<Rightarrow> None | Some s' \<Rightarrow> fold_opt f ys s')"
  by (induction xs arbitrary: s) (auto split: option.splits)

lemma fold_opt_invariant:
  assumes "fold_opt f xs s = Some t" and "I s"
    and "\<And>x s s'. x \<in> set xs \<Longrightarrow> I s \<Longrightarrow> f x s = Some s' \<Longrightarrow> I s'"
  shows "I t"
  using assms
proof (induction xs arbitrary: s)
  case Nil
  then show ?case by simp
next
  case (Cons x xs)
  then obtain s' where s': "f x s = Some s'" "fold_opt f xs s' = Some t"
    by (auto split: option.splits)
  with Cons.prems have "I s'" by auto
  with s' Cons show ?case by auto
qed

end
