(* ===== verification/LogStream.thy ===== *)
theory LogStream
  imports Prelude
begin

text \<open>
  The model of \<open>log/LogStream.h\<close> and \<open>log/LogStream.cc\<close>: the fixed-size buffer
  \<open>FixedBuffer<SIZE>\<close>, the integer-to-text routines \<open>convert\<close> and \<open>convertHex\<close>, the
  insertion operators of \<open>LogStream\<close> and the formatter \<open>Fmt\<close>.  The template parameter
  \<open>SIZE\<close> is the length of the array \<open>data_\<close> (\<open>fb_data\<close>); the pointer
  \<open>cur_\<close> (\<open>fb_cur\<close>) is its offset in that array.
\<close>

definition kSmallBuffer :: nat where "kSmallBuffer = 4000"
definition kLargeBuffer :: nat where "kLargeBuffer = 4000 * 1000"

subsection \<open>FixedBuffer\<close>

record fixed_buffer =
  fb_data :: bytes
  fb_cur :: nat

text \<open>The constructor leaves the array as the allocator returned it (\<open>junk\<close>).\<close>

definition fb_new :: "bytes \<Rightarrow> fixed_buffer" where
  "fb_new junk = \<lparr>fb_data = junk, fb_cur = 0\<rparr>"

definition fb_end :: "fixed_buffer \<Rightarrow> nat" where
  "fb_end b = length (fb_data b)"

definition fb_avail :: "fixed_buffer \<Rightarrow> int" where
  "fb_avail b = int (fb_end b) - int (fb_cur b)"

definition fb_length :: "fixed_buffer \<Rightarrow> nat" where
  "fb_length b = fb_cur b"

definition fb_current :: "fixed_buffer \<Rightarrow> nat" where
  "fb_current b = fb_cur b"

definition fb_add :: "nat \<Rightarrow> fixed_buffer \<Rightarrow> fixed_buffer" where
  "fb_add len b = b\<lparr>fb_cur := fb_cur b + len\<rparr>"

definition fb_reset :: "fixed_buffer \<Rightarrow> fixed_buffer" where
  "fb_reset b = b\<lparr>fb_cur := 0\<rparr>"

text \<open>\<open>memZero(p, n)\<close> of Types.h on the memory from \<open>p\<close> on.\<close>

definition memZero :: "bytes \<Rightarrow> nat \<Rightarrow> bytes" where
  "memZero mem n = replicate n NUL @ drop n mem"

definition fb_bzero :: "fixed_buffer \<Rightarrow> fixed_buffer" where
  "fb_bzero b = b\<lparr>fb_data := memZero (fb_data b) (length (fb_data b)), fb_cur := 0\<rparr>"

lemma memZero_all [simp]: "memZero mem (length mem) = replicate (length mem) NUL"
  by (simp add: memZero_def)

lemma length_memZero [simp]: "n \<le> length mem \<Longrightarrow> length (memZero mem n) = length mem"
  by (simp add: memZero_def)

text \<open>
  \<open>append(buf, len)\<close>: \<open>avail()\<close> is converted to \<open>size_t\<close> and compared with \<open>len\<close>; the
  bytes are then copied with \<open>strcpy\<close>, which ignores \<open>len\<close>, and \<open>cur_\<close> moves by \<open>len\<close>.
\<close>

definition fb_append :: "bytes \<Rightarrow> nat \<Rightarrow> fixed_buffer \<Rightarrow> fixed_buffer option" where
  "fb_append buf len b =
     (let remain = nat (fb_avail b mod 2 ^ 64) in
      if len < remain
      then (case strcpy_at (fb_current b) buf (fb_data b) of
              None \<Rightarrow> None
            | Some d \<Rightarrow> Some (fb_add len (b\<lparr>fb_data := d\<rparr>)))
      else Some b)"

definition fb_toString :: "fixed_buffer \<Rightarrow> bytes" where
  "fb_toString b = take (fb_length b) (fb_data b)"

text \<open>\<open>toStringPiece\<close> measures \<open>data_\<close> with \<open>strlen\<close>: the text up to the first NUL, not up to \<open>cur_\<close>.\<close>

definition fb_toStringPiece :: "fixed_buffer \<Rightarrow> bytes option" where
  "fb_toStringPiece b = map_option (\<lambda>n. take n (fb_data b)) (c_strlen (fb_data b))"

subsection \<open>Integers to text\<close>

definition digits :: string where
  "digits = ''9876543210123456789''"

text \<open>\<open>zero\<close> points to \<open>digits + 9\<close>, so \<open>zero[index]\<close> is defined for \<open>-9 \<le> index \<le> 9\<close>.\<close>

definition zero_at :: "int \<Rightarrow> char" where
  "zero_at index = digits ! nat (9 + index)"

definition digitsHex :: string where
  "digitsHex = ''0123456789ABCDEF''"

lemma sdiv_10_decreases:
  assumes "(i::int) sdiv 10 \<noteq> 0"
  shows "\<bar>i sdiv 10\<bar> < \<bar>i\<bar>"
proof (cases "0 \<le> i")
  case True
  then have eq: "i sdiv 10 = i div 10" by (simp add: sdiv_nonneg)
  with assms have "i div 10 \<noteq> 0" by simp
  with True have "\<bar>i div 10\<bar> < \<bar>i\<bar>" by arith
  with eq show ?thesis by simp
next
  case False
  then have eq: "i sdiv 10 = - ((- i) div 10)" by (simp add: sdiv_neg)
  from False have "\<bar>- ((- i) div 10)\<bar> < \<bar>i\<bar>" by arith
  with eq show ?thesis by simp
qed

text \<open>The do-while loop of \<open>convert\<close>: the digits in the order in which they are written through \<open>p\<close>.\<close>

function convert_loop :: "int \<Rightarrow> string" where
  "convert_loop i =
     (let index = i smod 10; i' = i sdiv 10 in
      if i' \<noteq> 0 then zero_at index # convert_loop i' else [zero_at index])"
  by pat_completeness auto
termination
  by (relation "measure (\<lambda>i. nat \<bar>i\<bar>)") (auto intro: sdiv_10_decreases)

declare convert_loop.simps [simp del]

text \<open>The text \<open>convert\<close> leaves in front of the terminating NUL, after \<open>std::reverse\<close>.\<close>

definition convert :: "int \<Rightarrow> string" where
  "convert value = rev (convert_loop value @ (if value < 0 then ''-'' else []))"

fun convertHex_loop :: "nat \<Rightarrow> string" where
  "convertHex_loop i =
     (let index = i mod 16; i' = i div 16 in
      if i' \<noteq> 0 then digitsHex ! index # convertHex_loop i' else [digitsHex ! index])"

declare convertHex_loop.simps [simp del]

definition convertHex :: "64 word \<Rightarrow> string" where
  "convertHex value = rev (convertHex_loop (unat value))"

subsection \<open>LogStream\<close>

record log_stream =
  buffer :: fixed_buffer

definition kMaxNumericSize :: nat where "kMaxNumericSize = 32"

definition ls_new :: "bytes \<Rightarrow> log_stream" where
  "ls_new junk = \<lparr>buffer = fb_new junk\<rparr>"

text \<open>An insertion that goes to the buffer.\<close>

definition ls_lift :: "(fixed_buffer \<Rightarrow> fixed_buffer option) \<Rightarrow> log_stream \<Rightarrow> log_stream option" where
  "ls_lift f s = map_option (\<lambda>b. s\<lparr>buffer := b\<rparr>) (f (buffer s))"

text \<open>Plain stores through \<open>current()\<close>, followed by \<open>add\<close>.\<close>

definition fb_poke :: "bytes \<Rightarrow> nat \<Rightarrow> fixed_buffer \<Rightarrow> fixed_buffer option" where
  "fb_poke mem len b =
     (case store_at (fb_current b) mem (fb_data b) of
        None \<Rightarrow> None
      | Some d \<Rightarrow> Some (fb_add len (b\<lparr>fb_data := d\<rparr>)))"

definition formatInteger :: "int \<Rightarrow> fixed_buffer \<Rightarrow> fixed_buffer option" where
  "formatInteger v b =
     (if int kMaxNumericSize \<le> fb_avail b
      then fb_poke (convert v @ [NUL]) (length (convert v)) b
      else Some b)"

definition ls_bool :: "bool \<Rightarrow> log_stream \<Rightarrow> log_stream option" where
  "ls_bool v = ls_lift (fb_append (c_string (if v then ''1'' else ''0'')) 1)"

definition ls_int :: "32 word \<Rightarrow> log_stream \<Rightarrow> log_stream option" where
  "ls_int v = ls_lift (formatInteger (sint v))"

definition ls_uint :: "32 word \<Rightarrow> log_stream \<Rightarrow> log_stream option" where
  "ls_uint v = ls_lift (formatInteger (uint v))"

definition ls_short :: "16 word \<Rightarrow> log_stream \<Rightarrow> log_stream option" where
  "ls_short v = ls_int (scast v)"

definition ls_ushort :: "16 word \<Rightarrow> log_stream \<Rightarrow> log_stream option" where
  "ls_ushort v = ls_uint (ucast v)"

definition ls_long :: "64 word \<Rightarrow> log_stream \<Rightarrow> log_stream option" where
  "ls_long v = ls_lift (formatInteger (sint v))"

definition ls_ulong :: "64 word \<Rightarrow> log_stream \<Rightarrow> log_stream option" where
  "ls_ulong v = ls_lift (formatInteger (uint v))"

definition ls_longlong :: "64 word \<Rightarrow> log_stream \<Rightarrow> log_stream option" where
  "ls_longlong v = ls_lift (formatInteger (sint v))"

definition ls_ulonglong :: "64 word \<Rightarrow> log_stream \<Rightarrow> log_stream option" where
  "ls_ulonglong v = ls_lift (formatInteger (uint v))"

definition ls_pointer :: "64 word \<Rightarrow> log_stream \<Rightarrow> log_stream option" where
  "ls_pointer v = ls_lift (\<lambda>b.
     if int kMaxNumericSize \<le> fb_avail b
     then fb_poke (''0x'' @ convertHex v @ [NUL]) (length (convertHex v) + 2) b
     else Some b)"

text \<open>
  Floating point: the text that \<open>snprintf\<close> produces for \<open>"%.12g"\<close> is the argument
  \<open>fmt_g12\<close>, a function of the C library on the machine's \<open>double\<close>.
\<close>

definition ls_double :: "('d \<Rightarrow> string) \<Rightarrow> 'd \<Rightarrow> log_stream \<Rightarrow> log_stream option" where
  "ls_double fmt_g12 v = ls_lift (\<lambda>b.
     if int kMaxNumericSize \<le> fb_avail b
     then fb_poke (snprintf_mem kMaxNumericSize (fmt_g12 v)) (length (fmt_g12 v)) b
     else Some b)"

text \<open>\<open>float\<close> is widened to \<open>double\<close> by the argument \<open>widen\<close>.\<close>

definition ls_float :: "('f \<Rightarrow> 'd) \<Rightarrow> ('d \<Rightarrow> string) \<Rightarrow> 'f \<Rightarrow> log_stream \<Rightarrow> log_stream option" where
  "ls_float widen fmt_g12 f = ls_double fmt_g12 (widen f)"

text \<open>
  \<open>operator<<(char)\<close> passes the address of its parameter: the memory there is the character
  followed by whatever lies behind it on the stack (\<open>stack\<close>).
\<close>

definition ls_char :: "bytes \<Rightarrow> char \<Rightarrow> log_stream \<Rightarrow> log_stream option" where
  "ls_char stack ch = ls_lift (fb_append (ch # stack) 1)"

definition ls_cstr :: "bytes option \<Rightarrow> log_stream \<Rightarrow> log_stream option" where
  "ls_cstr str s =
     (case str of
        Some mem \<Rightarrow> (case c_strlen mem of None \<Rightarrow> None | Some n \<Rightarrow> ls_lift (fb_append mem n) s)
      | None \<Rightarrow> ls_lift (fb_append (c_string ''(null)'') 6) s)"

definition ls_ucstr :: "bytes option \<Rightarrow> log_stream \<Rightarrow> log_stream option" where
  "ls_ucstr str = ls_cstr str"

definition ls_string :: "string \<Rightarrow> log_stream \<Rightarrow> log_stream option" where
  "ls_string str = ls_lift (fb_append (c_string str) (length str))"

text \<open>A \<open>StringPiece\<close> is the memory behind its pointer and its \<open>int\<close> size, converted to \<open>size_t\<close>.\<close>

definition ls_piece :: "bytes \<Rightarrow> int \<Rightarrow> log_stream \<Rightarrow> log_stream option" where
  "ls_piece mem len = ls_lift (fb_append mem (nat (len mod 2 ^ 64)))"

definition ls_buffer :: "fixed_buffer \<Rightarrow> log_stream \<Rightarrow> log_stream option" where
  "ls_buffer b = ls_lift (fb_append (fb_data b) (fb_length b))"

definition ls_append :: "bytes \<Rightarrow> int \<Rightarrow> log_stream \<Rightarrow> log_stream option" where
  "ls_append mem len = ls_lift (fb_append mem (nat (len mod 2 ^ 64)))"

definition ls_resetBuffer :: "log_stream \<Rightarrow> log_stream" where
  "ls_resetBuffer s = s\<lparr>buffer := fb_reset (buffer s)\<rparr>"

subsection \<open>Fmt\<close>

record Fmt =
  fmt_buf :: bytes
  fmt_length :: int

text \<open>
  The constructor receives the text that its \<open>printf\<close> conversion produces; the assertion
  bounds it by the size of \<open>buf_\<close>.
\<close>

definition Fmt_ctor :: "string \<Rightarrow> Fmt option" where
  "Fmt_ctor s = (if length s < 32 then Some \<lparr>fmt_buf = snprintf_mem 32 s, fmt_length = int (length s)\<rparr> else None)"

definition ls_fmt :: "Fmt \<Rightarrow> log_stream \<Rightarrow> log_stream option" where
  "ls_fmt f = ls_append (fmt_buf f) (fmt_length f)"

subsection \<open>The buffer: well-formedness and what \<open>append\<close> does\<close>

text \<open>
  \<open>fb_wf\<close> is the class invariant: the position lies inside the array (or at its end) and the
  array is small enough for \<open>avail()\<close> to be an \<open>int\<close>.
\<close>

definition fb_wf :: "fixed_buffer \<Rightarrow> bool" where
  "fb_wf b \<longleftrightarrow> fb_cur b \<le> length (fb_data b) \<and> length (fb_data b) < 2 ^ 31"

lemma fb_remain:
  assumes "fb_wf b"
  shows "nat (fb_avail b mod 2 ^ 64) = length (fb_data b) - fb_cur b"
proof -
  have "fb_avail b = int (length (fb_data b) - fb_cur b)"
    using assms by (simp add: fb_avail_def fb_end_def fb_wf_def of_nat_diff)
  moreover have "int (length (fb_data b) - fb_cur b) < 2 ^ 64"
    using assms by (simp add: fb_wf_def)
  ultimately show ?thesis by (simp add: zmod_trivial_iff)
qed

lemma fb_avail_eq: "fb_wf b \<Longrightarrow> fb_avail b = int (length (fb_data b) - fb_cur b)"
  by (simp add: fb_avail_def fb_end_def fb_wf_def of_nat_diff)

lemma length_fb_toString: "fb_wf b \<Longrightarrow> length (fb_toString b) = fb_cur b"
  by (simp add: fb_toString_def fb_length_def fb_wf_def)

lemmas fb_op_defs =
  fb_append_def fb_poke_def fb_add_def fb_current_def fb_toString_def fb_length_def Let_def

text \<open>The visible text after a block of at least \<open>len\<close> bytes was stored and \<open>cur_\<close> moved by \<open>len\<close>.\<close>

lemma visible_after_store:
  assumes "fb_cur b + length ys \<le> length (fb_data b)" and "len \<le> length ys"
  shows "fb_toString (fb_add len (b\<lparr>fb_data := write_at (fb_cur b) ys (fb_data b)\<rparr>))
     = fb_toString b @ take len ys"
  using assms by (simp add: fb_op_defs take_write_at_inside)

lemma fb_append_unfold:
  assumes "fb_wf b"
  shows "fb_append m len b =
     (if len < length (fb_data b) - fb_cur b
      then (case strcpy_at (fb_cur b) m (fb_data b) of
              None \<Rightarrow> None
            | Some d \<Rightarrow> Some (fb_add len (b\<lparr>fb_data := d\<rparr>)))
      else Some b)"
  unfolding fb_append_def Let_def fb_remain [OF assms] fb_current_def ..

lemma fb_append_runs:
  assumes "fb_wf b" and "len < length (fb_data b) - fb_cur b"
    and "c_strlen m = Some n" and "fb_cur b + n < length (fb_data b)"
  shows "fb_append m len b =
     Some (fb_add len (b\<lparr>fb_data := write_at (fb_cur b) (take n m @ [NUL]) (fb_data b)\<rparr>))"
  using assms by (simp add: fb_append_unfold strcpy_at_Some)

lemma fb_append_full [buffer_simps]:
  assumes "fb_wf b" and "length (fb_data b) \<le> fb_cur b + len"
  shows "fb_append m len b = Some b"
proof -
  have "\<not> len < length (fb_data b) - fb_cur b" using assms(2) by arith
  then show ?thesis by (simp add: fb_append_unfold [OF assms(1)])
qed

lemma fb_append_fits:
  assumes "fb_wf b" and n: "c_strlen m = Some n" and le: "len \<le> n"
    and room: "fb_cur b + n < length (fb_data b)"
  shows "\<exists>b'. fb_append m len b = Some b' \<and> fb_wf b' \<and> length (fb_data b') = length (fb_data b)
     \<and> fb_toString b' = fb_toString b @ take len m"
proof -
  let ?ys = "take n m @ [NUL]"
  let ?b' = "fb_add len (b\<lparr>fb_data := write_at (fb_cur b) ?ys (fb_data b)\<rparr>)"
  have len_ys: "length ?ys = Suc n" using c_strlen_SomeD(1) [OF n] by simp
  have "fb_append m len b = Some ?b'"
    using assms by (intro fb_append_runs) simp_all
  moreover have "fb_toString ?b' = fb_toString b @ take len m"
    using room le len_ys by (subst visible_after_store) (simp_all add: min_def)
  moreover have "fb_wf ?b'" "length (fb_data ?b') = length (fb_data b)"
    using assms(1) room le len_ys by (simp_all add: fb_wf_def fb_add_def)
  ultimately show ?thesis by blast
qed

text \<open>Whatever the bytes are, an \<open>append\<close> that returns keeps the invariant, the capacity and the old text.\<close>

lemma fb_append_keeps:
  assumes wf: "fb_wf b" and ret: "fb_append m len b = Some b'"
  shows "fb_wf b' \<and> length (fb_data b') = length (fb_data b)
     \<and> take (fb_cur b) (fb_data b') = fb_toString b
     \<and> (b' = b \<or> fb_cur b' = fb_cur b + len \<and> fb_cur b' < fb_end b')"
proof (cases "len < length (fb_data b) - fb_cur b")
  case False
  then have "length (fb_data b) \<le> fb_cur b + len" using wf by (simp add: fb_wf_def)
  then have "b' = b" using fb_append_full [OF wf] ret by simp
  then show ?thesis using wf by (simp add: fb_toString_def fb_length_def)
next
  case True
  then obtain d where d: "strcpy_at (fb_cur b) m (fb_data b) = Some d"
      and b': "b' = fb_add len (b\<lparr>fb_data := d\<rparr>)"
    using ret wf by (auto simp: fb_append_unfold split: option.splits)
  from d obtain n where n: "c_strlen m = Some n" "fb_cur b + n < length (fb_data b)"
      "d = write_at (fb_cur b) (take n m @ [NUL]) (fb_data b)"
    by (rule strcpy_at_SomeE)
  have "length d = length (fb_data b)"
    using n c_strlen_SomeD(1) [OF n(1)] by simp
  moreover have "fb_cur b + len < length (fb_data b)" using True by arith
  ultimately show ?thesis
    using wf b' n by (simp add: fb_wf_def fb_add_def fb_toString_def fb_length_def fb_end_def)
qed

subsection \<open>The integer conversions against reference renderings\<close>

lemma zero_at_digit:
  assumes "\<bar>k\<bar> < 10"
  shows "zero_at k = digit_char (nat \<bar>k\<bar>)"
proof -
  have "k \<in> {-9, -8, -7, -6, -5, -4, -3, -2, -1, 0, 1, 2, 3, 4, 5, 6, 7, 8, 9}"
    using assms unfolding insert_iff empty_iff by arith
  then show ?thesis
    by (elim insertE) (simp_all add: zero_at_def digits_def digit_char_def char_of_def bit_Suc_0_iff)
qed

lemma abs_sdiv_10: "\<bar>(i::int) sdiv 10\<bar> = \<bar>i\<bar> div 10"
  by (cases "0 \<le> i") (simp_all add: sdiv_nonneg sdiv_neg pos_imp_zdiv_nonneg_iff)

lemma abs_smod_10: "\<bar>(i::int) smod 10\<bar> = \<bar>i\<bar> mod 10"
  by (cases "0 \<le> i") (simp_all add: smod_nonneg smod_neg)

lemma convert_loop_eq: "convert_loop i = rev (dec_nat (nat \<bar>i\<bar>))"
proof (induction i rule: convert_loop.induct)
  case (1 i)
  have z: "zero_at (i smod 10) = digit_char (nat \<bar>i\<bar> mod 10)"
    by (subst zero_at_digit) (simp_all add: abs_smod_10 nat_mod_distrib)
  have q: "nat \<bar>i sdiv 10\<bar> = nat \<bar>i\<bar> div 10"
    by (simp add: abs_sdiv_10 nat_div_distrib)
  show ?case
  proof (cases "i sdiv 10 = 0")
    case True
    with q have "nat \<bar>i\<bar> < 10" by simp
    with True z show ?thesis
      by (simp add: convert_loop.simps [of i] dec_nat.simps [of "nat \<bar>i\<bar>"])
  next
    case False
    with q have "\<not> nat \<bar>i\<bar> < 10" by (simp add: div_less_iff_less_mult)
    with False z q "1.IH" [OF refl refl] show ?thesis
      by (simp add: convert_loop.simps [of i] dec_nat.simps [of "nat \<bar>i\<bar>"])
  qed
qed

lemma convert_fmt_d: "convert v = fmt_d v"
  by (simp add: convert_def convert_loop_eq fmt_d_def)

definition is_64bit :: "int \<Rightarrow> bool" where
  "is_64bit v \<longleftrightarrow> - (2 ^ 63) \<le> v \<and> v < 2 ^ 64"

lemma convert_length:
  assumes "is_64bit v"
  shows "length (convert v) \<le> 20"
proof (cases "v < 0")
  case True
  with assms have "nat (- v) < 10 ^ Suc 18" by (simp add: is_64bit_def)
  then have "length (dec_nat (nat (- v))) \<le> Suc 18" by (rule dec_nat_length_le)
  with True show ?thesis by (simp add: convert_fmt_d fmt_d_def)
next
  case False
  with assms have "nat v < 10 ^ Suc 19" by (simp add: is_64bit_def)
  then have "length (dec_nat (nat v)) \<le> Suc 19" by (rule dec_nat_length_le)
  with False show ?thesis by (simp add: convert_fmt_d fmt_d_def)
qed

text \<open>Reading a hexadecimal text back, most significant digit first.\<close>

definition hex_digit_value :: "char \<Rightarrow> nat" where
  "hex_digit_value c = (let k = of_char c in if k < 58 then k - 48 else k - 55)"

definition hex_value :: "string \<Rightarrow> nat" where
  "hex_value s = foldl (\<lambda>a c. 16 * a + hex_digit_value c) 0 s"

lemma hex_value_snoc: "hex_value (s @ [c]) = 16 * hex_value s + hex_digit_value c"
  by (simp add: hex_value_def)

lemma hex_digit_value_digitsHex:
  assumes "k < 16"
  shows "hex_digit_value (digitsHex ! k) = k"
proof -
  have "k \<in> {0, 1, 2, 3, 4, 5, 6, 7, 8, 9, 10, 11, 12, 13, 14, 15}"
    using assms unfolding insert_iff empty_iff by arith
  then show ?thesis
    by (elim insertE) (simp_all add: hex_digit_value_def digitsHex_def)
qed

lemma convertHex_loop_value: "hex_value (rev (convertHex_loop i)) = i"
proof (induction i rule: convertHex_loop.induct)
  case (1 i)
  show ?case
  proof (cases "i div 16 = 0")
    case True
    then have "i mod 16 = i" by simp
    with True show ?thesis
      by (simp add: convertHex_loop.simps [of i] hex_value_def hex_digit_value_digitsHex)
  next
    case False
    with "1.IH" [OF refl refl] show ?thesis
      by (simp add: convertHex_loop.simps [of i] hex_value_snoc hex_digit_value_digitsHex)
  qed
qed

lemma convertHex_loop_length: "i < 16 ^ Suc k \<Longrightarrow> length (convertHex_loop i) \<le> Suc k"
proof (induction k arbitrary: i)
  case 0
  then show ?case by (simp add: convertHex_loop.simps)
next
  case (Suc k)
  then have "i div 16 < 16 ^ Suc k" by (simp add: div_less_iff_less_mult ac_simps)
  then have "length (convertHex_loop (i div 16)) \<le> Suc k" by (rule Suc.IH)
  then show ?case by (simp add: convertHex_loop.simps [of i] Let_def)
qed

lemma convertHex_length: "length (convertHex v) \<le> 16"
proof -
  have "unat v < 16 ^ Suc 15" using unsigned_less [of v, where ?'a = nat] by simp
  then show ?thesis using convertHex_loop_length [of "unat v" 15] by (simp add: convertHex_def)
qed

subsection \<open>Number insertions stay inside the reserved \<open>kMaxNumericSize\<close> bytes\<close>

lemma fb_poke_fits:
  assumes "fb_wf b" and "fb_cur b + length mem \<le> length (fb_data b)" and "len \<le> length mem"
  shows "\<exists>b'. fb_poke mem len b = Some b' \<and> fb_wf b' \<and> length (fb_data b') = length (fb_data b)
     \<and> fb_toString b' = fb_toString b @ take len mem"
proof -
  let ?b' = "fb_add len (b\<lparr>fb_data := write_at (fb_cur b) mem (fb_data b)\<rparr>)"
  have "fb_poke mem len b = Some ?b'"
    using assms(2) by (simp add: fb_poke_def store_at_def fb_current_def)
  moreover have "fb_toString ?b' = fb_toString b @ take len mem"
    using assms by (intro visible_after_store) simp_all
  moreover have "fb_wf ?b'" "length (fb_data ?b') = length (fb_data b)"
    using assms by (simp_all add: fb_wf_def fb_add_def)
  ultimately show ?thesis by blast
qed

lemma formatInteger_none:
  assumes "fb_wf b" and "length (fb_data b) < fb_cur b + kMaxNumericSize"
  shows "formatInteger v b = Some b"
  using assms by (auto simp: formatInteger_def fb_avail_eq kMaxNumericSize_def fb_wf_def)

lemma formatInteger_appends:
  assumes "fb_wf b" and "is_64bit v" and "fb_cur b + kMaxNumericSize \<le> length (fb_data b)"
  shows "\<exists>b'. formatInteger v b = Some b' \<and> fb_wf b' \<and> length (fb_data b') = length (fb_data b)
     \<and> fb_toString b' = fb_toString b @ fmt_d v"
proof -
  have "length (convert v @ [NUL]) \<le> 21"
    using convert_length [OF assms(2)] by simp
  then have "fb_cur b + length (convert v @ [NUL]) \<le> length (fb_data b)"
    using assms(3) unfolding kMaxNumericSize_def by linarith
  from fb_poke_fits [OF assms(1) this, of "length (convert v)"] assms(1,3)
  show ?thesis
    by (auto simp: formatInteger_def fb_avail_eq kMaxNumericSize_def convert_fmt_d)
qed

lemma is_64bit_words [simp]:
  "is_64bit (sint (w :: 32 word))" "is_64bit (uint (w :: 32 word))"
  "is_64bit (sint (u :: 64 word))" "is_64bit (uint (u :: 64 word))"
proof -
  have w: "- (2 ^ 31) \<le> sint w" "sint w < 2 ^ 31" "0 \<le> uint w" "uint w < 2 ^ 32"
    using sint_range_size [of w] unsigned_less [of w, where ?'a = int] by (simp_all add: word_size)
  have u: "- (2 ^ 63) \<le> sint u" "sint u < 2 ^ 63" "0 \<le> uint u" "uint u < 2 ^ 64"
    using sint_range_size [of u] unsigned_less [of u, where ?'a = int] by (simp_all add: word_size)
  show "is_64bit (sint w)" "is_64bit (uint w)" "is_64bit (sint u)" "is_64bit (uint u)"
    using w u by (auto simp: is_64bit_def intro: order_trans [of _ 0])
qed

subsection \<open>The append interface and its client lemma\<close>

text \<open>
  What the users of a bounded byte buffer (the logger's stream, the asynchronous back end) rely
  on: a C string of which the first \<open>len\<close> bytes are asked for is appended when the whole C
  string fits, and an append that does not fit leaves the buffer alone.
\<close>

locale append_buffer =
  fixes wf :: "'b \<Rightarrow> bool"
    and cap :: "'b \<Rightarrow> nat"
    and content :: "'b \<Rightarrow> bytes"
    and put :: "bytes \<Rightarrow> nat \<Rightarrow> 'b \<Rightarrow> 'b option"
  assumes content_le: "wf b \<Longrightarrow> length (content b) \<le> cap b"
    and put_fits: "wf b \<Longrightarrow> c_strlen m = Some n \<Longrightarrow> len \<le> n \<Longrightarrow> length (content b) + n < cap b \<Longrightarrow>
      \<exists>b'. put m len b = Some b' \<and> wf b' \<and> cap b' = cap b \<and> content b' = content b @ take len m"
    and put_full: "wf b \<Longrightarrow> cap b \<le> length (content b) + len \<Longrightarrow> put m len b = Some b"
begin

text \<open>A list of NUL-terminated messages that fits together is appended message by message.\<close>

lemma put_all:
  assumes "wf b" and "\<forall>s\<in>set ss. NUL \<notin> set s"
    and "length (content b) + length (concat ss) < cap b"
  shows "\<exists>b'. fold_opt (\<lambda>s. put (c_string s) (length s)) ss b = Some b' \<and> wf b' \<and> cap b' = cap b
     \<and> content b' = content b @ concat ss"
  using assms
proof (induction ss arbitrary: b)
  case Nil
  then show ?case by simp
next
  case (Cons s ss)
  have "c_strlen (c_string s) = Some (length s)" using Cons.prems(2) by simp
  then obtain b1 where b1: "put (c_string s) (length s) b = Some b1" "wf b1" "cap b1 = cap b"
      "content b1 = content b @ s"
    using put_fits [OF Cons.prems(1), of "c_string s" "length s" "length s"] Cons.prems(3)
    by (auto simp: c_string_def)
  with Cons.IH [of b1] Cons.prems show ?case by auto
qed

end

interpretation fb: append_buffer fb_wf fb_end fb_toString fb_append
proof unfold_locales
  fix b m n len
  assume wf: "fb_wf b" and n: "c_strlen m = Some n" "len \<le> n"
    and room: "length (fb_toString b) + n < fb_end b"
  show "\<exists>b'. fb_append m len b = Some b' \<and> fb_wf b' \<and> fb_end b' = fb_end b
     \<and> fb_toString b' = fb_toString b @ take len m"
    using fb_append_fits [OF wf n] room by (simp add: length_fb_toString [OF wf] fb_end_def)
qed (simp_all add: length_fb_toString fb_end_def fb_append_full, simp add: fb_wf_def)

subsection \<open>Sequences of insertions\<close>

text \<open>One insertion of any kind, so that a chain \<open>s << x << y << ...\<close> is a list.\<close>

datatype ls_op =
    InsBool bool
  | InsShort "16 word"
  | InsUShort "16 word"
  | InsInt "32 word"
  | InsUInt "32 word"
  | InsLong "64 word"
  | InsULong "64 word"
  | InsLongLong "64 word"
  | InsULongLong "64 word"
  | InsPointer "64 word"
  | InsDouble string
  | InsChar bytes char
  | InsCstr "bytes option"
  | InsString string
  | InsPiece bytes int
  | InsBuffer fixed_buffer
  | InsFmt Fmt
  | InsAppend bytes int

fun ls_apply :: "ls_op \<Rightarrow> log_stream \<Rightarrow> log_stream option" where
  "ls_apply (InsBool v) = ls_bool v"
| "ls_apply (InsShort v) = ls_short v"
| "ls_apply (InsUShort v) = ls_ushort v"
| "ls_apply (InsInt v) = ls_int v"
| "ls_apply (InsUInt v) = ls_uint v"
| "ls_apply (InsLong v) = ls_long v"
| "ls_apply (InsULong v) = ls_ulong v"
| "ls_apply (InsLongLong v) = ls_longlong v"
| "ls_apply (InsULongLong v) = ls_ulonglong v"
| "ls_apply (InsPointer v) = ls_pointer v"
| "ls_apply (InsDouble t) = ls_double id t"
| "ls_apply (InsChar stack c) = ls_char stack c"
| "ls_apply (InsCstr m) = ls_cstr m"
| "ls_apply (InsString t) = ls_string t"
| "ls_apply (InsPiece m n) = ls_piece m n"
| "ls_apply (InsBuffer b) = ls_buffer b"
| "ls_apply (InsFmt f) = ls_fmt f"
| "ls_apply (InsAppend m n) = ls_append m n"

abbreviation ls_run :: "ls_op list \<Rightarrow> log_stream \<Rightarrow> log_stream option" where
  "ls_run \<equiv> fold_opt ls_apply"

definition ls_text :: "log_stream \<Rightarrow> bytes" where
  "ls_text s = fb_toString (buffer s)"

text \<open>
  What an insertion should append, what memory it asks \<open>strcpy\<close> to read, and how much room it
  needs for that: 32 bytes for a number, the whole C string with its NUL for everything else.
\<close>

fun op_memory :: "ls_op \<Rightarrow> (bytes \<times> nat) option" where
  "op_memory (InsBool v) = Some (c_string (if v then ''1'' else ''0''), 1)"
| "op_memory (InsChar stack c) = Some (c # stack, 1)"
| "op_memory (InsCstr None) = Some (c_string ''(null)'', 6)"
| "op_memory (InsCstr (Some m)) = Some (m, case c_strlen m of None \<Rightarrow> 0 | Some n \<Rightarrow> n)"
| "op_memory (InsString t) = Some (c_string t, length t)"
| "op_memory (InsPiece m n) = Some (m, nat (n mod 2 ^ 64))"
| "op_memory (InsBuffer b) = Some (fb_data b, fb_cur b)"
| "op_memory (InsFmt f) = Some (fmt_buf f, nat (fmt_length f mod 2 ^ 64))"
| "op_memory (InsAppend m n) = Some (m, nat (n mod 2 ^ 64))"
| "op_memory _ = None"

fun op_text :: "ls_op \<Rightarrow> bytes" where
  "op_text (InsShort v) = fmt_d (sint v)"
| "op_text (InsUShort v) = fmt_d (uint v)"
| "op_text (InsInt v) = fmt_d (sint v)"
| "op_text (InsUInt v) = fmt_d (uint v)"
| "op_text (InsLong v) = fmt_d (sint v)"
| "op_text (InsULong v) = fmt_d (uint v)"
| "op_text (InsLongLong v) = fmt_d (sint v)"
| "op_text (InsULongLong v) = fmt_d (uint v)"
| "op_text (InsPointer v) = ''0x'' @ convertHex v"
| "op_text (InsDouble t) = t"
| "op_text i = (case op_memory i of Some (m, len) \<Rightarrow> take len m | None \<Rightarrow> [])"

definition op_need :: "ls_op \<Rightarrow> nat" where
  "op_need i =
     (case op_memory i of
        None \<Rightarrow> kMaxNumericSize
      | Some (m, _) \<Rightarrow> (case c_strlen m of None \<Rightarrow> 0 | Some n \<Rightarrow> Suc n))"

text \<open>
  The caller's obligations: the memory holds a C string that is no shorter than the length
  that is passed along, and \<open>snprintf\<close> needs less than 32 bytes for a floating point number.
\<close>

definition op_ok :: "ls_op \<Rightarrow> bool" where
  "op_ok i \<longleftrightarrow>
     (case op_memory i of
        Some (m, len) \<Rightarrow> (case c_strlen m of None \<Rightarrow> False | Some n \<Rightarrow> len \<le> n)
      | None \<Rightarrow> (case i of InsDouble t \<Rightarrow> length t < 32 | _ \<Rightarrow> True))"

lemma ls_apply_memory:
  assumes "op_memory i = Some (m, len)" and "op_ok i"
  shows "ls_apply i = ls_lift (fb_append m len)"
proof (cases i)
  case (InsCstr str)
  show ?thesis
  proof (cases str)
    case None
    with InsCstr assms show ?thesis by (auto simp: ls_cstr_def)
  next
    case (Some mem)
    with InsCstr assms obtain n where "c_strlen mem = Some n"
      by (auto simp: op_ok_def split: option.splits)
    with Some InsCstr assms show ?thesis by (auto simp: ls_cstr_def)
  qed
qed (use assms in \<open>auto simp: ls_bool_def ls_char_def ls_string_def ls_piece_def ls_buffer_def
      ls_fmt_def ls_append_def fb_length_def\<close>)

lemma fb_poke_keeps:
  assumes "fb_wf b" and "fb_poke mem len b = Some b'" and "len \<le> length mem"
  shows "fb_wf b' \<and> length (fb_data b') = length (fb_data b) \<and> fb_toString b' = fb_toString b @ take len mem"
proof -
  from assms(2) have "fb_cur b + length mem \<le> length (fb_data b)"
    by (auto simp: fb_poke_def fb_current_def split: option.splits dest: store_at_SomeD)
  from fb_poke_fits [OF assms(1) this assms(3)] assms(2) show ?thesis by auto
qed

lemma sint_scast_16_32: "sint (scast (v :: 16 word) :: 32 word) = sint v"
  by (rule sint_up_scast) (simp add: is_up)

lemma uint_ucast_16_32: "uint (ucast (v :: 16 word) :: 32 word) = uint v"
  by (rule uint_up_ucast) (simp add: is_up)

text \<open>Every number goes through one guarded store of at most \<open>kMaxNumericSize\<close> bytes.\<close>

lemma ls_apply_number:
  assumes "op_memory i = None" and "op_ok i"
  obtains mem where "length (op_text i) \<le> length mem" "length mem \<le> kMaxNumericSize"
    "take (length (op_text i)) mem = op_text i"
    "ls_apply i = ls_lift (\<lambda>b. if int kMaxNumericSize \<le> fb_avail b
       then fb_poke mem (length (op_text i)) b else Some b)"
proof -
  note use = that
  have int_case: thesis if v: "is_64bit v" and "op_text i = fmt_d v"
      "ls_apply i = ls_lift (formatInteger v)" for v
  proof (rule use [of "convert v @ [NUL]"])
    show "length (convert v @ [NUL]) \<le> kMaxNumericSize"
      using convert_length [OF v] by (simp add: kMaxNumericSize_def)
    show "ls_apply i = ls_lift (\<lambda>b. if int kMaxNumericSize \<le> fb_avail b
       then fb_poke (convert v @ [NUL]) (length (op_text i)) b else Some b)"
      using \<open>op_text i = fmt_d v\<close> \<open>ls_apply i = _\<close>
      by (simp add: formatInteger_def convert_fmt_d fun_eq_iff ls_lift_def)
  qed (use \<open>op_text i = fmt_d v\<close> in \<open>simp_all add: convert_fmt_d\<close>)
  show thesis
  proof (cases i)
    case (InsPointer v)
    show ?thesis
      by (rule use [of "''0x'' @ convertHex v @ [NUL]"])
        (use InsPointer convertHex_length [of v] in
          \<open>simp_all add: kMaxNumericSize_def ls_pointer_def cong: if_cong\<close>)
  next
    case (InsDouble t)
    with assms have "length t < 32" by (simp add: op_ok_def)
    with InsDouble show ?thesis
      by (intro use [of "t @ [NUL]"])
        (simp_all add: kMaxNumericSize_def ls_double_def snprintf_mem_def cong: if_cong)
  next
    case (InsShort v)
    show ?thesis
      by (rule int_case [of "sint v"]) (use InsShort is_64bit_words(1) [of "scast v"] in
        \<open>simp_all add: ls_short_def ls_int_def sint_scast_16_32\<close>)
  next
    case (InsUShort v)
    show ?thesis
      by (rule int_case [of "uint v"]) (use InsUShort is_64bit_words(2) [of "ucast v"] in
        \<open>simp_all add: ls_ushort_def ls_uint_def uint_ucast_16_32\<close>)
  next
    case (InsInt v) then show ?thesis by (intro int_case [of "sint v"]) (simp_all add: ls_int_def)
  next
    case (InsUInt v) then show ?thesis by (intro int_case [of "uint v"]) (simp_all add: ls_uint_def)
  next
    case (InsLong v) then show ?thesis by (intro int_case [of "sint v"]) (simp_all add: ls_long_def)
  next
    case (InsULong v) then show ?thesis by (intro int_case [of "uint v"]) (simp_all add: ls_ulong_def)
  next
    case (InsCstr str)
    with assms(1) show ?thesis by (cases str) simp_all
  next
    case (InsLongLong v)
    then show ?thesis by (intro int_case [of "sint v"]) (simp_all add: ls_longlong_def)
  next
    case (InsULongLong v)
    then show ?thesis by (intro int_case [of "uint v"]) (simp_all add: ls_ulonglong_def)
  qed (use assms in \<open>auto split: option.splits\<close>)
qed

text \<open>
  A stream whose buffer satisfies the class invariant, and the relation between a stream and a
  later one: same capacity, and the earlier text is a prefix of the later text.
\<close>

definition ls_wf :: "log_stream \<Rightarrow> bool" where
  "ls_wf s \<longleftrightarrow> fb_wf (buffer s)"

definition ls_room :: "log_stream \<Rightarrow> nat" where
  "ls_room s = fb_end (buffer s) - fb_cur (buffer s)"

definition ls_extends :: "log_stream \<Rightarrow> log_stream \<Rightarrow> bool" where
  "ls_extends s t \<longleftrightarrow> ls_wf t \<and> fb_end (buffer t) = fb_end (buffer s)
     \<and> (\<exists>new. ls_text t = ls_text s @ new)"

lemma ls_extends_trans: "ls_extends s t \<Longrightarrow> ls_extends t u \<Longrightarrow> ls_extends s u"
  by (auto simp: ls_extends_def)

lemma fb_append_extends:
  assumes "fb_wf b" and "fb_append m len b = Some b'"
  shows "fb_wf b' \<and> fb_end b' = fb_end b \<and> (\<exists>new. fb_toString b' = fb_toString b @ new)"
proof -
  from fb_append_keeps [OF assms]
  have k: "fb_wf b'" "length (fb_data b') = length (fb_data b)"
      "take (fb_cur b) (fb_data b') = fb_toString b" "b' = b \<or> fb_cur b' = fb_cur b + len"
    by auto
  have "\<exists>new. fb_toString b' = fb_toString b @ new"
  proof (cases "b' = b")
    case False
    with k(4) have "fb_toString b' = take (fb_cur b + len) (fb_data b')"
      by (simp add: fb_toString_def fb_length_def)
    also have "\<dots> = take (fb_cur b) (fb_data b') @ take len (drop (fb_cur b) (fb_data b'))"
      by (simp add: take_add)
    finally show ?thesis using k(3) by simp
  qed simp
  with k show ?thesis by (simp add: fb_end_def)
qed

lemma ls_lift_append_extends:
  assumes "ls_wf s" and "ls_lift (fb_append m len) s = Some s'"
  shows "ls_extends s s'"
  using assms fb_append_extends [of "buffer s" m len]
  by (auto simp: ls_lift_def ls_extends_def ls_wf_def ls_text_def)

text \<open>The two obligations of \<open>op_ok\<close> matter for \<open>strcpy\<close> only: a number needs no more than this.\<close>

definition number_ok :: "ls_op \<Rightarrow> bool" where
  "number_ok i \<longleftrightarrow> (case i of InsDouble t \<Rightarrow> length t < 32 | _ \<Rightarrow> True)"

lemma ls_apply_extends:
  assumes "ls_wf s" and "number_ok i" and "ls_apply i s = Some s'"
  shows "ls_extends s s'"
proof (cases "op_memory i")
  case None
  with assms(2) have "op_ok i" by (simp add: op_ok_def number_ok_def)
  from ls_apply_number [OF None this] obtain mem where
    mem: "length (op_text i) \<le> length mem" "ls_apply i = ls_lift (\<lambda>b.
      if int kMaxNumericSize \<le> fb_avail b then fb_poke mem (length (op_text i)) b else Some b)"
    by blast
  show ?thesis
  proof (cases "int kMaxNumericSize \<le> fb_avail (buffer s)")
    case True
    with assms(3) mem obtain b' where b': "fb_poke mem (length (op_text i)) (buffer s) = Some b'"
        and s': "s' = s\<lparr>buffer := b'\<rparr>"
      by (auto simp: ls_lift_def)
    from fb_poke_keeps [OF _ b' mem(1)] assms(1) s' show ?thesis
      by (auto simp: ls_extends_def ls_wf_def ls_text_def fb_end_def)
  next
    case False
    with assms(1,3) mem show ?thesis
      by (auto simp: ls_lift_def ls_extends_def ls_wf_def)
  qed
next
  case (Some ml)
  then obtain m len where ml: "op_memory i = Some (m, len)" by (cases ml) auto
  have "ls_apply i s = ls_lift (fb_append m len) s"
  proof (cases "i = InsCstr (Some m)")
    case True
    with ml assms(3) show ?thesis by (auto simp: ls_cstr_def split: option.splits)
  next
    case False
    with ml show ?thesis
      by (cases i) (auto simp: ls_bool_def ls_char_def ls_string_def ls_piece_def ls_buffer_def
          ls_fmt_def ls_append_def fb_length_def ls_cstr_def elim: op_memory.elims)
  qed
  with assms(1,3) show ?thesis by (auto intro: ls_lift_append_extends)
qed

lemma ls_apply_appends:
  assumes wf: "ls_wf s" and ok: "op_ok i" and room: "op_need i \<le> ls_room s"
  shows "\<exists>s'. ls_apply i s = Some s' \<and> ls_wf s' \<and> fb_end (buffer s') = fb_end (buffer s)
     \<and> ls_text s' = ls_text s @ op_text i \<and> ls_room s' = ls_room s - length (op_text i)
     \<and> length (op_text i) \<le> op_need i"
proof -
  let ?b = "buffer s"
  have wfb: "fb_wf ?b" using wf by (simp add: ls_wf_def)
  have "\<exists>b'. ls_apply i s = Some (s\<lparr>buffer := b'\<rparr>) \<and> fb_wf b' \<and> length (fb_data b') = length (fb_data ?b)
     \<and> fb_toString b' = fb_toString ?b @ op_text i \<and> length (op_text i) \<le> op_need i"
  proof (cases "op_memory i")
    case None
    from ls_apply_number [OF None ok] obtain mem where mem: "length (op_text i) \<le> length mem"
        "length mem \<le> kMaxNumericSize" "take (length (op_text i)) mem = op_text i"
        "ls_apply i = ls_lift (\<lambda>b. if int kMaxNumericSize \<le> fb_avail b
          then fb_poke mem (length (op_text i)) b else Some b)"
      by blast
    have "fb_cur ?b + length mem \<le> length (fb_data ?b)" "int kMaxNumericSize \<le> fb_avail ?b"
      using room None mem(2) wfb
      by (auto simp: op_need_def ls_room_def fb_end_def fb_avail_eq fb_wf_def)
    with fb_poke_fits [OF wfb this(1) mem(1)] mem None show ?thesis
      by (auto simp: ls_lift_def op_need_def)
  next
    case (Some ml)
    then obtain m len where ml: "op_memory i = Some (m, len)" by (cases ml) auto
    with ok obtain n where n: "c_strlen m = Some n" "len \<le> n"
      by (auto simp: op_ok_def split: option.splits)
    have tx: "op_text i = take len m" using ml by (cases i) auto
    have "fb_cur ?b + n < length (fb_data ?b)"
      using room ml n wfb by (auto simp: op_need_def ls_room_def fb_end_def fb_wf_def)
    from fb_append_fits [OF wfb n this] tx ls_apply_memory [OF ml ok] show ?thesis
      using n ml by (auto simp: ls_lift_def op_need_def)
  qed
  then obtain b' where b': "ls_apply i s = Some (s\<lparr>buffer := b'\<rparr>)" "fb_wf b'"
      "length (fb_data b') = length (fb_data ?b)"
      "fb_toString b' = fb_toString ?b @ op_text i" "length (op_text i) \<le> op_need i"
    by blast
  have "fb_cur b' = fb_cur ?b + length (op_text i)"
    using b'(4) length_fb_toString [OF b'(2)] length_fb_toString [OF wfb] by simp
  with b' show ?thesis by (simp add: ls_wf_def ls_text_def fb_end_def ls_room_def)
qed

text \<open>The same for a chain of insertions, with the room that is left.\<close>

lemma ls_run_appends:
  assumes "ls_wf s" and "\<forall>i\<in>set ops. op_ok i" and "sum_list (map op_need ops) \<le> ls_room s"
  shows "\<exists>s'. ls_run ops s = Some s' \<and> ls_wf s' \<and> fb_end (buffer s') = fb_end (buffer s)
     \<and> ls_text s' = ls_text s @ concat (map op_text ops)
     \<and> ls_room s' = ls_room s - length (concat (map op_text ops))"
  using assms
proof (induction ops arbitrary: s)
  case Nil
  then show ?case by simp
next
  case (Cons i ops)
  then obtain s1 where s1: "ls_apply i s = Some s1" "ls_wf s1" "ls_text s1 = ls_text s @ op_text i"
      "ls_room s1 = ls_room s - length (op_text i)" "length (op_text i) \<le> op_need i"
      "fb_end (buffer s1) = fb_end (buffer s)"
    using ls_apply_appends [of s i] by auto
  with Cons.IH [of s1] Cons.prems show ?case by auto
qed

text \<open>What strings, characters and numbers need.\<close>

lemma string_ops:
  assumes "NUL \<notin> set t"
  shows "op_ok (InsCstr (Some (c_string t)))" "op_text (InsCstr (Some (c_string t))) = t" "op_need (InsCstr (Some (c_string t))) = Suc (length t)"
    "op_ok (InsString t)" "op_text (InsString t) = t" "op_need (InsString t) = Suc (length t)"
  using assms by (simp_all add: op_ok_def op_need_def c_strlen_c_string) (simp_all add: c_string_def)

lemma int_op: "op_ok (InsInt v)" "NUL \<notin> set (op_text (InsInt v))" "op_need (InsInt v) = 32"
  by (simp_all add: op_ok_def op_need_def kMaxNumericSize_def fmt_d_no_NUL)

lemma char_op:
  assumes "NUL \<in> set stack" and "c \<noteq> NUL"
  shows "op_ok (InsChar stack c)" and "op_need (InsChar stack c) \<le> Suc (length stack)" and "op_text (InsChar stack c) = [c]"
proof -
  obtain n where n: "c_strlen stack = Some n" using assms(1) c_strlen_None_iff [of stack] by auto
  then show "op_ok (InsChar stack c)" and "op_need (InsChar stack c) \<le> Suc (length stack)" and "op_text (InsChar stack c) = [c]"
    using assms(2) c_strlen_SomeD(1) [OF n] by (simp_all add: op_ok_def op_need_def)
qed

subsection \<open>Properties of the stream\<close>

text \<open>
  C16: A chain of insertions into a log stream.  If every inserted C string is at least as long as
  the length passed with it and the buffer has room for what each insertion may write, then no
  insertion writes outside the buffer and the stream's text grows by exactly the concatenation of
  the inserted texts, numbers in the notation of \<open>%d\<close>.
\<close>

theorem ls_run_text:
  assumes "ls_wf s" and "\<forall>i\<in>set ops. op_ok i" and "sum_list (map op_need ops) \<le> ls_room s"
  shows "\<exists>s'. ls_run ops s = Some s' \<and> ls_wf s' \<and> ls_text s' = ls_text s @ concat (map op_text ops)"
  using ls_run_appends [OF assms] by blast

theorem ls_run_text_witness:
  "\<exists>s'. ls_run [InsString ''n='', InsInt (-7), InsChar [NUL] (CHR ''!'')] (ls_new (replicate 64 CHR ''z''))
     = Some s' \<and> ls_wf s' \<and> ls_text s' = ''n=-7!''"
proof -
  let ?s = "ls_new (replicate 64 CHR ''z'')"
  let ?ops = "[InsString ''n='', InsInt (-7), InsChar [NUL] (CHR ''!'')]"
  have "ls_wf ?s" and "\<forall>i\<in>set ?ops. op_ok i" and "sum_list (map op_need ?ops) \<le> ls_room ?s"
    by (simp_all add: ls_wf_def ls_new_def fb_new_def fb_wf_def op_ok_def op_need_def
        kMaxNumericSize_def ls_room_def fb_end_def c_string_def)
  from ls_run_text [OF this] show ?thesis
    by (simp add: ls_text_def ls_new_def fb_new_def fb_toString_def fb_length_def c_string_def
        fmt_d_def dec_nat.simps digit_char_def char_of_def bit_Suc_0_iff)
qed

text \<open>
  C17: The stream is append-only and stays inside its buffer.  Whatever is inserted (also C strings
  that break the contract), an insertion sequence that returns leaves a well-formed buffer of
  the same capacity whose text starts with the text it had before.
\<close>

theorem ls_run_extends:
  assumes "ls_wf s" and "\<forall>i\<in>set ops. number_ok i" and "ls_run ops s = Some s'"
  shows "ls_wf s' \<and> fb_end (buffer s') = fb_end (buffer s) \<and> (\<exists>new. ls_text s' = ls_text s @ new)"
proof -
  have "ls_extends s s'"
    using assms(3)
  proof (rule fold_opt_invariant)
    show "ls_extends s s" using assms(1) by (simp add: ls_extends_def)
    show "ls_extends s v" if "i \<in> set ops" "ls_extends s u" "ls_apply i u = Some v" for i u v
      using that assms(2) ls_apply_extends [of u i v] ls_extends_trans
      by (auto simp: ls_extends_def)
  qed
  then show ?thesis by (simp add: ls_extends_def)
qed

theorem ls_run_extends_witness:
  "\<exists>s'. ls_run [InsBool True, InsString ''ok''] (ls_new ''zzzzzz'') = Some s' \<and> ls_wf s'"
proof -
  let ?s = "ls_new ''zzzzzz''" and ?ops = "[InsBool True, InsString ''ok'']"
  have w: "ls_wf ?s" by (simp add: ls_wf_def ls_new_def fb_new_def fb_wf_def)
  have "\<exists>s'. ls_run ?ops ?s = Some s'"
    by (simp add: ls_bool_def ls_string_def ls_lift_def fb_append_def fb_avail_def fb_end_def
        ls_new_def fb_new_def c_string_def strcpy_at_def store_at_def fb_current_def fb_add_def)
  then obtain s' where s': "ls_run ?ops ?s = Some s'" by blast
  have "\<forall>i\<in>set ?ops. number_ok i" by (simp add: number_ok_def)
  from ls_run_extends [OF w this s'] s' show ?thesis by blast
qed

text \<open>
  C18: What \<open>FixedBuffer::append(buf, len)\<close> does when \<open>len\<close> bytes fit.  The source is copied
  with \<open>strcpy\<close>, so the result is the first \<open>len\<close> bytes of the source exactly when its C
  string is at least \<open>len\<close> long; a shorter C string leaves a NUL and stale bytes of the array in
  the text, and a C string longer than the remaining space is written past the end of the array.
\<close>

theorem fb_append_text:
  assumes "fb_wf b" and "fb_cur b + len < fb_end b" and "c_strlen m = Some n"
  shows "if fb_cur b + n < fb_end b
     then \<exists>b'. fb_append m len b = Some b' \<and> fb_wf b' \<and> fb_toString b' = fb_toString b @
       (if len \<le> n then take len m
        else take n m @ NUL # take (len - Suc n) (drop (fb_cur b + Suc n) (fb_data b)))
     else fb_append m len b = None"
proof (cases "fb_cur b + n < fb_end b")
  case False
  then have "strcpy_at (fb_cur b) m (fb_data b) = None"
    using strcpy_at_None [OF assms(3)] by (simp add: fb_end_def)
  with assms False show ?thesis
    by (simp add: fb_append_unfold fb_end_def less_diff_conv add.commute)
next
  case True
  let ?ys = "take n m @ [NUL]"
  let ?b' = "fb_add len (b\<lparr>fb_data := write_at (fb_cur b) ?ys (fb_data b)\<rparr>)"
  have len_ys: "length ?ys = Suc n" using c_strlen_SomeD(1) [OF assms(3)] by simp
  have run: "fb_append m len b = Some ?b'"
    using assms True by (intro fb_append_runs) (simp_all add: fb_end_def less_diff_conv add.commute)
  have wf: "fb_wf ?b'" using assms True len_ys by (simp add: fb_wf_def fb_add_def fb_end_def)
  have "fb_toString ?b' = fb_toString b @
       (if len \<le> n then take len m
        else take n m @ NUL # take (len - Suc n) (drop (fb_cur b + Suc n) (fb_data b)))"
  proof (cases "len \<le> n")
    case le: True
    with True len_ys show ?thesis by (subst visible_after_store) (simp_all add: fb_end_def min_def)
  next
    case False
    have "fb_toString ?b' = take (fb_cur b) (fb_data b) @ take len (?ys @ drop (fb_cur b + Suc n) (fb_data b))"
      using len_ys True by (simp add: fb_op_defs write_at_def fb_end_def)
    moreover have "take len (?ys @ drop (fb_cur b + Suc n) (fb_data b))
       = take n m @ NUL # take (len - Suc n) (drop (fb_cur b + Suc n) (fb_data b))"
      using False len_ys by (simp add: take_Cons')
    ultimately show ?thesis using False by (simp add: fb_toString_def fb_length_def)
  qed
  with run wf True show ?thesis by simp
qed

theorem fb_append_text_witness:
  "fb_append (c_string ''abcdefgh'') 2 \<lparr>fb_data = ''12345678'', fb_cur = 3\<rparr> = None
   \<and> (\<exists>b'. fb_append (c_string ''a'') 3 \<lparr>fb_data = ''12345678'', fb_cur = 3\<rparr> = Some b'
        \<and> fb_toString b' = ''123a'' @ [NUL] @ ''6'')"
proof -
  let ?b = "\<lparr>fb_data = ''12345678'', fb_cur = 3\<rparr>"
  have wf: "fb_wf ?b" by (simp add: fb_wf_def)
  have "fb_append (c_string ''abcdefgh'') 2 ?b = None"
    using fb_append_text [OF wf, of 2 "c_string ''abcdefgh''" 8] by (simp add: fb_end_def)
  moreover have "\<exists>b'. fb_append (c_string ''a'') 3 ?b = Some b' \<and> fb_toString b' = ''123a'' @ [NUL] @ ''6''"
    using fb_append_text [OF wf, of 3 "c_string ''a''" 1]
    by (auto simp: fb_end_def c_string_def fb_toString_def fb_length_def)
  ultimately show ?thesis ..
qed

text \<open>
  C32: The integer conversion.  The backwards digit loop over the mirrored table \<open>digits\<close>, which
  also has to cope with negative remainders, yields the standard decimal notation for every
  value of every integer type, the most negative one included, and the text reads back as the value.
\<close>

definition dec_int :: "string \<Rightarrow> int" where
  "dec_int t = (case t of
     c # cs \<Rightarrow> if c = CHR ''-'' then - int (dec_value cs) else int (dec_value t)
   | [] \<Rightarrow> 0)"

theorem convert_roundtrip: "convert v = fmt_d v \<and> dec_int (convert v) = v"
proof -
  have "dec_int (fmt_d v) = v"
  proof (cases "v < 0")
    case True
    then show ?thesis by (simp add: fmt_d_def dec_int_def)
  next
    case False
    obtain c cs where c: "dec_nat (nat v) = c # cs" by (cases "dec_nat (nat v)") simp_all
    then obtain d where "d < 10" "c = digit_char d"
      using dec_nat_digits [of c "nat v"] by auto
    then have "(of_char c :: nat) = 48 + d" by simp
    then have "c \<noteq> CHR ''-''" by auto
    with False c dec_value_dec_nat [of "nat v"] show ?thesis by (simp add: fmt_d_def dec_int_def)
  qed
  then show ?thesis by (simp add: convert_fmt_d)
qed

text \<open>
  \<open>formatInteger\<close> never writes outside the buffer.  For every value of a type of at most 64
  bits it returns; with at least \<open>kMaxNumericSize\<close> bytes available it appends the decimal text
  (at most 20 characters and a NUL), with fewer it leaves the buffer unchanged.
\<close>

theorem formatInteger_bounds:
  assumes "fb_wf b" and "is_64bit v"
  shows "length (convert v) \<le> 20 \<and> (\<exists>b'. formatInteger v b = Some b' \<and> fb_wf b'
     \<and> (if fb_cur b + kMaxNumericSize \<le> fb_end b then fb_toString b' = fb_toString b @ fmt_d v else b' = b))"
proof (cases "fb_cur b + kMaxNumericSize \<le> fb_end b")
  case True
  with formatInteger_appends [OF assms] convert_length [OF assms(2)] show ?thesis
    by (auto simp: fb_end_def)
next
  case False
  with formatInteger_none [OF assms(1), of v] convert_length [OF assms(2)] assms(1) show ?thesis
    by (simp add: fb_end_def)
qed

theorem formatInteger_bounds_witness:
  "\<exists>b'. formatInteger (- (2 ^ 63)) (fb_new (replicate 32 NUL)) = Some b' \<and> fb_wf b'"
  using formatInteger_bounds [of "fb_new (replicate 32 NUL)" "- (2 ^ 63)"]
  by (auto simp: fb_wf_def fb_new_def is_64bit_def)

text \<open>
  The pointer conversion: the text of \<open>convertHex\<close> has at most 16 digits and reads back as
  the address.
\<close>

theorem convertHex_roundtrip: "hex_value (convertHex v) = unat v \<and> length (convertHex v) \<le> 16"
  using convertHex_loop_value [of "unat v"] convertHex_length [of v] by (simp add: convertHex_def)

text \<open>
  Inserting a \<open>std::string\<close> with an embedded NUL does not insert its bytes: after the NUL the
  stream's text continues with whatever the buffer held there before, and nothing that follows
  the NUL in the string is inserted, although \<open>size()\<close> bytes are accounted for.
\<close>

theorem ls_string_embedded_NUL:
  assumes "ls_wf s" and "NUL \<notin> set a" and "length a + Suc (length c) < ls_room s"
  shows "\<exists>s'. ls_string (a @ NUL # c) s = Some s' \<and> ls_text s' = ls_text s @ a @ NUL #
     take (length c) (drop (fb_cur (buffer s) + Suc (length a)) (fb_data (buffer s)))"
proof -
  let ?b = "buffer s" and ?m = "c_string (a @ NUL # c)"
  have n: "c_strlen ?m = Some (length a)"
    using assms(2) by (simp add: c_string_def c_strlen_append_NUL)
  have wf: "fb_wf ?b" using assms(1) by (simp add: ls_wf_def)
  have room: "fb_cur ?b + (length a + Suc (length c)) < fb_end ?b" "fb_cur ?b + length a < fb_end ?b"
    using assms(3) by (simp_all add: ls_room_def)
  let ?ys = "take (length a) ?m @ [NUL]"
  let ?b' = "fb_add (length (a @ NUL # c)) (?b\<lparr>fb_data := write_at (fb_cur ?b) ?ys (fb_data ?b)\<rparr>)"
  have "fb_append ?m (length (a @ NUL # c)) ?b = Some ?b'"
    using wf n room by (intro fb_append_runs) (simp_all add: fb_end_def less_diff_conv add.commute)
  moreover have "fb_toString ?b' = fb_toString ?b @ a @ NUL #
     take (length c) (drop (fb_cur ?b + Suc (length a)) (fb_data ?b))"
    using room by (simp add: fb_op_defs write_at_def fb_end_def c_string_def)
  ultimately show ?thesis by (simp add: ls_string_def ls_lift_def ls_text_def)
qed

theorem ls_string_embedded_NUL_witness:
  "\<exists>s'. ls_string [CHR ''a'', NUL, CHR ''b''] (ls_new ''zzzzzz'') = Some s'
     \<and> ls_text s' = [CHR ''a'', NUL, CHR ''z'']"
  using ls_string_embedded_NUL [of "ls_new ''zzzzzz''" "''a''" "''b''"]
  by (simp add: ls_wf_def ls_new_def fb_new_def fb_wf_def ls_room_def fb_end_def ls_text_def
      fb_toString_def fb_length_def)

end
