(* ===== verification/Calendar.thy ===== *)
theory Calendar
  imports Prelude
begin

text \<open>
  The proleptic Gregorian calendar as a reference, written from its rules (leap years, month
  lengths) and not from any of the closed formulas of the code, and the broken-down time of the C
  library on top of it: \<open>struct tm\<close>, \<open>gmtime_r\<close> and \<open>timegm\<close>, which the program calls.
\<close>

subsection \<open>Years, months, days\<close>

definition leap_year :: "int \<Rightarrow> bool" where
  "leap_year y \<longleftrightarrow> y mod 4 = 0 \<and> (y mod 100 \<noteq> 0 \<or> y mod 400 = 0)"

definition year_days :: "int \<Rightarrow> int" where
  "year_days y = (if leap_year y then 366 else 365)"

definition month_days :: "int \<Rightarrow> int \<Rightarrow> int" where
  "month_days y m =
     (if m = 2 then (if leap_year y then 29 else 28)
      else if m = 4 \<or> m = 6 \<or> m = 9 \<or> m = 11 then 30 else 31)"

definition valid_date :: "int \<Rightarrow> int \<Rightarrow> int \<Rightarrow> bool" where
  "valid_date y m d \<longleftrightarrow> 1 \<le> m \<and> m \<le> 12 \<and> 1 \<le> d \<and> d \<le> month_days y m"

fun next_day :: "int \<times> int \<times> int \<Rightarrow> int \<times> int \<times> int" where
  "next_day (y, m, d) =
     (if d < month_days y m then (y, m, d + 1)
      else if m < 12 then (y, m + 1, 1) else (y + 1, 1, 1))"

text \<open>Days before the first of January of year \<open>y\<close>, counted from the year 1.\<close>

definition days_before_year :: "int \<Rightarrow> int" where
  "days_before_year y = 365 * (y - 1) + (y - 1) div 4 - (y - 1) div 100 + (y - 1) div 400"

definition days_before_month :: "int \<Rightarrow> int \<Rightarrow> int" where
  "days_before_month y m = sum_list (map (month_days y) [1..m - 1])"

text \<open>The day number of a date, with 1970-01-01 as day 0.\<close>

definition day_number :: "int \<Rightarrow> int \<Rightarrow> int \<Rightarrow> int" where
  "day_number y m d = days_before_year y - days_before_year 1970 + days_before_month y m + d - 1"

lemma month_days_bounds: "28 \<le> month_days y m \<and> month_days y m \<le> 31"
  by (simp add: month_days_def)

lemma month_days_pos: "0 < month_days y m"
  using month_days_bounds [of y m] by simp

lemma year_days_pos: "0 < year_days y"
  by (simp add: year_days_def)

lemma div_succ_step:
  assumes "0 < (k::int)"
  shows "y div k = (y - 1) div k + (if y mod k = 0 then 1 else 0)"
proof (cases "y mod k = 0")
  case True
  then have "y = k * (y div k)" using mult_div_mod_eq [of k y] by simp
  then have "y - 1 = k * (y div k - 1) + (k - 1)" by (simp add: algebra_simps)
  then have "(y - 1) div k = (y div k - 1) + (k - 1) div k"
    using assms by (metis add.commute div_mult_self2 less_imp_neq)
  with True assms show ?thesis by (simp add: div_pos_pos_trivial)
next
  case False
  then have r: "0 < y mod k" "y mod k < k" using assms pos_mod_bound [of k y] pos_mod_sign [of k y]
    by linarith+
  have "y - 1 = k * (y div k) + (y mod k - 1)" using mult_div_mod_eq [of k y] by simp
  then have "(y - 1) div k = y div k + (y mod k - 1) div k"
    using assms by (metis add.commute div_mult_self2 less_imp_neq)
  with False r show ?thesis by (simp add: div_pos_pos_trivial)
qed

lemma leap_count:
  "365 + (if y mod 4 = 0 then 1 else 0) - (if y mod 100 = 0 then 1 else 0)
     + (if y mod 400 = 0 then 1 else 0) = year_days y"
proof -
  have m: "y mod 4 = 0" if "y mod 100 = 0"
    using that dvd_trans [of 4 100 y] by (simp add: mod_eq_0_iff_dvd)
  have m': "y mod 100 = 0" if "y mod 400 = 0"
    using that dvd_trans [of 100 400 y] by (simp add: mod_eq_0_iff_dvd)
  show ?thesis
  proof (cases "y mod 4 = 0")
    case True
    then show ?thesis
      using m' by (cases "y mod 100 = 0"; cases "y mod 400 = 0") (simp_all add: year_days_def leap_year_def)
  next
    case False
    with m m' have "y mod 100 \<noteq> 0" "y mod 400 \<noteq> 0" by metis+
    with False show ?thesis by (simp add: year_days_def leap_year_def)
  qed
qed

lemma days_before_year_Suc: "days_before_year (y + 1) = days_before_year y + year_days y"
proof -
  have e: "y div k - (y - 1) div k = (if y mod k = 0 then 1 else 0)" if "0 < k" for k
    using div_succ_step [OF that, of y] by linarith
  have "days_before_year (y + 1) - days_before_year y
      = 365 + (y div 4 - (y - 1) div 4) - (y div 100 - (y - 1) div 100) + (y div 400 - (y - 1) div 400)"
    by (simp add: days_before_year_def)
  also have "\<dots> = year_days y"
    unfolding e [OF zero_less_numeral] by (rule leap_count)
  finally show ?thesis by simp
qed

lemma days_before_year_less:
  assumes "y < y'"
  shows "days_before_year y + year_days y \<le> days_before_year y'"
proof -
  have "days_before_year y + year_days y \<le> days_before_year (y + 1 + int n)" for n
  proof (induction n)
    case 0
    then show ?case by (simp add: days_before_year_Suc)
  next
    case (Suc n)
    then show ?case
      using days_before_year_Suc [of "y + 1 + int n"] year_days_pos [of "y + 1 + int n"]
      by (simp add: algebra_simps)
  qed
  from this [of "nat (y' - y - 1)"] assms show ?thesis by simp
qed

lemma days_before_month_1 [simp]: "days_before_month y 1 = 0"
  by (simp add: days_before_month_def)

lemma days_before_month_Suc:
  "1 \<le> m \<Longrightarrow> days_before_month y (m + 1) = days_before_month y m + month_days y m"
  using upto_rec2 [of 1 m] by (simp add: days_before_month_def)

lemma days_before_month_less:
  assumes "1 \<le> m" and "m < m'"
  shows "days_before_month y m + month_days y m \<le> days_before_month y m'"
proof -
  have "days_before_month y m + month_days y m \<le> days_before_month y (m + 1 + int n)" for n
  proof (induction n)
    case 0
    then show ?case using assms by (simp add: days_before_month_Suc)
  next
    case (Suc n)
    then show ?case
      using days_before_month_Suc [of "m + 1 + int n" y] month_days_bounds [of y "m + 1 + int n"] assms
      by (simp add: algebra_simps)
  qed
  from this [of "nat (m' - m - 1)"] assms show ?thesis by simp
qed

lemma days_before_month_table:
  "days_before_month y 1 = 0"
  "days_before_month y 2 = 31"
  "days_before_month y 3 = 59 + (if leap_year y then 1 else 0)"
  "days_before_month y 4 = 90 + (if leap_year y then 1 else 0)"
  "days_before_month y 5 = 120 + (if leap_year y then 1 else 0)"
  "days_before_month y 6 = 151 + (if leap_year y then 1 else 0)"
  "days_before_month y 7 = 181 + (if leap_year y then 1 else 0)"
  "days_before_month y 8 = 212 + (if leap_year y then 1 else 0)"
  "days_before_month y 9 = 243 + (if leap_year y then 1 else 0)"
  "days_before_month y 10 = 273 + (if leap_year y then 1 else 0)"
  "days_before_month y 11 = 304 + (if leap_year y then 1 else 0)"
  "days_before_month y 12 = 334 + (if leap_year y then 1 else 0)"
  "days_before_month y 13 = year_days y"
  by (simp_all add: days_before_month_def month_days_def year_days_def upto.simps)

lemma day_number_next_day:
  assumes "valid_date y m d"
  shows "(case next_day (y, m, d) of (y', m', d') \<Rightarrow>
     valid_date y' m' d' \<and> day_number y' m' d' = day_number y m d + 1)"
proof (cases "d < month_days y m")
  case True
  with assms show ?thesis by (simp add: valid_date_def day_number_def)
next
  case full: False
  with assms have d: "d = month_days y m" by (simp add: valid_date_def)
  show ?thesis
  proof (cases "m < 12")
    case True
    with full d assms show ?thesis
      using month_days_bounds [of y "m + 1"]
      by (simp add: valid_date_def day_number_def days_before_month_Suc)
  next
    case False
    with assms have "m = 12" by (simp add: valid_date_def)
    with full d show ?thesis
      by (simp add: valid_date_def day_number_def days_before_year_Suc days_before_month_table
          month_days_def year_days_def)
  qed
qed

subsection \<open>A date is determined by its day number\<close>

lemma day_number_year_bounds:
  assumes "valid_date y m d"
  shows "days_before_year y - days_before_year 1970 \<le> day_number y m d"
    and "day_number y m d < days_before_year y - days_before_year 1970 + year_days y"
proof -
  have m: "1 \<le> m" "m < 13" "1 \<le> d" "d \<le> month_days y m" using assms by (auto simp: valid_date_def)
  have "0 \<le> days_before_month y m"
    using days_before_month_less [of 1 m y] month_days_bounds [of y 1] m by (cases "m = 1") auto
  with m show "days_before_year y - days_before_year 1970 \<le> day_number y m d"
    by (simp add: day_number_def)
  have "days_before_month y m + month_days y m \<le> year_days y"
    using days_before_month_less [OF m(1,2), of y] by (simp add: days_before_month_table)
  with m show "day_number y m d < days_before_year y - days_before_year 1970 + year_days y"
    by (simp add: day_number_def)
qed

lemma day_number_inj:
  assumes v: "valid_date y m d" and v': "valid_date y' m' d'"
    and eq: "day_number y m d = day_number y' m' d'"
  shows "y = y' \<and> m = m' \<and> d = d'"
proof -
  note b = day_number_year_bounds [OF v] day_number_year_bounds [OF v']
  have "\<not> y < y'" using b eq days_before_year_less [of y y'] by linarith
  moreover have "\<not> y' < y" using b eq days_before_year_less [of y' y] by linarith
  ultimately have yy: "y = y'" by simp
  have mm: "m = m'"
  proof (rule ccontr)
    assume "m \<noteq> m'"
    then show False
      using eq v v' yy days_before_month_less [of m m' y] days_before_month_less [of m' m y]
      by (cases "m < m'") (auto simp: valid_date_def day_number_def)
  qed
  with yy eq show ?thesis by (simp add: day_number_def)
qed

subsection \<open>From a day number to the date, by counting through years and months\<close>

function year_scan :: "int \<Rightarrow> int \<Rightarrow> int \<times> int" where
  "year_scan y n = (if n < year_days y then (y, n) else year_scan (y + 1) (n - year_days y))"
  by pat_completeness auto
termination
  by (relation "measure (\<lambda>(y, n). nat n)") (auto simp: not_less intro: less_le_trans [OF year_days_pos])

function month_scan :: "int \<Rightarrow> int \<Rightarrow> int \<Rightarrow> int \<times> int" where
  "month_scan y m n = (if n < month_days y m then (m, n + 1) else month_scan y (m + 1) (n - month_days y m))"
  by pat_completeness auto
termination
  by (relation "measure (\<lambda>(y, m, n). nat n)") (auto simp: not_less intro: less_le_trans [OF month_days_pos])

declare year_scan.simps [simp del] month_scan.simps [simp del]

text \<open>Every 400 years have 146097 days; the scan starts at the beginning of such a period.\<close>

definition gm_date :: "int \<Rightarrow> int \<times> int \<times> int" where
  "gm_date n =
     (let era = n div 146097;
          (y, doy) = year_scan (1970 + 400 * era) (n mod 146097);
          (m, d) = month_scan y 1 doy
      in (y, m, d))"

lemma year_scan_correct:
  assumes "year_scan y n = (y', r)" and "0 \<le> n"
  shows "days_before_year y + n = days_before_year y' + r \<and> 0 \<le> r \<and> r < year_days y'"
  using assms
proof (induction y n rule: year_scan.induct)
  case (1 y n)
  show ?case
  proof (cases "n < year_days y")
    case True
    with "1.prems" show ?thesis by (simp add: year_scan.simps [of y n])
  next
    case False
    with "1" show ?thesis
      by (simp add: year_scan.simps [of y n] days_before_year_Suc)
  qed
qed

lemma month_scan_correct:
  assumes "month_scan y m n = (m', d)" and "0 \<le> n" and "1 \<le> m"
    and "days_before_month y m + n < year_days y"
  shows "days_before_month y m + n = days_before_month y m' + d - 1 \<and> 1 \<le> d \<and> d \<le> month_days y m'
    \<and> 1 \<le> m' \<and> m' \<le> 12"
  using assms
proof (induction y m n rule: month_scan.induct)
  case (1 y m n)
  have m12: "m \<le> 12"
  proof (rule ccontr)
    assume "\<not> m \<le> 12"
    then have "year_days y \<le> days_before_month y m"
      using days_before_month_less [of 13 m y] month_days_bounds [of y 13]
      by (cases "m = 13") (simp_all add: days_before_month_table)
    with "1.prems" show False by simp
  qed
  show ?case
  proof (cases "n < month_days y m")
    case True
    with "1.prems" m12 show ?thesis by (auto simp: month_scan.simps [of y m n])
  next
    case False
    with "1" show ?thesis
      by (simp add: month_scan.simps [of y m n] days_before_month_Suc)
  qed
qed

lemma days_before_year_era: "days_before_year (y + 400 * k) = days_before_year y + 146097 * k"
proof -
  have shift: "(a + c * j) div c = a div c + j" if "0 < c" for a c j :: int
    using that by simp
  have a: "y + 400 * k - 1 = (y - 1) + 4 * (100 * k)" "y + 400 * k - 1 = (y - 1) + 100 * (4 * k)"
    "y + 400 * k - 1 = (y - 1) + 400 * k" by simp_all
  have "(y + 400 * k - 1) div 4 = (y - 1) div 4 + 100 * k"
    unfolding a(1) by (rule shift) simp
  moreover have "(y + 400 * k - 1) div 100 = (y - 1) div 100 + 4 * k"
    unfolding a(2) by (rule shift) simp
  moreover have "(y + 400 * k - 1) div 400 = (y - 1) div 400 + k"
    unfolding a(3) by (rule shift) simp
  moreover have "365 * (y + 400 * k - 1) = 365 * (y - 1) + 146000 * k" by simp
  ultimately show ?thesis by (simp only: days_before_year_def)
qed

lemma gm_date_correct:
  assumes "gm_date n = (y, m, d)"
  shows "valid_date y m d \<and> day_number y m d = n"
proof -
  obtain doy where ys: "year_scan (1970 + 400 * (n div 146097)) (n mod 146097) = (y, doy)"
      and ms: "month_scan y 1 doy = (m, d)"
    using assms by (auto simp: gm_date_def Let_def split: prod.splits)
  have y: "days_before_year (1970 + 400 * (n div 146097)) + n mod 146097 = days_before_year y + doy
      \<and> 0 \<le> doy \<and> doy < year_days y"
    by (rule year_scan_correct [OF ys]) simp
  then have m: "doy = days_before_month y m + d - 1 \<and> 1 \<le> d \<and> d \<le> month_days y m \<and> 1 \<le> m \<and> m \<le> 12"
    using month_scan_correct [OF ms] by simp
  have "day_number y m d = 146097 * (n div 146097) + n mod 146097"
    using y m by (simp add: day_number_def days_before_year_era)
  also have "\<dots> = n" by simp
  finally show ?thesis using m by (simp add: valid_date_def)
qed

text \<open>The calendar as an interface: a bijection between valid dates and day numbers.\<close>

lemma gm_date_day_number:
  assumes "valid_date y m d"
  shows "gm_date (day_number y m d) = (y, m, d)"
proof -
  obtain y' m' d' where g: "gm_date (day_number y m d) = (y', m', d')"
    by (cases "gm_date (day_number y m d)") auto
  from gm_date_correct [OF this] day_number_inj [OF _ assms, of y' m' d'] g show ?thesis by simp
qed

lemma gm_date_unique:
  assumes "valid_date y m d" and "day_number y m d = n"
  shows "gm_date n = (y, m, d)"
  using assms gm_date_day_number by blast

subsection \<open>\<open>struct tm\<close>, \<open>gmtime_r\<close>, \<open>timegm\<close>\<close>

record tm =
  tm_sec :: int
  tm_min :: int
  tm_hour :: int
  tm_mday :: int
  tm_mon :: int
  tm_year :: int
  tm_wday :: int
  tm_yday :: int
  tm_isdst :: int
  tm_gmtoff :: int
  tm_zone :: "bytes option"

definition tm_zero :: tm where
  "tm_zero = \<lparr>tm_sec = 0, tm_min = 0, tm_hour = 0, tm_mday = 0, tm_mon = 0, tm_year = 0,
     tm_wday = 0, tm_yday = 0, tm_isdst = 0, tm_gmtoff = 0, tm_zone = None\<rparr>"

definition seconds_per_day :: int where "seconds_per_day = 86400"

definition gmtime_r :: "int \<Rightarrow> tm" where
  "gmtime_r t =
     (let n = t div seconds_per_day; s = t mod seconds_per_day; (y, m, d) = gm_date n in
      \<lparr>tm_sec = s mod 60, tm_min = s div 60 mod 60, tm_hour = s div 3600,
       tm_mday = d, tm_mon = m - 1, tm_year = y - 1900,
       tm_wday = (n + 4) mod 7, tm_yday = n - day_number y 1 1,
       tm_isdst = 0, tm_gmtoff = 0, tm_zone = Some (c_string ''GMT'')\<rparr>)"

text \<open>\<open>timegm\<close> counts the fields, months outside \<open>0..11\<close> carried into the year.\<close>

definition timegm :: "tm \<Rightarrow> int" where
  "timegm t =
     (let y = tm_year t + 1900 + tm_mon t div 12; m = tm_mon t mod 12 + 1 in
      day_number y m (tm_mday t) * seconds_per_day
        + tm_hour t * 3600 + tm_min t * 60 + tm_sec t)"

lemma hms_recombine: "(s::int) div 3600 * 3600 + s div 60 mod 60 * 60 + s mod 60 = s"
proof -
  have "s div 3600 = s div 60 div 60" by (simp add: zdiv_zmult2_eq)
  then have "s div 3600 * 60 + s div 60 mod 60 = s div 60" by simp
  then have "s div 3600 * 3600 + s div 60 mod 60 * 60 = s div 60 * 60" by simp
  then show ?thesis by simp
qed

lemma gmtime_r_fields:
  fixes t
  defines "g \<equiv> gmtime_r t"
  shows "valid_date (tm_year g + 1900) (tm_mon g + 1) (tm_mday g)"
    "day_number (tm_year g + 1900) (tm_mon g + 1) (tm_mday g) = t div seconds_per_day"
    "0 \<le> tm_sec g \<and> tm_sec g < 60" "0 \<le> tm_min g \<and> tm_min g < 60" "0 \<le> tm_hour g \<and> tm_hour g < 24"
    "tm_hour g * 3600 + tm_min g * 60 + tm_sec g = t mod seconds_per_day"
proof -
  obtain y m d where g: "gm_date (t div seconds_per_day) = (y, m, d)"
    by (cases "gm_date (t div seconds_per_day)") auto
  note c = gm_date_correct [OF g]
  define s where "s = t mod seconds_per_day"
  have s: "0 \<le> s" "s < 86400" by (simp_all add: s_def seconds_per_day_def)
  have f: "tm_year g = y - 1900" "tm_mon g = m - 1" "tm_mday g = d" "tm_sec g = s mod 60"
    "tm_min g = s div 60 mod 60" "tm_hour g = s div 3600"
    by (simp_all add: g_def gmtime_r_def Let_def g s_def)
  show "valid_date (tm_year g + 1900) (tm_mon g + 1) (tm_mday g)"
    "day_number (tm_year g + 1900) (tm_mon g + 1) (tm_mday g) = t div seconds_per_day"
    using c by (simp_all add: f)
  show "0 \<le> tm_sec g \<and> tm_sec g < 60" "0 \<le> tm_min g \<and> tm_min g < 60"
    by (simp_all add: f)
  show "tm_hour g * 3600 + tm_min g * 60 + tm_sec g = t mod seconds_per_day"
    unfolding f s_def by (rule hms_recombine)
  show "0 \<le> tm_hour g \<and> tm_hour g < 24"
    unfolding f using div_int_bounds [of 3600 s 24] s by simp
qed

lemma timegm_gmtime_r: "timegm (gmtime_r t) = t"
proof -
  note f = gmtime_r_fields [of t]
  let ?g = "gmtime_r t"
  have "0 \<le> tm_mon ?g" "tm_mon ?g < 12" using f(1) by (auto simp: valid_date_def)
  then have "tm_mon ?g div 12 = 0" "tm_mon ?g mod 12 = tm_mon ?g" by auto
  then have "timegm ?g = day_number (tm_year ?g + 1900) (tm_mon ?g + 1) (tm_mday ?g) * seconds_per_day
      + (tm_hour ?g * 3600 + tm_min ?g * 60 + tm_sec ?g)"
    by (simp add: timegm_def Let_def)
  also have "\<dots> = t" unfolding f(2,6) by simp
  finally show ?thesis .
qed

end
