(* ===== verification/Timestamp.thy ===== *)
theory Timestamp
  imports Calendar
begin

text \<open>
  The model of \<open>log/Timestamp.h\<close> and \<open>log/Timestamp.cc\<close>: a point of time as a signed count of
  microseconds, its order, and its two textual forms.
\<close>

datatype Timestamp = Timestamp (microSecondsSinceEpoch: int)

definition kMicroSecondsPerSecond :: int where "kMicroSecondsPerSecond = 1000 * 1000"

definition Timestamp_default :: Timestamp where "Timestamp_default = Timestamp 0"
definition Timestamp_invalid :: Timestamp where "Timestamp_invalid = Timestamp_default"

definition Timestamp_swap :: "Timestamp \<Rightarrow> Timestamp \<Rightarrow> Timestamp \<times> Timestamp" where
  "Timestamp_swap this that =
     (Timestamp (microSecondsSinceEpoch that), Timestamp (microSecondsSinceEpoch this))"

definition Timestamp_valid :: "Timestamp \<Rightarrow> bool" where
  "Timestamp_valid t \<longleftrightarrow> 0 < microSecondsSinceEpoch t"

definition secondsSinceEpoch :: "Timestamp \<Rightarrow> int" where
  "secondsSinceEpoch t = microSecondsSinceEpoch t sdiv kMicroSecondsPerSecond"

definition fromUnixTime_us :: "int \<Rightarrow> int \<Rightarrow> Timestamp" where
  "fromUnixTime_us t microseconds = Timestamp (t * kMicroSecondsPerSecond + microseconds)"

definition fromUnixTime :: "int \<Rightarrow> Timestamp" where
  "fromUnixTime t = fromUnixTime_us t 0"

text \<open>\<open>now()\<close> on the answer of \<open>gettimeofday\<close>.\<close>

definition Timestamp_now :: "int \<times> int \<Rightarrow> Timestamp" where
  "Timestamp_now tv = (case tv of (tv_sec, tv_usec) \<Rightarrow>
     Timestamp (tv_sec * kMicroSecondsPerSecond + tv_usec))"

definition Timestamp_less :: "Timestamp \<Rightarrow> Timestamp \<Rightarrow> bool" where
  "Timestamp_less lhs rhs \<longleftrightarrow> microSecondsSinceEpoch lhs < microSecondsSinceEpoch rhs"

definition Timestamp_eq :: "Timestamp \<Rightarrow> Timestamp \<Rightarrow> bool" where
  "Timestamp_eq lhs rhs \<longleftrightarrow> microSecondsSinceEpoch lhs = microSecondsSinceEpoch rhs"

text \<open>\<open>operator<\<close> as an instance of the library's linear orders, with the other comparisons derived from it as
  \<open>boost::less_than_comparable\<close> does.\<close>

instantiation Timestamp :: linorder
begin

definition less_Timestamp :: "Timestamp \<Rightarrow> Timestamp \<Rightarrow> bool" where
  "less_Timestamp lhs rhs \<longleftrightarrow> Timestamp_less lhs rhs"

definition less_eq_Timestamp :: "Timestamp \<Rightarrow> Timestamp \<Rightarrow> bool" where
  "less_eq_Timestamp lhs rhs \<longleftrightarrow> \<not> Timestamp_less rhs lhs"

instance
  by standard (auto simp: less_Timestamp_def less_eq_Timestamp_def Timestamp_less_def intro: Timestamp.expand)

end

text \<open>
  \<open>timeDifference\<close> and \<open>addTime\<close> compute with the machine's \<open>double\<close> (type \<open>'d\<close>): its
  conversion from an integer, its quotient, its product and its truncation to \<open>int64_t\<close> are
  arguments.
\<close>

definition timeDifference :: "(int \<Rightarrow> 'd) \<Rightarrow> ('d \<Rightarrow> 'd \<Rightarrow> 'd) \<Rightarrow> Timestamp \<Rightarrow> Timestamp \<Rightarrow> 'd" where
  "timeDifference to_double ddiv high low =
     (let diff = microSecondsSinceEpoch high - microSecondsSinceEpoch low
      in ddiv (to_double diff) (to_double kMicroSecondsPerSecond))"

definition addTime :: "(int \<Rightarrow> 'd) \<Rightarrow> ('d \<Rightarrow> 'd \<Rightarrow> 'd) \<Rightarrow> ('d \<Rightarrow> int) \<Rightarrow> Timestamp \<Rightarrow> 'd \<Rightarrow> Timestamp" where
  "addTime to_double dmul trunc timestamp seconds =
     (let delta = trunc (dmul seconds (to_double kMicroSecondsPerSecond))
      in Timestamp (microSecondsSinceEpoch timestamp + delta))"

definition Timestamp_toString :: "Timestamp \<Rightarrow> string" where
  "Timestamp_toString t =
     (let seconds = microSecondsSinceEpoch t sdiv kMicroSecondsPerSecond;
          microseconds = microSecondsSinceEpoch t smod kMicroSecondsPerSecond
      in take 31 (fmt_d seconds @ ''.'' @ fmt_d_zero 6 microseconds))"

text \<open>The format \<open>%4d%02d%02d %02d:%02d:%02d\<close> of a broken-down time, shared with the logger.\<close>

definition format_tm :: "tm \<Rightarrow> string" where
  "format_tm tm_time =
     fmt_d_space 4 (tm_year tm_time + 1900) @ fmt_d_zero 2 (tm_mon tm_time + 1) @ fmt_d_zero 2 (tm_mday tm_time)
       @ '' '' @ fmt_d_zero 2 (tm_hour tm_time) @ '':'' @ fmt_d_zero 2 (tm_min tm_time)
       @ '':'' @ fmt_d_zero 2 (tm_sec tm_time)"

definition Timestamp_toFormattedString :: "bool \<Rightarrow> Timestamp \<Rightarrow> string" where
  "Timestamp_toFormattedString showMicroseconds t =
     (let seconds = microSecondsSinceEpoch t sdiv kMicroSecondsPerSecond;
          tm_time = gmtime_r seconds
      in if showMicroseconds
         then (let microseconds = microSecondsSinceEpoch t smod kMicroSecondsPerSecond
               in take 63 (format_tm tm_time @ ''.'' @ fmt_d_zero 6 microseconds))
         else take 63 (format_tm tm_time))"

subsection \<open>Fixed-width decimal fields\<close>

lemma length_dec_nat_le:
  "n < 10 ^ w \<Longrightarrow> 0 < w \<Longrightarrow> length (dec_nat n) \<le> w"
  using dec_nat_length_le [of n "w - 1"] by simp

lemma length_fmt_d_zero:
  assumes "0 \<le> v" and "v < 10 ^ w" and "0 < w"
  shows "length (fmt_d_zero w v) = w"
proof -
  have "nat v < 10 ^ w" using assms(1,2) by (simp add: nat_less_iff)
  from length_dec_nat_le [OF this assms(3)] assms(1) show ?thesis
    by (simp add: fmt_d_zero_def fmt_d_def)
qed

lemma length_fmt_d_space:
  assumes "0 \<le> v" and "v < 10 ^ w" and "0 < w"
  shows "length (fmt_d_space w v) = w"
proof -
  have "nat v < 10 ^ w" using assms(1,2) by (simp add: nat_less_iff)
  from length_dec_nat_le [OF this assms(3)] assms(1) show ?thesis
    by (simp add: fmt_d_space_def fmt_d_def)
qed

lemma dec_value_zeros: "dec_value (replicate k CHR ''0'' @ s) = dec_value s"
  by (induction k) (simp_all add: dec_value_def)

lemma dec_value_fmt_d_zero: "0 \<le> v \<Longrightarrow> int (dec_value (fmt_d_zero w v)) = v"
  by (simp add: fmt_d_zero_def fmt_d_def dec_value_zeros)

lemma fmt_d_zero_no_NUL: "NUL \<notin> set (fmt_d_zero w v)"
  by (simp add: fmt_d_zero_def dec_nat_no_NUL)

lemma fmt_d_space_no_NUL: "NUL \<notin> set (fmt_d_space w v)"
  by (simp add: fmt_d_space_def fmt_d_no_NUL)

lemma format_tm_no_NUL: "NUL \<notin> set (format_tm t)"
  by (simp add: format_tm_def fmt_d_zero_no_NUL fmt_d_space_no_NUL)

text \<open>The broken-down fields the format relies on.\<close>

definition tm_printable :: "tm \<Rightarrow> bool" where
  "tm_printable t \<longleftrightarrow> 0 \<le> tm_year t + 1900 \<and> tm_year t + 1900 < 10000 \<and> 0 \<le> tm_mon t + 1 \<and> tm_mon t + 1 < 100
     \<and> 0 \<le> tm_mday t \<and> tm_mday t < 100 \<and> 0 \<le> tm_hour t \<and> tm_hour t < 100
     \<and> 0 \<le> tm_min t \<and> tm_min t < 100 \<and> 0 \<le> tm_sec t \<and> tm_sec t < 100"

lemma length_format_tm: "tm_printable t \<Longrightarrow> length (format_tm t) = 17"
  by (simp add: format_tm_def tm_printable_def length_fmt_d_zero length_fmt_d_space)

text \<open>Years of non-negative times before the year 10000.\<close>

definition year_10000 :: int where "year_10000 = 253402300800"

lemma gmtime_r_printable:
  assumes "0 \<le> t" and "t < year_10000"
  shows "tm_printable (gmtime_r t)" and "1970 \<le> tm_year (gmtime_r t) + 1900"
proof -
  let ?g = "gmtime_r t"
  let ?y = "tm_year ?g + 1900"
  note f = gmtime_r_fields [of t]
  have n: "0 \<le> t div seconds_per_day \<and> t div seconds_per_day < 2932897"
    using assms by (intro div_int_bounds) (simp_all add: seconds_per_day_def year_10000_def)
  note yb = day_number_year_bounds [OF f(1), unfolded f(2)]
  have "1970 \<le> ?y"
  proof (rule ccontr)
    assume "\<not> 1970 \<le> ?y"
    then have "days_before_year ?y + year_days ?y \<le> days_before_year 1970"
      by (intro days_before_year_less) simp
    with yb(2) n show False by simp
  qed
  moreover have "?y < 10000"
  proof (rule ccontr)
    assume "\<not> ?y < 10000"
    then have "days_before_year 10000 \<le> days_before_year ?y"
      using days_before_year_less [of 10000 ?y] year_days_pos [of 10000] by (cases "?y = 10000") simp_all
    moreover have "days_before_year 10000 - days_before_year 1970 = 2932897"
      by (simp add: days_before_year_def)
    ultimately show False using yb(1) n by simp
  qed
  moreover have "1 \<le> tm_mon ?g + 1" "tm_mon ?g + 1 \<le> 12" "1 \<le> tm_mday ?g" "tm_mday ?g \<le> 31"
    using f(1) month_days_bounds [of ?y "tm_mon ?g + 1"] by (auto simp: valid_date_def)
  ultimately show "tm_printable ?g" "1970 \<le> ?y"
    using f(3-5) by (auto simp: tm_printable_def)
qed

text \<open>The fixed columns of a formatted time, read back.\<close>

definition read_formatted :: "string \<Rightarrow> int" where
  "read_formatted s =
     (let fld = (\<lambda>i n. int (dec_value (take n (drop i s)))) in
      (day_number (fld 0 4) (fld 4 2) (fld 6 2) * seconds_per_day
         + fld 9 2 * 3600 + fld 12 2 * 60 + fld 15 2) * kMicroSecondsPerSecond + fld 18 6)"

lemma fmt_d_space_eq_zero:
  assumes "10 ^ (w - 1) \<le> v" and "v < 10 ^ w" and "0 < w"
  shows "fmt_d_space w v = fmt_d_zero w v"
proof -
  have v: "0 \<le> v" using assms(1) by (meson order_trans zero_le_numeral zero_le_power)
  have "length (dec_nat (nat v)) = w"
  proof (rule antisym)
    have "nat v < 10 ^ w" using assms(2) v by (simp add: nat_less_iff)
    then show "length (dec_nat (nat v)) \<le> w" using assms(3) by (rule length_dec_nat_le)
    show "w \<le> length (dec_nat (nat v))"
    proof (rule ccontr)
      assume "\<not> w \<le> length (dec_nat (nat v))"
      then have "length (dec_nat (nat v)) \<le> w - 1" by simp
      moreover have "nat v < 10 ^ length (dec_nat (nat v))" for v by (rule dec_nat_lt)
      ultimately have "nat v < 10 ^ (w - 1)"
        by (meson less_le_trans one_le_numeral power_increasing)
      with assms(1) v show False by (simp add: nat_less_iff)
    qed
  qed
  with v show ?thesis by (simp add: fmt_d_space_def fmt_d_zero_def fmt_d_def)
qed

text \<open>
  C33: \<open>toFormattedString(true)\<close> is a fixed-width text that determines the time: for every time from
  1970 up to the year 9999 it has 24 characters, and its columns, read as a date and time of the
  Gregorian calendar, give back the microseconds since the epoch.
\<close>

theorem toFormattedString_roundtrip:
  assumes "0 \<le> us" and "us < year_10000 * kMicroSecondsPerSecond"
  shows "length (Timestamp_toFormattedString True (Timestamp us)) = 24
     \<and> read_formatted (Timestamp_toFormattedString True (Timestamp us)) = us"
proof -
  define t where "t = us div kMicroSecondsPerSecond"
  define u where "u = us mod kMicroSecondsPerSecond"
  define g where "g = gmtime_r t"
  have k: "0 < kMicroSecondsPerSecond" by (simp add: kMicroSecondsPerSecond_def)
  have sd: "us sdiv kMicroSecondsPerSecond = t" "us smod kMicroSecondsPerSecond = u"
    using assms(1) k by (simp_all add: t_def u_def sdiv_nonneg smod_nonneg)
  have t: "0 \<le> t \<and> t < year_10000"
    using k assms unfolding t_def by (rule div_int_bounds)
  have u: "0 \<le> u" "u < 10 ^ 6" by (simp_all add: u_def kMicroSecondsPerSecond_def)
  have p: "tm_printable g" "1970 \<le> tm_year g + 1900"
    using gmtime_r_printable [of t] t by (auto simp: g_def)
  note q = p(1)[unfolded tm_printable_def]
  let ?y = "fmt_d_zero 4 (tm_year g + 1900)" and ?m = "fmt_d_zero 2 (tm_mon g + 1)"
    and ?d = "fmt_d_zero 2 (tm_mday g)" and ?h = "fmt_d_zero 2 (tm_hour g)"
    and ?n = "fmt_d_zero 2 (tm_min g)" and ?s = "fmt_d_zero 2 (tm_sec g)" and ?u = "fmt_d_zero 6 u"
  have len: "length ?y = 4" "length ?m = 2" "length ?d = 2" "length ?h = 2" "length ?n = 2"
      "length ?s = 2" "length ?u = 6"
    using q u by (auto intro!: length_fmt_d_zero)
  have "fmt_d_space 4 (tm_year g + 1900) = ?y"
    using p(2) q by (intro fmt_d_space_eq_zero) auto
  then have str: "Timestamp_toFormattedString True (Timestamp us)
      = ?y @ ?m @ ?d @ '' '' @ ?h @ '':'' @ ?n @ '':'' @ ?s @ ''.'' @ ?u" (is "_ = ?S")
    using len by (simp add: Timestamp_toFormattedString_def sd g_def [symmetric] format_tm_def Let_def)
  have fields: "take 4 ?S = ?y" "take 2 (drop 4 ?S) = ?m" "take 2 (drop 6 ?S) = ?d"
      "take 2 (drop 9 ?S) = ?h" "take 2 (drop 12 ?S) = ?n" "take 2 (drop 15 ?S) = ?s" "take 6 (drop 18 ?S) = ?u"
    using len by simp_all
  have "read_formatted ?S =
      (day_number (tm_year g + 1900) (tm_mon g + 1) (tm_mday g) * seconds_per_day
        + tm_hour g * 3600 + tm_min g * 60 + tm_sec g) * kMicroSecondsPerSecond + u"
    unfolding read_formatted_def Let_def drop_0 fields using q u by (simp add: dec_value_fmt_d_zero)
  also have "\<dots> = (t div seconds_per_day * seconds_per_day + t mod seconds_per_day)
      * kMicroSecondsPerSecond + u"
    using gmtime_r_fields(2,6) [of t] by (simp add: g_def add.assoc)
  also have "\<dots> = us" by (simp add: t_def u_def)
  finally show ?thesis using len unfolding str by simp
qed

theorem toFormattedString_roundtrip_witness:
  "read_formatted (Timestamp_toFormattedString True (Timestamp 1620982782000123)) = 1620982782000123"
  using toFormattedString_roundtrip [of 1620982782000123]
  by (simp add: year_10000_def kMicroSecondsPerSecond_def)

end
