(* ===== verification/Date.thy ===== *)
theory Date
  imports Calendar
begin

text \<open>
  The model of \<open>log/Date.h\<close> and \<open>log/Date.cc\<close>: the conversion between a year-month-day triple
  and a Julian day number by closed formulas over C's truncating division, and the class
  \<open>Date\<close> around them.  The code computes in \<open>int\<close>: \<open>getJulianDayNumber_checked\<close> and
  \<open>getYearMonthDay_checked\<close> are the functions of the code, \<open>None\<close> where an intermediate value overflows.  The same
  formulas over unbounded integers give their values, and the exact ranges on which the two agree are theorems;
  the class is stated with these values.  The theorems compare the functions with the calendar of
  \<open>Calendar\<close>.
\<close>

record YearMonthDay =
  ymd_year :: int
  ymd_month :: int
  ymd_day :: int

definition getJulianDayNumber :: "int \<Rightarrow> int \<Rightarrow> int \<Rightarrow> int" where
  "getJulianDayNumber year month day =
     (let a = (14 - month) sdiv 12;
          y = year + 4800 - a;
          m = month + 12 * a - 3
      in day + (153 * m + 2) sdiv 5 + y * 365 + y sdiv 4 - y sdiv 100 + y sdiv 400 - 32045)"

definition getYearMonthDay :: "int \<Rightarrow> YearMonthDay" where
  "getYearMonthDay julianDayNumber =
     (let a = julianDayNumber + 32044;
          b = (4 * a + 3) sdiv 146097;
          c = a - (b * 146097) sdiv 4;
          d = (4 * c + 3) sdiv 1461;
          e = c - (1461 * d) sdiv 4;
          m = (5 * e + 2) sdiv 153
      in \<lparr>ymd_year = b * 100 + d - 4800 + m sdiv 10,
          ymd_month = m + 3 - 12 * (m sdiv 10),
          ymd_day = e - (153 * m + 2) sdiv 5 + 1\<rparr>)"

definition kJulianDayOf1970_01_01 :: int where
  "kJulianDayOf1970_01_01 = getJulianDayNumber 1970 1 1"

definition kDaysPerWeek :: int where "kDaysPerWeek = 7"

subsection \<open>The class\<close>

record Date =
  julianDayNumber :: int

definition Date_invalid :: Date where "Date_invalid = \<lparr>julianDayNumber = 0\<rparr>"

definition Date_ofJulian :: "int \<Rightarrow> Date" where
  "Date_ofJulian julianDay = \<lparr>julianDayNumber = julianDay\<rparr>"

definition Date_ofYMD :: "int \<Rightarrow> int \<Rightarrow> int \<Rightarrow> Date" where
  "Date_ofYMD y m d = \<lparr>julianDayNumber = getJulianDayNumber y m d\<rparr>"

definition Date_ofTm :: "tm \<Rightarrow> Date" where
  "Date_ofTm t = \<lparr>julianDayNumber = getJulianDayNumber (tm_year t + 1900) (tm_mon t + 1) (tm_mday t)\<rparr>"

definition Date_swap :: "Date \<Rightarrow> Date \<Rightarrow> Date \<times> Date" where
  "Date_swap this that = (that, this)"

definition Date_valid :: "Date \<Rightarrow> bool" where
  "Date_valid d \<longleftrightarrow> 0 < julianDayNumber d"

definition Date_yearMonthDay :: "Date \<Rightarrow> YearMonthDay" where
  "Date_yearMonthDay d = getYearMonthDay (julianDayNumber d)"

definition Date_year :: "Date \<Rightarrow> int" where "Date_year d = ymd_year (Date_yearMonthDay d)"
definition Date_month :: "Date \<Rightarrow> int" where "Date_month d = ymd_month (Date_yearMonthDay d)"
definition Date_day :: "Date \<Rightarrow> int" where "Date_day d = ymd_day (Date_yearMonthDay d)"

definition Date_weekDay :: "Date \<Rightarrow> int" where
  "Date_weekDay d = (julianDayNumber d + 1) smod kDaysPerWeek"

text \<open>\<open>buf\<close> has 32 bytes; the returned \<open>string\<close> is what \<open>snprintf\<close> left in front of the NUL.\<close>

definition Date_toIsoString :: "Date \<Rightarrow> string" where
  "Date_toIsoString d =
     (let ymd = Date_yearMonthDay d in
      take 31 (fmt_d_space 4 (ymd_year ymd) @ ''-'' @ fmt_d_zero 2 (ymd_month ymd) @ ''-'' @ fmt_d_zero 2 (ymd_day ymd)))"

subsection \<open>Reduction of the truncating divisions\<close>

text \<open>From year -4799 on (and in -4800 from March on) all dividends are non-negative.\<close>

definition jdn_range :: "int \<Rightarrow> int \<Rightarrow> bool" where
  "jdn_range y m \<longleftrightarrow> -4800 < y \<or> y = -4800 \<and> 3 \<le> m"

definition first_jdn :: int where "first_jdn = - 32044"

lemma getJulianDayNumber_floor:
  assumes "valid_date y m d" and "jdn_range y m"
  shows "getJulianDayNumber y m d =
     (let a = (if m \<le> 2 then 1 else 0); y' = y + 4800 - a; m' = m + 12 * a - 3 in
      d + (153 * m' + 2) div 5 + 365 * y' + y' div 4 - y' div 100 + y' div 400 - 32045)"
proof -
  have m: "1 \<le> m" "m \<le> 12" using assms(1) by (auto simp: valid_date_def)
  have a: "(14 - m) sdiv 12 = (if m \<le> 2 then 1 else 0)"
  proof -
    have "(14 - m) sdiv 12 = (14 - m) div 12" using m by (intro sdiv_nonneg) simp_all
    also have "\<dots> = (if m \<le> 2 then 1 else 0)" using m by auto
    finally show ?thesis .
  qed
  define a' where "a' = (if m \<le> 2 then 1 else 0 :: int)"
  define y' where "y' = y + 4800 - a'"
  define m' where "m' = m + 12 * a' - 3"
  have y': "0 \<le> y'" using assms(2) by (auto simp: y'_def a'_def jdn_range_def)
  have m': "0 \<le> m'" using m by (auto simp: m'_def a'_def)
  have "(153 * m' + 2) sdiv 5 = (153 * m' + 2) div 5"
    "y' sdiv 4 = y' div 4" "y' sdiv 100 = y' div 100" "y' sdiv 400 = y' div 400"
    using y' m' by (simp_all add: sdiv_nonneg)
  note eqs = this
  show ?thesis
    unfolding getJulianDayNumber_def Let_def a a'_def [symmetric] y'_def [symmetric] m'_def [symmetric]
    unfolding eqs by simp
qed

lemma days_before_year_4800:
  "days_before_year (y + 4800) = days_before_year y + 146097 * 12"
  using days_before_year_era [of y 12] by simp

lemma leap_year_4800: "leap_year (y + 4800) = leap_year y"
proof -
  have "(y + 4800) mod 4 = y mod 4" "(y + 4800) mod 100 = y mod 100" "(y + 4800) mod 400 = y mod 400"
    using mod_mult_self2 [of y 4 1200] mod_mult_self2 [of y 100 48] mod_mult_self2 [of y 400 12]
    by simp_all
  then show ?thesis by (simp add: leap_year_def)
qed

text \<open>The leap days up to and including year \<open>y\<close>, as the code counts them.\<close>

lemma leap_days_through:
  "365 * y + y div 4 - y div 100 + y div 400 = days_before_year y + year_days y"
  using days_before_year_Suc [of y] by (simp add: days_before_year_def)

lemma getJulianDayNumber_correct:
  assumes v: "valid_date y m d" and r: "jdn_range y m"
  shows "getJulianDayNumber y m d = 2440588 + day_number y m d"
proof -
  have "m \<in> {1, 2, 3, 4, 5, 6, 7, 8, 9, 10, 11, 12}"
    using v unfolding valid_date_def insert_iff empty_iff by arith
  then have "(let a = (if m \<le> 2 then 1 else 0); m' = m + 12 * a - 3 in
      (153 * m' + 2) div 5) = days_before_month y m
        + (if m \<le> 2 then 306 else - 60 - (if leap_year y then 1 else 0) + 1)"
    by (elim insertE) (simp_all add: days_before_month_table)
  note months = this
  show ?thesis
  proof (cases "m \<le> 2")
    case True
    have "365 * (y + 4799) + (y + 4799) div 4 - (y + 4799) div 100 + (y + 4799) div 400
        = days_before_year (y + 4800)"
      using leap_days_through [of "y + 4799"] days_before_year_Suc [of "y + 4799"]
      by (simp add: add.commute)
    with True months show ?thesis
      unfolding getJulianDayNumber_floor [OF v r]
      by (simp add: days_before_year_4800 day_number_def Let_def days_before_year_def [of 1970] ac_simps)
  next
    case False
    have "365 * (y + 4800) + (y + 4800) div 4 - (y + 4800) div 100 + (y + 4800) div 400
        = days_before_year (y + 4800) + year_days (y + 4800)"
      by (rule leap_days_through)
    with False months show ?thesis
      unfolding getJulianDayNumber_floor [OF v r]
      by (simp add: days_before_year_4800 day_number_def Let_def days_before_year_def [of 1970]
          year_days_def leap_year_4800)
  qed
qed

subsection \<open>The inverse formula\<close>

text \<open>
  The intermediate values of \<open>getYearMonthDay\<close> for a non-negative day count \<open>a\<close> since
  1 March -4800: the century \<open>b\<close>, the day in it \<open>c\<close>, the year \<open>d\<close>, the day in the
  year \<open>e\<close> and the month \<open>m\<close>, both counted from March.
\<close>

lemma period_bound:
  fixes k :: int
  assumes "4 * a + 3 < (4 * k + 1) * (b + 1)" and "a = k * b + q + c" and "b = 4 * q + r"
  shows "4 * c < 4 * k - 2 + r"
  using assms(1) unfolding assms(2,3) by (simp add: algebra_simps)

lemma century_bounds:
  fixes a :: int
  defines "b \<equiv> (4 * a + 3) div 146097"
  defines "c \<equiv> a - (b * 146097) div 4"
  assumes "0 \<le> a"
  shows "0 \<le> b" "0 \<le> c" "c \<le> 36523 \<or> c = 36524 \<and> b mod 4 = 3"
    "a = 36524 * b + b div 4 + c"
proof -
  have q: "146097 * b \<le> 4 * a + 3" "4 * a + 3 < 146097 * (b + 1)"
    using mult_div_mod_eq [of 146097 "4 * a + 3"] pos_mod_sign [of 146097 "4 * a + 3"]
      pos_mod_bound [of 146097 "4 * a + 3"] unfolding b_def by simp_all
  show "0 \<le> b" using assms(3) by (simp add: b_def pos_imp_zdiv_nonneg_iff)
  have "b * 146097 = b + 4 * (36524 * b)" by simp
  then have d: "(b * 146097) div 4 = b div 4 + 36524 * b"
    by (metis div_mult_self2 zero_neq_numeral add.commute)
  then show a: "a = 36524 * b + b div 4 + c" by (simp add: c_def)
  have b4: "b = 4 * (b div 4) + b mod 4" "0 \<le> b mod 4" "b mod 4 \<le> 3"
    using pos_mod_bound [of 4 b] by simp_all
  show "0 \<le> c" using q(1) a b4 by linarith
  show "c \<le> 36523 \<or> c = 36524 \<and> b mod 4 = 3"
  proof (cases "c \<le> 36523")
    case False
    have "4 * a + 3 < (4 * 36524 + 1) * (b + 1)" using q(2) by simp
    from period_bound [OF this a b4(1)] have "4 * c < 146094 + b mod 4" by simp
    with False b4(3) have "3 \<le> b mod 4" "c < 36525" by simp_all
    with False b4(3) show ?thesis by simp
  qed simp
qed

lemma year_bounds:
  fixes c :: int
  defines "d \<equiv> (4 * c + 3) div 1461"
  defines "e \<equiv> c - (1461 * d) div 4"
  assumes "0 \<le> c" and "c \<le> 36524"
  shows "0 \<le> d" "d \<le> 99" "0 \<le> e" "e \<le> 364 \<or> e = 365 \<and> d mod 4 = 3" "c = 365 * d + d div 4 + e"
    "c = 36524 \<Longrightarrow> d = 99 \<and> e = 365" "e = 365 \<Longrightarrow> d = 99 \<Longrightarrow> c = 36524"
proof -
  have q: "1461 * d \<le> 4 * c + 3" "4 * c + 3 < 1461 * (d + 1)"
    using mult_div_mod_eq [of 1461 "4 * c + 3"] pos_mod_sign [of 1461 "4 * c + 3"]
      pos_mod_bound [of 1461 "4 * c + 3"] unfolding d_def by simp_all
  show d0: "0 \<le> d" using assms(3) by (simp add: d_def pos_imp_zdiv_nonneg_iff)
  show d99: "d \<le> 99" using q(1) assms(4) by linarith
  have "1461 * d = d + 4 * (365 * d)" by simp
  then have d4: "(1461 * d) div 4 = d div 4 + 365 * d"
    by (metis div_mult_self2 zero_neq_numeral add.commute)
  then show c: "c = 365 * d + d div 4 + e" by (simp add: e_def)
  have m4: "d = 4 * (d div 4) + d mod 4" "0 \<le> d mod 4" "d mod 4 \<le> 3"
    using pos_mod_bound [of 4 d] by simp_all
  show "0 \<le> e" using q(1) c m4 by linarith
  show "e \<le> 364 \<or> e = 365 \<and> d mod 4 = 3"
  proof (cases "e \<le> 364")
    case False
    have "4 * c + 3 < (4 * 365 + 1) * (d + 1)" using q(2) by simp
    from period_bound [OF this c m4(1)] have "4 * e < 1458 + d mod 4" by simp
    with False m4(3) have "3 \<le> d mod 4" "e < 366" by simp_all
    with False m4(3) show ?thesis by simp
  qed simp
  show "d = 99 \<and> e = 365" if "c = 36524"
    using that by (simp add: d_def e_def)
  show "c = 36524" if "e = 365" "d = 99"
    using that c by simp
qed

text \<open>The month lengths counted from March, read off the formula \<open>(153 * m + 2) div 5\<close>.\<close>

lemma month_bounds:
  fixes e :: int
  defines "m \<equiv> (5 * e + 2) div 153"
  assumes "0 \<le> e" and "e \<le> 365"
  shows "0 \<le> m" "m \<le> 11" "(153 * m + 2) div 5 \<le> e" "e < (153 * (m + 1) + 2) div 5"
proof -
  have q: "153 * m \<le> 5 * e + 2" "5 * e + 2 < 153 * (m + 1)"
    using mult_div_mod_eq [of 153 "5 * e + 2"] pos_mod_sign [of 153 "5 * e + 2"]
      pos_mod_bound [of 153 "5 * e + 2"] unfolding m_def by simp_all
  show "0 \<le> m" using assms(2) by (simp add: m_def pos_imp_zdiv_nonneg_iff)
  show "m \<le> 11" using q(1) assms(3) by linarith
  show "(153 * m + 2) div 5 \<le> e" using q(1) by linarith
  show "e < (153 * (m + 1) + 2) div 5" using q(2) by linarith
qed

lemma leap_year_last_of_period:
  fixes b d :: int
  assumes "d mod 4 = 3" and "0 \<le> d" "d \<le> 99" and "d = 99 \<Longrightarrow> b mod 4 = 3"
  shows "leap_year (100 * b + d + 1 - 4800)"
proof -
  have "leap_year (100 * b + d + 1)"
  proof (cases "d = 99")
    case True
    with assms(4) have "b = 4 * (b div 4) + 3" using mult_div_mod_eq [of 4 b] by simp
    then have "100 * b + d + 1 = 400 * (b div 4 + 1)" using True by simp
    then show ?thesis by (simp add: leap_year_def mod_mult_eq)
  next
    case False
    have "d = 4 * (d div 4) + 3" using assms(1) mult_div_mod_eq [of 4 d] by simp
    then have e: "100 * b + d + 1 = 4 * (25 * b + d div 4 + 1)" by simp
    have "(100 * b + d + 1) mod 4 = 0" unfolding e by simp
    moreover have "(100 * b + d + 1) mod 100 = d + 1"
      using assms(2,3) False mod_mult_self4 [of 100 b "d + 1"] by (simp add: add.assoc)
    ultimately show ?thesis using assms(2) by (simp add: leap_year_def)
  qed
  moreover have "100 * b + d + 1 = 100 * b + d + 1 - 4800 + 4800" by simp
  ultimately show ?thesis by (metis leap_year_4800)
qed

lemma getYearMonthDay_correct:
  assumes j: "first_jdn \<le> j" and g: "getYearMonthDay j = \<lparr>ymd_year = y, ymd_month = mo, ymd_day = dd\<rparr>"
  shows "valid_date y mo dd \<and> jdn_range y mo \<and> getJulianDayNumber y mo dd = j"
proof -
  define a where "a = j + 32044"
  define b where "b = (4 * a + 3) div 146097"
  define c where "c = a - (b * 146097) div 4"
  define d where "d = (4 * c + 3) div 1461"
  define e where "e = c - (1461 * d) div 4"
  define m where "m = (5 * e + 2) div 153"
  define k where "k = (if m \<le> 9 then 0 else 1 :: int)"
  have a0: "0 \<le> a" using j by (simp add: a_def first_jdn_def)
  note B = century_bounds [OF a0, folded b_def, folded c_def]
  have c1: "c \<le> 36524" using B(3) by auto
  note D = year_bounds [OF B(2) c1, folded d_def, folded e_def]
  have e1: "e \<le> 365" using D(4) by auto
  note M = month_bounds [OF D(3) e1, folded m_def]
  have k: "m div 10 = k" using M(1,2) by (auto simp: k_def)
  have eqs: "(4 * a + 3) sdiv 146097 = b" "(b * 146097) sdiv 4 = (b * 146097) div 4"
    "(4 * c + 3) sdiv 1461 = d" "(1461 * d) sdiv 4 = (1461 * d) div 4"
    "(5 * e + 2) sdiv 153 = m" "m sdiv 10 = k" "(153 * m + 2) sdiv 5 = (153 * m + 2) div 5"
    using a0 B(1,2) D(1,3) M(1) k by (simp_all add: sdiv_nonneg b_def d_def m_def)
  have res: "y = b * 100 + d - 4800 + k" "mo = m + 3 - 12 * k" "dd = e - (153 * m + 2) div 5 + 1"
    using g unfolding getYearMonthDay_def Let_def a_def [symmetric] eqs c_def [symmetric] e_def [symmetric]
    by simp_all
  have mo: "1 \<le> mo" "mo \<le> 12" "mo \<le> 2 \<longleftrightarrow> k = 1"
    using M(1,2) by (auto simp: res(2) k_def)
  have dd1: "1 \<le> dd" using M(3) by (simp add: res(3))
  have "m \<in> {0, 1, 2, 3, 4, 5, 6, 7, 8, 9, 10, 11}"
    using M(1,2) unfolding insert_iff empty_iff by arith
  then have "dd \<le> month_days y mo"
  proof (cases "m = 11")
    case True
    have "leap_year y" if "e = 365"
    proof -
      have y: "y = 100 * b + d + 1 - 4800" using True by (simp add: res(1) k_def)
      have "d mod 4 = 3" using D(4) that by auto
      moreover have "b mod 4 = 3" if "d = 99" using B(3) D(7) [OF \<open>e = 365\<close> that] by simp
      ultimately show ?thesis unfolding y using D(1,2) by (intro leap_year_last_of_period)
    qed
    with True e1 show ?thesis by (cases "e = 365") (auto simp: res(2,3) k_def month_days_def)
  next
    case False
    with \<open>m \<in> _\<close> M(4) show ?thesis
      by (elim insertE) (simp_all add: res(2,3) k_def month_days_def)
  qed
  with mo dd1 have v: "valid_date y mo dd" by (simp add: valid_date_def)
  have r: "jdn_range y mo"
    using B(1) D(1) mo by (auto simp: jdn_range_def res(1) k_def split: if_splits)
  have "100 * b + d = 4 * (25 * b) + d" by simp
  then have q4: "(100 * b + d) div 4 = 25 * b + d div 4" by (metis div_mult_self4 zero_neq_numeral)
  have q100: "(100 * b + d) div 100 = b" using D(1,2) by (simp add: div_pos_pos_trivial)
  have q400: "(100 * b + d) div 400 = b div 4"
    using zdiv_zmult2_eq [of 4 "100 * b + d" 100] q100 by simp
  have "getJulianDayNumber y mo dd = dd + (153 * m + 2) div 5 + 365 * (100 * b + d)
      + (100 * b + d) div 4 - (100 * b + d) div 100 + (100 * b + d) div 400 - 32045"
  proof -
    have k': "(if mo \<le> 2 then 1 else 0) = k" using mo(3) by (auto simp: k_def)
    have y': "y + 4800 - k = 100 * b + d" and m': "mo + 12 * k - 3 = m" by (simp_all add: res)
    show ?thesis
      unfolding getJulianDayNumber_floor [OF v r] Let_def k' y' m' ..
  qed
  also have "\<dots> = j"
    unfolding q4 q100 q400 using B(4) D(5) by (simp add: res(3) a_def)
  finally show ?thesis using v r by simp
qed

subsection \<open>The same code with every intermediate value checked against \<open>int\<close>\<close>

definition getJulianDayNumber_checked :: "int \<Rightarrow> int \<Rightarrow> int \<Rightarrow> int option" where
  "getJulianDayNumber_checked year month day =
     do { t \<leftarrow> chk (14 - month);
          let a = t sdiv 12;
          y1 \<leftarrow> chk (year + 4800);
          y \<leftarrow> chk (y1 - a);
          a12 \<leftarrow> chk (12 * a);
          m1 \<leftarrow> chk (month + a12);
          m \<leftarrow> chk (m1 - 3);
          m153 \<leftarrow> chk (153 * m);
          m2 \<leftarrow> chk (m153 + 2);
          s1 \<leftarrow> chk (day + m2 sdiv 5);
          y365 \<leftarrow> chk (y * 365);
          s2 \<leftarrow> chk (s1 + y365);
          s3 \<leftarrow> chk (s2 + y sdiv 4);
          s4 \<leftarrow> chk (s3 - y sdiv 100);
          s5 \<leftarrow> chk (s4 + y sdiv 400);
          chk (s5 - 32045) }"

definition getYearMonthDay_checked :: "int \<Rightarrow> YearMonthDay option" where
  "getYearMonthDay_checked j =
     do { a \<leftarrow> chk (j + 32044);
          a4 \<leftarrow> chk (4 * a);
          a3 \<leftarrow> chk (a4 + 3);
          let b = a3 sdiv 146097;
          bb \<leftarrow> chk (b * 146097);
          c \<leftarrow> chk (a - bb sdiv 4);
          c4 \<leftarrow> chk (4 * c);
          c3 \<leftarrow> chk (c4 + 3);
          let d = c3 sdiv 1461;
          dd \<leftarrow> chk (1461 * d);
          e \<leftarrow> chk (c - dd sdiv 4);
          e5 \<leftarrow> chk (5 * e);
          e2 \<leftarrow> chk (e5 + 2);
          let m = e2 sdiv 153;
          m153 \<leftarrow> chk (153 * m);
          m2 \<leftarrow> chk (m153 + 2);
          dy1 \<leftarrow> chk (e - m2 sdiv 5);
          dy \<leftarrow> chk (dy1 + 1);
          mo1 \<leftarrow> chk (m + 3);
          mo2 \<leftarrow> chk (12 * (m sdiv 10));
          mo \<leftarrow> chk (mo1 - mo2);
          y1 \<leftarrow> chk (b * 100);
          y2 \<leftarrow> chk (y1 + d);
          y3 \<leftarrow> chk (y2 - 4800);
          y \<leftarrow> chk (y3 + m sdiv 10);
          Some \<lparr>ymd_year = y, ymd_month = mo, ymd_day = dy\<rparr> }"

lemma sdiv_bounds:
  assumes "- n \<le> (x :: int)" "x \<le> n" "0 < k"
  shows "- (n div k) \<le> x sdiv k" "x sdiv k \<le> n div k"
proof -
  have n: "0 \<le> n" using assms(1,2) by linarith
  then have z: "0 \<le> n div k" using assms(3) by (simp add: pos_imp_zdiv_nonneg_iff)
  have "- (n div k) \<le> x sdiv k \<and> x sdiv k \<le> n div k"
  proof (cases "0 \<le> x")
    case True
    then have "0 \<le> x div k" "x div k \<le> n div k" using assms zdiv_mono1 by (auto simp: pos_imp_zdiv_nonneg_iff)
    then show ?thesis using True assms(3) z by (simp add: sdiv_nonneg)
  next
    case False
    then have "0 \<le> - x div k" "- x div k \<le> n div k" using assms zdiv_mono1 [of "- x" n k] by (auto simp: pos_imp_zdiv_nonneg_iff)
    then show ?thesis using False assms(3) z by (simp add: sdiv_neg)
  qed
  then show "- (n div k) \<le> x sdiv k" "x sdiv k \<le> n div k" by simp_all
qed

text \<open>Days before the first one: the truncating divisions keep every value small.\<close>

lemma getYearMonthDay_checked_before:
  assumes "- 536902956 \<le> j" and "j < first_jdn"
  shows "getYearMonthDay_checked j = Some (getYearMonthDay j)"
proof -
  define a where "a = j + 32044"
  define b where "b = (4 * a + 3) sdiv 146097"
  define c where "c = a - (b * 146097) sdiv 4"
  define d where "d = (4 * c + 3) sdiv 1461"
  define e where "e = c - (1461 * d) sdiv 4"
  define m where "m = (5 * e + 2) sdiv 153"
  have a0: "- 536870912 \<le> a" "a \<le> - 1" using assms by (simp_all add: a_def first_jdn_def)
  define k where "k = (- (4 * a + 3)) div 146097"
  have k: "0 \<le> k" "k * 146097 \<le> - (4 * a + 3)" "- (4 * a + 3) < k * 146097 + 146097"
    using a0 mult_div_mod_eq [of 146097 "- (4 * a + 3)"] pos_mod_sign [of 146097 "- (4 * a + 3)"]
      pos_mod_bound [of 146097 "- (4 * a + 3)"] by (simp_all add: k_def pos_imp_zdiv_nonneg_iff)
  have b: "b = - k" using a0 by (simp add: b_def k_def sdiv_neg)
  have q: "(b * 146097) sdiv 4 = - ((k * 146097) div 4)"
    using k(1) sdiv_neg [of "- (k * 146097)" 4] by (cases "k = 0") (simp_all add: b)
  have "4 * ((k * 146097) div 4) \<le> k * 146097" "k * 146097 < 4 * ((k * 146097) div 4) + 4"
    using mult_div_mod_eq [of 4 "k * 146097"] pos_mod_sign [of 4 "k * 146097"] pos_mod_bound [of 4 "k * 146097"] by simp_all
  then have c: "- 40000 \<le> c" "c \<le> 40000" using k a0 by (simp_all add: c_def q)
  have bb: "- 14699 \<le> b" "b \<le> 0" using k a0 by (simp_all add: b)
  have d: "- 110 \<le> d" "d \<le> 110" using sdiv_bounds [of 160003 "4 * c + 3" 1461] c by (simp_all add: d_def)
  have e: "- 90000 \<le> e" "e \<le> 90000" using sdiv_bounds [of 160710 "1461 * d" 4] c d by (simp_all add: e_def)
  have m: "- 2942 \<le> m" "m \<le> 2942" using sdiv_bounds [of 450126 "5 * e + 2" 153] e by (simp_all add: m_def)
  have m5: "- 100000 \<le> (153 * m + 2) sdiv 5" "(153 * m + 2) sdiv 5 \<le> 100000"
    using sdiv_bounds [of 500000 "153 * m + 2" 5] m by simp_all
  have m10: "- 300 \<le> m sdiv 10" "m sdiv 10 \<le> 300" using sdiv_bounds [of 3000 m 10] m by simp_all
  have q4: "- 600000000 \<le> (b * 146097) sdiv 4" "(b * 146097) sdiv 4 \<le> 600000000"
    using sdiv_bounds [of 2147483645 "b * 146097" 4] bb by simp_all
  have d4: "- 50000 \<le> (1461 * d) sdiv 4" "(1461 * d) sdiv 4 \<le> 50000" using sdiv_bounds [of 160710 "1461 * d" 4] d by simp_all
  show ?thesis
    unfolding getYearMonthDay_checked_def getYearMonthDay_def Let_def a_def [symmetric]
    using a0 bb c d e m m5 m10 q4 d4
    by (simp add: b_def [symmetric] c_def [symmetric] d_def [symmetric] e_def [symmetric] m_def [symmetric])
qed

lemma getYearMonthDay_checked_ok:
  assumes "first_jdn \<le> j" and "j \<le> 536838867"
  shows "getYearMonthDay_checked j = Some (getYearMonthDay j)"
proof -
  define a where "a = j + 32044"
  define b where "b = (4 * a + 3) div 146097"
  define c where "c = a - (b * 146097) div 4"
  define d where "d = (4 * c + 3) div 1461"
  define e where "e = c - (1461 * d) div 4"
  define m where "m = (5 * e + 2) div 153"
  have a0: "0 \<le> a" "a \<le> 536870911" using assms by (simp_all add: a_def first_jdn_def)
  note B = century_bounds [OF a0(1), folded b_def, folded c_def]
  have c1: "c \<le> 36524" using B(3) by auto
  note D = year_bounds [OF B(2) c1, folded d_def, folded e_def]
  have e1: "e \<le> 365" using D(4) by auto
  note M = month_bounds [OF D(3) e1, folded m_def]
  have bb: "b * 146097 \<le> 4 * a + 3"
    using mult_div_mod_eq [of 146097 "4 * a + 3"] pos_mod_sign [of 146097 "4 * a + 3"]
    unfolding b_def by simp
  have eqs: "(4 * a + 3) sdiv 146097 = b" "(b * 146097) sdiv 4 = (b * 146097) div 4"
    "(4 * c + 3) sdiv 1461 = d" "(1461 * d) sdiv 4 = (1461 * d) div 4"
    "(5 * e + 2) sdiv 153 = m" "m sdiv 10 = m div 10" "(153 * m + 2) sdiv 5 = (153 * m + 2) div 5"
    using a0 B(1,2) D(1,3) M(1) by (simp_all add: sdiv_nonneg b_def d_def m_def)
  have m5: "0 \<le> (153 * m + 2) div 5" using M(1) by (simp add: pos_imp_zdiv_nonneg_iff)
  have m10: "0 \<le> m div 10" "m div 10 \<le> 1" using M(1,2) by auto
  have b1: "b \<le> 14700" using bb a0(2) by simp
  have "getYearMonthDay_checked j
     = Some \<lparr>ymd_year = b * 100 + d - 4800 + m div 10, ymd_month = m + 3 - 12 * (m div 10),
         ymd_day = e - (153 * m + 2) div 5 + 1\<rparr>"
    unfolding getYearMonthDay_checked_def Let_def a_def [symmetric]
    using a0 bb b1 B(1,2) c1 D(1-3) e1 M m5 m10
    by (simp add: eqs c_def [symmetric] e_def [symmetric])
  also have "\<dots> = Some (getYearMonthDay j)"
    unfolding getYearMonthDay_def Let_def a_def [symmetric] eqs c_def [symmetric] e_def [symmetric] ..
  finally show ?thesis .
qed

lemma getYearMonthDay_checked_eq:
  assumes "fits_i32 j"
  shows "getYearMonthDay_checked j =
    (if - 536902956 \<le> j \<and> j \<le> 536838867 then Some (getYearMonthDay j) else None)"
proof -
  have "getYearMonthDay_checked j = None" if "536838867 < j \<or> j < - 536902956"
  proof (cases "fits_i32 (j + 32044)")
    case True
    show ?thesis
    proof (cases "fits_i32 (4 * (j + 32044))")
      case t: True
      with that have "\<not> fits_i32 (4 * (j + 32044) + 3)" by (auto simp: fits_i32_def)
      with True t show ?thesis unfolding getYearMonthDay_checked_def by (simp add: chk_def Let_def)
    qed (use True in \<open>simp add: getYearMonthDay_checked_def chk_def\<close>)
  next
    case False
    then show ?thesis unfolding getYearMonthDay_checked_def by (simp add: chk_def)
  qed
  then show ?thesis
    using getYearMonthDay_checked_ok [of j] getYearMonthDay_checked_before [of j] by (cases "first_jdn \<le> j") auto
qed

text \<open>The order of dates, and the last dates for which the two functions do not overflow.\<close>

definition date_upto :: "int \<times> int \<times> int \<Rightarrow> int \<times> int \<times> int \<Rightarrow> bool" where
  "date_upto x z = (case x of (y, m, d) \<Rightarrow> case z of (y', m', d') \<Rightarrow> y < y' \<or> y = y' \<and> (m < m' \<or> m = m' \<and> d \<le> d'))"

definition last_date :: "int \<times> int \<times> int" where
  "last_date = (5874689, 12, 15)"

definition last_day_date :: "int \<times> int \<times> int" where
  "last_day_date = (1465102, 10, 18)"

lemma chk_fits: "chk x = Some v \<Longrightarrow> fits_i32 v"
  by (simp add: chk_def split: if_splits)

lemma getJulianDayNumber_checked_fits: "getJulianDayNumber_checked y m d = Some j \<Longrightarrow> fits_i32 j"
  unfolding getJulianDayNumber_checked_def Let_def bind_eq_Some_conv by (elim exE conjE) (erule chk_fits)

text \<open>The largest intermediate value is the sum in front of the corrections for the centuries.\<close>

lemma getJulianDayNumber_checked_bound:
  assumes "valid_date y m d" and "jdn_range y m"
  shows "getJulianDayNumber_checked y m d =
    (let a = (if m \<le> 2 then 1 else 0); y' = y + 4800 - a; m' = m + 12 * a - 3
     in if d + (153 * m' + 2) div 5 + y' * 365 + y' div 4 < 2 ^ 31 then Some (getJulianDayNumber y m d) else None)"
proof -
  define a where "a = (14 - m) sdiv 12"
  have m: "1 \<le> m" "m \<le> 12" and d: "1 \<le> d" "d \<le> 31"
    using assms(1) month_days_bounds [of y m] by (auto simp: valid_date_def)
  have a: "a = (if m \<le> 2 then 1 else 0)"
  proof -
    have "a = (14 - m) div 12" using m unfolding a_def by (intro sdiv_nonneg) simp_all
    also have "\<dots> = (if m \<le> 2 then 1 else 0)" using m by auto
    finally show ?thesis .
  qed
  define y' where "y' = y + 4800 - a"
  define m' where "m' = m + 12 * a - 3"
  define q where "q = (153 * m' + 2) div 5"
  have y': "0 \<le> y'" using assms(2) by (auto simp: y'_def a jdn_range_def)
  have m': "0 \<le> m'" "m' \<le> 11" using m by (auto simp: m'_def a)
  have q: "0 \<le> q" "q < 338" using m' div_int_bounds [of 5 "153 * m' + 2" 338] by (simp_all add: q_def)
  have r: "- 4800 \<le> y" "0 \<le> a" "a \<le> 1" "y = y' - 4800 + a" using assms(2) by (auto simp: jdn_range_def a y'_def)
  have v: "0 \<le> y' div 4" "0 \<le> y' div 100" "0 \<le> y' div 400" "y' div 100 \<le> y' div 4" "y' div 400 \<le> y' div 100"
    using y' zdiv_mono2 [of y' 4 100] zdiv_mono2 [of y' 100 400] by simp_all
  have e: "(153 * m' + 2) sdiv 5 = q" "y' sdiv 4 = y' div 4"
    "y' sdiv 100 = y' div 100" "y' sdiv 400 = y' div 400"
    using y' m' by (simp_all add: sdiv_nonneg q_def)
  show ?thesis
  proof (cases "d + q + y' * 365 + y' div 4 < 2 ^ 31")
    case True
    have "getJulianDayNumber_checked y m d = Some (getJulianDayNumber y m d)"
      unfolding getJulianDayNumber_checked_def getJulianDayNumber_def Let_def
      using m d r True y' m' q v
      by (simp add: a_def [symmetric] y'_def [symmetric] m'_def [symmetric] e)
    with True show ?thesis unfolding Let_def a [symmetric] y'_def [symmetric] m'_def [symmetric] q_def [symmetric] by simp
  next
    case False
    have "getJulianDayNumber_checked y m d = None"
    proof (rule ccontr)
      assume "getJulianDayNumber_checked y m d \<noteq> None"
      then have "chk (d + q + y' * 365 + y' div 4) \<noteq> None"
        unfolding getJulianDayNumber_checked_def Let_def
        by (auto simp: bind_eq_Some_conv chk_def a_def [symmetric] y'_def [symmetric] m'_def [symmetric] e split: if_splits)
      with False show False by (auto simp: chk_def fits_i32_def split: if_splits)
    qed
    with False show ?thesis unfolding Let_def a [symmetric] y'_def [symmetric] m'_def [symmetric] q_def [symmetric] by simp
  qed
qed

lemma julian_sum_bound:
  assumes "0 < r" "r \<le> 368"
  shows "r + x * 365 + x div 4 < 2 ^ 31 \<longleftrightarrow> x < 5879489 \<or> x = 5879489 \<and> r \<le> (290 :: int)"
proof -
  have low: "x \<le> 5879488 \<Longrightarrow> x div 4 \<le> 1469872" using zdiv_mono1 [of x 5879488 4] by simp
  have high: "5879490 \<le> x \<Longrightarrow> 1469872 \<le> x div 4" using zdiv_mono1 [of 5879490 x 4] by simp
  consider "x \<le> 5879488" | "x = 5879489" | "5879490 \<le> x" by linarith
  then show ?thesis by cases (use low high assms in auto)
qed

lemma last_date_bound:
  assumes "valid_date y m d"
  shows "(let a = (if m \<le> 2 then 1 else 0); y' = y + 4800 - a; m' = m + 12 * a - 3
     in d + (153 * m' + 2) div 5 + y' * 365 + y' div 4 < 2 ^ 31) \<longleftrightarrow> date_upto (y, m, d) last_date"
proof -
  define a where "a = (if m \<le> 2 then 1 else 0 :: int)"
  define r where "r = d + (153 * (m + 12 * a - 3) + 2) div 5"
  have m: "m \<in> {1, 2, 3, 4, 5, 6, 7, 8, 9, 10, 11, 12}"
    using assms unfolding valid_date_def insert_iff empty_iff by arith
  moreover have d: "1 \<le> d" "d \<le> 31" using assms month_days_bounds [of y m] by (auto simp: valid_date_def)
  ultimately have "0 < r" "r \<le> 368" by (auto simp: r_def a_def)
  then have "r + (y + 4800 - a) * 365 + (y + 4800 - a) div 4 < 2 ^ 31
      \<longleftrightarrow> y + 4800 - a < 5879489 \<or> y + 4800 - a = 5879489 \<and> r \<le> 290" by (rule julian_sum_bound)
  also have "\<dots> \<longleftrightarrow> date_upto (y, m, d) last_date"
    using m d by (auto simp: r_def a_def date_upto_def last_date_def)
  finally show ?thesis by (simp add: Let_def a_def r_def)
qed

lemma getJulianDayNumber_checked_eq:
  assumes "valid_date y m d" and "jdn_range y m"
  shows "getJulianDayNumber_checked y m d = (if date_upto (y, m, d) last_date then Some (getJulianDayNumber y m d) else None)"
  using getJulianDayNumber_checked_bound [OF assms] last_date_bound [OF assms(1)] by (simp add: Let_def)

subsection \<open>Properties\<close>

text \<open>The order of dates is the order of their day numbers.\<close>

lemma day_number_upto:
  assumes "valid_date y m d" and "valid_date y' m' d'"
  shows "day_number y m d \<le> day_number y' m' d' \<longleftrightarrow> date_upto (y, m, d) (y', m', d')"
proof -
  have less: "day_number y m d \<le> day_number y' m' d'"
    if v: "valid_date y m d" "valid_date y' m' d'" and u: "date_upto (y, m, d) (y', m', d')" for y m d y' m' d'
  proof (cases "y < y'")
    case True
    then show ?thesis
      using day_number_year_bounds(2) [OF v(1)] day_number_year_bounds(1) [OF v(2)] days_before_year_less [of y y'] by linarith
  next
    case False
    then have "y = y'" "m < m' \<or> m = m' \<and> d \<le> d'" using u by (auto simp: date_upto_def)
    then show ?thesis
      using days_before_month_less [of m m' y] v by (auto simp: day_number_def valid_date_def)
  qed
  show ?thesis
  proof
    assume le: "day_number y m d \<le> day_number y' m' d'"
    show "date_upto (y, m, d) (y', m', d')"
    proof (rule ccontr)
      assume "\<not> ?thesis"
      then have u: "date_upto (y', m', d') (y, m, d)" "(y, m, d) \<noteq> (y', m', d')" by (auto simp: date_upto_def)
      from less [OF assms(2,1) u(1)] le day_number_inj [OF assms] u(2) show False by auto
    qed
  qed (rule less [OF assms])
qed

lemma kJulianDayOf1970_01_01_value: "kJulianDayOf1970_01_01 = 2440588"
  by (simp add: kJulianDayOf1970_01_01_def getJulianDayNumber_def Let_def sdiv_nonneg)

lemma jdn_range_next: "valid_date y m d \<Longrightarrow> jdn_range y m \<Longrightarrow> next_day (y, m, d) = (y', m', d') \<Longrightarrow> valid_date y' m' d' \<and> jdn_range y' m'"
  using day_number_next_day [of y m d] by (auto simp: jdn_range_def split: prod.splits if_splits)

text \<open>
  C29: \<open>getJulianDayNumber\<close> counts days.  For every date of the proleptic Gregorian calendar from
  1 March -4800 to 15 December 5874689, the last one for which the \<open>int\<close> arithmetic does not overflow, its value is
  the number of days since 1970-01-01 (by counting leap years and month lengths) plus the constant
  of the class, and the next day of the calendar gets the next number, if it is still in this range.
\<close>

theorem getJulianDayNumber_counts_days:
  assumes "valid_date y m d" and "jdn_range y m" and "date_upto (y, m, d) last_date"
  shows "getJulianDayNumber_checked y m d = Some (kJulianDayOf1970_01_01 + day_number y m d)
     \<and> (case next_day (y, m, d) of (y', m', d') \<Rightarrow>
          getJulianDayNumber_checked y' m' d' =
            (if (y, m, d) = last_date then None else Some (kJulianDayOf1970_01_01 + day_number y m d + 1)))"
proof -
  obtain y' m' d' where n: "next_day (y, m, d) = (y', m', d')" by (cases "next_day (y, m, d)") auto
  then have v': "valid_date y' m' d'" "jdn_range y' m'" using jdn_range_next [OF assms(1,2)] by auto
  have dn: "day_number y' m' d' = day_number y m d + 1" using day_number_next_day [OF assms(1)] n by simp
  obtain Y M D where l: "last_date = (Y, M, D)" "valid_date Y M D"
    by (auto simp: last_date_def valid_date_def month_days_def)
  have "day_number y m d \<le> day_number Y M D" using day_number_upto [OF assms(1) l(2)] assms(3) l(1) by simp
  moreover have "day_number y m d = day_number Y M D \<longleftrightarrow> (y, m, d) = last_date"
    unfolding l(1) using day_number_inj [OF assms(1) l(2)] by auto
  ultimately have "date_upto (y', m', d') last_date \<longleftrightarrow> (y, m, d) \<noteq> last_date"
    using day_number_upto [OF v'(1) l(2)] dn l(1) by auto
  then show ?thesis
    using getJulianDayNumber_checked_eq [OF assms(1,2)] getJulianDayNumber_checked_eq [OF v'] assms(3) n dn
      getJulianDayNumber_correct [OF assms(1,2)] getJulianDayNumber_correct [OF v']
    by (simp add: kJulianDayOf1970_01_01_value)
qed

theorem getJulianDayNumber_counts_days_witness:
  "getJulianDayNumber_checked 2000 2 29 = Some (kJulianDayOf1970_01_01 + day_number 2000 2 29)
   \<and> getJulianDayNumber_checked 2000 3 1 = Some (kJulianDayOf1970_01_01 + day_number 2000 2 29 + 1)"
  using getJulianDayNumber_counts_days [of 2000 2 29]
  by (simp add: valid_date_def month_days_def leap_year_def jdn_range_def date_upto_def last_date_def)

lemma getJulianDayNumber_first:
  assumes "valid_date y m d" and "jdn_range y m"
  shows "first_jdn \<le> getJulianDayNumber y m d"
proof -
  have "day_number y m d \<ge> day_number (- 4800) 3 1"
  proof (cases "y = - 4800")
    case True
    with assms show ?thesis
      using days_before_month_less [of 3 m y] month_days_bounds [of y 3]
      by (cases "m = 3") (auto simp: day_number_def jdn_range_def valid_date_def)
  next
    case False
    with assms(2) have "- 4800 < y" by (auto simp: jdn_range_def)
    then have "day_number (- 4800) 3 1 < day_number y m d"
      using day_number_year_bounds(2) [of "- 4800" 3 1] day_number_year_bounds(1) [OF assms(1)]
        days_before_year_less [of "- 4800" y]
      by (simp add: valid_date_def month_days_def)
    then show ?thesis by simp
  qed
  moreover have "day_number (- 4800) 3 1 = - 2472632"
    by (simp add: day_number_def days_before_year_def days_before_month_table leap_year_def)
  ultimately show ?thesis
    using getJulianDayNumber_correct [OF assms] by (simp add: first_jdn_def)
qed

lemma getYearMonthDay_of_valid:
  assumes "valid_date y m d" and "jdn_range y m"
  shows "getYearMonthDay (getJulianDayNumber y m d) = \<lparr>ymd_year = y, ymd_month = m, ymd_day = d\<rparr>"
proof -
  let ?j = "getJulianDayNumber y m d"
  note j = getJulianDayNumber_first [OF assms]
  obtain y' m' d' where g: "getYearMonthDay ?j = \<lparr>ymd_year = y', ymd_month = m', ymd_day = d'\<rparr>"
    by (cases "getYearMonthDay ?j") auto
  from getYearMonthDay_correct [OF j g]
  have v': "valid_date y' m' d'" "jdn_range y' m'" "getJulianDayNumber y' m' d' = ?j" by auto
  then have "day_number y' m' d' = day_number y m d"
    using getJulianDayNumber_correct [OF assms] getJulianDayNumber_correct [OF v'(1,2)] by simp
  with day_number_inj [OF v'(1) assms(1)] g show ?thesis by simp
qed

text \<open>
  C30: Round trip from dates: converting a valid date to its Julian day number and back gives the
  same year, month and day, exactly up to 18 October 1465102; the day numbers of later dates make the \<open>int\<close> arithmetic
  of \<open>getYearMonthDay\<close> overflow, or that of \<open>getJulianDayNumber\<close> already does.
\<close>

theorem ymd_jdn_ymd:
  assumes "valid_date y m d" and "jdn_range y m"
  shows "Option.bind (getJulianDayNumber_checked y m d) getYearMonthDay_checked =
    (if date_upto (y, m, d) last_day_date then Some \<lparr>ymd_year = y, ymd_month = m, ymd_day = d\<rparr> else None)"
proof -
  let ?j = "getJulianDayNumber y m d"
  obtain Y M D where l: "last_day_date = (Y, M, D)" "valid_date Y M D" "day_number Y M D = 534398279"
    by (auto simp: last_day_date_def valid_date_def month_days_def day_number_def days_before_year_def days_before_month_table leap_year_def)
  have j: "?j \<le> 536838867 \<longleftrightarrow> date_upto (y, m, d) last_day_date"
    using day_number_upto [OF assms(1) l(2)] getJulianDayNumber_correct [OF assms] l(1,3) by simp
  have f: "first_jdn \<le> ?j" by (rule getJulianDayNumber_first [OF assms])
  show ?thesis
  proof (cases "date_upto (y, m, d) last_date")
    case True
    then have "getJulianDayNumber_checked y m d = Some ?j" using getJulianDayNumber_checked_eq [OF assms] by simp
    moreover have "fits_i32 ?j" by (rule getJulianDayNumber_checked_fits [OF calculation])
    moreover have "- 536902956 \<le> ?j" using f by (simp add: first_jdn_def)
    ultimately show ?thesis using getYearMonthDay_checked_eq [of ?j] j getYearMonthDay_of_valid [OF assms] by simp
  next
    case False
    then have "\<not> date_upto (y, m, d) last_day_date" by (auto simp: date_upto_def last_date_def last_day_date_def)
    with False show ?thesis using getJulianDayNumber_checked_eq [OF assms] by simp
  qed
qed

theorem ymd_jdn_ymd_witness:
  "Option.bind (getJulianDayNumber_checked 1900 2 28) getYearMonthDay_checked = Some \<lparr>ymd_year = 1900, ymd_month = 2, ymd_day = 28\<rparr>"
  using ymd_jdn_ymd [of 1900 2 28]
  by (simp add: valid_date_def month_days_def leap_year_def jdn_range_def date_upto_def last_day_date_def)

text \<open>
  Round trip from day numbers: from day -32044 on, \<open>getYearMonthDay\<close> yields a date that exists
  in the calendar and whose Julian day number is the one it came from.
\<close>

theorem jdn_ymd_jdn:
  assumes "first_jdn \<le> j"
  shows "let g = getYearMonthDay j in
     valid_date (ymd_year g) (ymd_month g) (ymd_day g)
     \<and> getJulianDayNumber (ymd_year g) (ymd_month g) (ymd_day g) = j"
proof -
  obtain y m d where g: "getYearMonthDay j = \<lparr>ymd_year = y, ymd_month = m, ymd_day = d\<rparr>"
    by (cases "getYearMonthDay j") auto
  from getYearMonthDay_correct [OF assms g] g show ?thesis by simp
qed

theorem jdn_ymd_jdn_witness:
  "let g = getYearMonthDay 2451605 in valid_date (ymd_year g) (ymd_month g) (ymd_day g)
     \<and> getJulianDayNumber (ymd_year g) (ymd_month g) (ymd_day g) = 2451605"
  using jdn_ymd_jdn [of 2451605] by (simp add: first_jdn_def)

text \<open>
  C31: Where the \<open>int\<close> arithmetic overflows, exactly.  On the values of \<open>int\<close>, \<open>getYearMonthDay\<close> evaluates without
  overflow precisely from day -536902956 to day 536838867, and on the dates from 1 March -4800 on,
  \<open>getJulianDayNumber\<close> precisely up to 15 December 5874689; the result is then the value of the
  formula on unbounded integers.
\<close>

theorem date_no_overflow:
  assumes "fits_i32 j" and "valid_date y m d" and "jdn_range y m"
  shows "getYearMonthDay_checked j = (if - 536902956 \<le> j \<and> j \<le> 536838867 then Some (getYearMonthDay j) else None)
     \<and> getJulianDayNumber_checked y m d = (if date_upto (y, m, d) last_date then Some (getJulianDayNumber y m d) else None)"
  using getYearMonthDay_checked_eq [OF assms(1)] getJulianDayNumber_checked_eq [OF assms(2,3)] by simp

theorem date_no_overflow_witness:
  "getYearMonthDay_checked 536838868 = None
   \<and> getJulianDayNumber_checked 2021 5 14 = Some (getJulianDayNumber 2021 5 14)"
  using date_no_overflow [of 536838868 2021 5 14]
  by (simp add: fits_i32_def valid_date_def month_days_def jdn_range_def date_upto_def last_date_def)

text \<open>
  The day of the week.  For every valid date whose Julian day number is at least -1, \<open>weekDay\<close>
  is the day of the week of that date counted from the Thursday 1970-01-01 (0 is Sunday).
\<close>

theorem weekDay_correct:
  assumes "valid_date y m d" and "jdn_range y m" and "- 1 \<le> getJulianDayNumber y m d"
  shows "Date_weekDay (Date_ofYMD y m d) = (day_number y m d + 4) mod 7"
proof -
  have "Date_weekDay (Date_ofYMD y m d) = (getJulianDayNumber y m d + 1) mod 7"
    using assms(3) by (simp add: Date_weekDay_def Date_ofYMD_def kDaysPerWeek_def smod_nonneg)
  also have "getJulianDayNumber y m d + 1 = day_number y m d + 4 + 7 * 348655"
    using getJulianDayNumber_correct [OF assms(1,2)] by simp
  also have "\<dots> mod 7 = (day_number y m d + 4) mod 7" by (rule mod_mult_self2)
  finally show ?thesis .
qed

theorem weekDay_correct_witness: "Date_weekDay (Date_ofYMD 1970 1 1) = 4"
proof -
  have j: "valid_date 1970 1 1" "jdn_range 1970 1" by (simp_all add: valid_date_def month_days_def jdn_range_def)
  have "day_number 1970 1 1 = 0" by (simp add: day_number_def)
  with j getJulianDayNumber_correct [OF j] weekDay_correct [OF j] show ?thesis by simp
qed

end
