(* ===== verification/StringPiece.thy ===== *)
theory StringPiece
  imports Prelude
begin

text \<open>String arguments (StringPiece.h): \<open>StringArg\<close>, which only passes a C string on, and
  \<open>StringPiece\<close>, a pointer into somebody else's bytes with a length.

  The pointer is an object (\<open>None\<close> for the null pointer) and an offset into it; the length is the
  \<open>int\<close> of the class and may be anything, since nothing in the class checks it.  The lemmas say that
  the comparison operators are the lexicographic order on the bytes, and that \<open>compare\<close> is not.\<close>

section \<open>The classes\<close>

definition StringArg_of_string :: "bytes \<Rightarrow> bytes" where
  "StringArg_of_string s = c_string s"

definition StringArg_of_pointer :: "bytes \<Rightarrow> bytes" where
  "StringArg_of_pointer mem = mem"

definition StringArg_c_str :: "bytes \<Rightarrow> bytes" where
  "StringArg_c_str str = str"

record StringPiece =
  sp_object :: "bytes option"
  sp_offset :: int
  sp_length :: int

definition wrap32 :: "int \<Rightarrow> int" where
  "wrap32 i = (i + 2 ^ 31) mod 2 ^ 32 - 2 ^ 31"

definition StringPiece_empty :: StringPiece where
  "StringPiece_empty = \<lparr>sp_object = None, sp_offset = 0, sp_length = 0\<rparr>"

definition StringPiece_of_pointer :: "bytes \<Rightarrow> StringPiece option" where
  "StringPiece_of_pointer mem =
     map_option (\<lambda>n. \<lparr>sp_object = Some mem, sp_offset = 0, sp_length = wrap32 (int n)\<rparr>) (c_strlen mem)"

definition StringPiece_of_string :: "bytes \<Rightarrow> StringPiece option" where
  "StringPiece_of_string s = StringPiece_of_pointer (c_string s)"

definition StringPiece_of_range :: "bytes \<Rightarrow> int \<Rightarrow> int \<Rightarrow> StringPiece" where
  "StringPiece_of_range object offset len =
     \<lparr>sp_object = Some object, sp_offset = offset, sp_length = len\<rparr>"

definition sp_size :: "StringPiece \<Rightarrow> int" where
  "sp_size p = sp_length p"

definition sp_empty :: "StringPiece \<Rightarrow> bool" where
  "sp_empty p \<longleftrightarrow> sp_length p = 0"

definition sp_begin :: "StringPiece \<Rightarrow> int" where
  "sp_begin p = sp_offset p"

definition sp_end :: "StringPiece \<Rightarrow> int" where
  "sp_end p = sp_offset p + sp_length p"

definition sp_clear :: "StringPiece \<Rightarrow> StringPiece" where
  "sp_clear p = StringPiece_empty"

definition sp_set_range :: "bytes \<Rightarrow> int \<Rightarrow> int \<Rightarrow> StringPiece \<Rightarrow> StringPiece" where
  "sp_set_range object offset len p =
     p\<lparr>sp_object := Some object, sp_offset := offset, sp_length := len\<rparr>"

definition sp_set_pointer :: "bytes \<Rightarrow> StringPiece \<Rightarrow> StringPiece option" where
  "sp_set_pointer mem p =
     map_option (\<lambda>n. p\<lparr>sp_object := Some mem, sp_offset := 0, sp_length := wrap32 (int n)\<rparr>) (c_strlen mem)"

definition sp_set_void :: "bytes \<Rightarrow> int \<Rightarrow> int \<Rightarrow> StringPiece \<Rightarrow> StringPiece" where
  "sp_set_void object offset len p =
     p\<lparr>sp_object := Some object, sp_offset := offset, sp_length := len\<rparr>"

definition sp_remove_prefix :: "int \<Rightarrow> StringPiece \<Rightarrow> StringPiece" where
  "sp_remove_prefix n p = p\<lparr>sp_offset := sp_offset p + n, sp_length := sp_length p - n\<rparr>"

definition sp_remove_suffix :: "int \<Rightarrow> StringPiece \<Rightarrow> StringPiece" where
  "sp_remove_suffix n p = p\<lparr>sp_length := sp_length p - n\<rparr>"

text \<open>The \<open>n\<close> bytes from the pointer on, when they lie inside the object.  Asking for no byte is
  fine everywhere; a negative count, which becomes a huge \<open>size_t\<close>, is not.\<close>

definition sp_read :: "StringPiece \<Rightarrow> int \<Rightarrow> bytes option" where
  "sp_read p n =
     (if n = 0 then Some []
      else case sp_object p of
        None \<Rightarrow> None
      | Some obj \<Rightarrow> if 0 < n \<and> 0 \<le> sp_offset p \<and> sp_offset p + n \<le> int (length obj)
                    then Some (take (nat n) (drop (nat (sp_offset p)) obj)) else None)"

definition sp_index :: "StringPiece \<Rightarrow> int \<Rightarrow> char option" where
  "sp_index p i = map_option hd (sp_read (sp_remove_prefix i p) 1)"

definition sp_as_string :: "StringPiece \<Rightarrow> bytes option" where
  "sp_as_string p = sp_read p (sp_length p)"

text \<open>\<open>memcmp\<close> on two blocks of the same size: the sign its first difference has, with bytes taken as
  unsigned.\<close>

fun memcmp_bytes :: "bytes \<Rightarrow> bytes \<Rightarrow> int" where
  "memcmp_bytes (a # as) (b # bs) =
     (if a = b then memcmp_bytes as bs else if a < b then -1 else 1)"
| "memcmp_bytes _ _ = 0"

definition sp_memcmp :: "StringPiece \<Rightarrow> StringPiece \<Rightarrow> int \<Rightarrow> int option" where
  "sp_memcmp p q n = do { a \<leftarrow> sp_read p n; b \<leftarrow> sp_read q n; Some (memcmp_bytes a b) }"

definition sp_eq :: "StringPiece \<Rightarrow> StringPiece \<Rightarrow> bool option" where
  "sp_eq p s =
     (if sp_length p = sp_length s
      then map_option (\<lambda>r. r = 0) (sp_memcmp p s (sp_length p)) else Some False)"

definition sp_neq :: "StringPiece \<Rightarrow> StringPiece \<Rightarrow> bool option" where
  "sp_neq p s = map_option Not (sp_eq p s)"

text \<open>The macro that defines the four comparison operators.\<close>

definition STRINGPIECE_BINARY_PREDICATE ::
  "(int \<Rightarrow> int \<Rightarrow> bool) \<Rightarrow> (int \<Rightarrow> int \<Rightarrow> bool) \<Rightarrow> StringPiece \<Rightarrow> StringPiece \<Rightarrow> bool option" where
  "STRINGPIECE_BINARY_PREDICATE cmp auxcmp p x =
     map_option (\<lambda>r. auxcmp r 0 \<or> (r = 0 \<and> cmp (sp_length p) (sp_length x)))
       (sp_memcmp p x (if sp_length p < sp_length x then sp_length p else sp_length x))"

definition sp_less :: "StringPiece \<Rightarrow> StringPiece \<Rightarrow> bool option" where
  "sp_less = STRINGPIECE_BINARY_PREDICATE (<) (<)"

definition sp_less_eq :: "StringPiece \<Rightarrow> StringPiece \<Rightarrow> bool option" where
  "sp_less_eq = STRINGPIECE_BINARY_PREDICATE (\<le>) (<)"

definition sp_greater_eq :: "StringPiece \<Rightarrow> StringPiece \<Rightarrow> bool option" where
  "sp_greater_eq = STRINGPIECE_BINARY_PREDICATE (\<ge>) (>)"

definition sp_greater :: "StringPiece \<Rightarrow> StringPiece \<Rightarrow> bool option" where
  "sp_greater = STRINGPIECE_BINARY_PREDICATE (>) (>)"

definition sp_compare :: "StringPiece \<Rightarrow> StringPiece \<Rightarrow> int option" where
  "sp_compare p s =
     map_option (\<lambda>r. if r = 0 then (if sp_length p < sp_length s then -1 else 1) else r)
       (sp_memcmp p s (if sp_length p < sp_length s then sp_length p else sp_length s))"

section \<open>Facts\<close>

lemma wrap32_id [simp]: "- (2 ^ 31) \<le> i \<Longrightarrow> i < 2 ^ 31 \<Longrightarrow> wrap32 i = i"
  by (simp add: wrap32_def)

text \<open>\<open>sp_denotes p s\<close>: the piece lies inside its object and its bytes are \<open>s\<close>.\<close>

definition sp_denotes :: "StringPiece \<Rightarrow> bytes \<Rightarrow> bool" where
  "sp_denotes p s \<longleftrightarrow> sp_length p = int (length s) \<and> sp_read p (sp_length p) = Some s"

lemma sp_read_shorter:
  assumes "sp_read p (int n) = Some s" "m \<le> n"
  shows "sp_read p (int m) = Some (take m s)"
  using assms by (auto simp: sp_read_def min_def split: if_splits option.splits)

lemma sp_denotes_read:
  assumes "sp_denotes p s" "m \<le> length s"
  shows "sp_read p (int m) = Some (take m s)"
  using sp_read_shorter[of p "length s" s m] assms unfolding sp_denotes_def by metis

lemma memcmp_bytes_take:
  "memcmp_bytes (take (min (length a) (length b)) a) (take (min (length a) (length b)) b) = memcmp_bytes a b"
  by (induction a b rule: memcmp_bytes.induct) auto

lemma Nil_less_bytes [simp]: "[] < (s :: bytes) \<longleftrightarrow> s \<noteq> []"
  by (cases s) auto

lemma memcmp_bytes_order:
  shows memcmp_less: "memcmp_bytes a b < 0 \<or> memcmp_bytes a b = 0 \<and> length a < length b \<longleftrightarrow> a < b"
    and memcmp_le: "memcmp_bytes a b < 0 \<or> memcmp_bytes a b = 0 \<and> length a \<le> length b \<longleftrightarrow> a \<le> b"
    and memcmp_gr: "memcmp_bytes a b > 0 \<or> memcmp_bytes a b = 0 \<and> length a > length b \<longleftrightarrow> a > b"
    and memcmp_ge: "memcmp_bytes a b > 0 \<or> memcmp_bytes a b = 0 \<and> length a \<ge> length b \<longleftrightarrow> a \<ge> b"
  by (induction a b rule: memcmp_bytes.induct) auto

lemma memcmp_bytes_eq: "length a = length b \<Longrightarrow> memcmp_bytes a b = 0 \<longleftrightarrow> a = b"
  by (induction a b rule: memcmp_bytes.induct) auto

lemma sp_memcmp_denotes:
  assumes "sp_denotes p a" "sp_denotes q b"
  shows "sp_memcmp p q (if sp_length p < sp_length q then sp_length p else sp_length q)
    = Some (memcmp_bytes a b)"
proof -
  have "(if sp_length p < sp_length q then sp_length p else sp_length q) = int (min (length a) (length b))"
    using assms by (simp add: sp_denotes_def)
  then show ?thesis
    using sp_denotes_read[OF assms(1), of "min (length a) (length b)"]
      sp_denotes_read[OF assms(2), of "min (length a) (length b)"]
    by (simp add: sp_memcmp_def memcmp_bytes_take)
qed

text \<open>On pieces that lie inside their objects the six comparison operators compute equality and the
  lexicographic order of the byte strings (bytes as unsigned), wherever the two pieces point.\<close>

theorem StringPiece_order:
  assumes "sp_denotes p a" "sp_denotes q b"
  shows "sp_eq p q = Some (a = b) \<and> sp_neq p q = Some (a \<noteq> b)
    \<and> sp_less p q = Some (a < b) \<and> sp_less_eq p q = Some (a \<le> b)
    \<and> sp_greater p q = Some (a > b) \<and> sp_greater_eq p q = Some (a \<ge> b)"
proof -
  have len: "sp_length p = int (length a)" "sp_length q = int (length b)"
    using assms by (auto simp: sp_denotes_def)
  note m = sp_memcmp_denotes[OF assms]
  have eq: "sp_eq p q = Some (a = b)"
    using assms by (auto simp: sp_eq_def sp_memcmp_def sp_denotes_def memcmp_bytes_eq)
  then have "sp_neq p q = Some (a \<noteq> b)" by (simp add: sp_neq_def)
  moreover have "sp_less p q = Some (a < b)" "sp_less_eq p q = Some (a \<le> b)"
    "sp_greater p q = Some (a > b)" "sp_greater_eq p q = Some (a \<ge> b)"
    unfolding sp_less_def sp_less_eq_def sp_greater_def sp_greater_eq_def
      STRINGPIECE_BINARY_PREDICATE_def m
    using memcmp_less[of a b] memcmp_le[of a b] memcmp_gr[of a b] memcmp_ge[of a b] by (simp_all add: len)
  ultimately show ?thesis using eq by simp
qed

theorem StringPiece_order_witness:
  "sp_less (StringPiece_of_range ''xlog.h'' 1 3) (StringPiece_of_range ''logs'' 0 4) = Some True
   \<and> sp_eq (StringPiece_of_range ''xlog.h'' 1 3) (StringPiece_of_range ''logs'' 0 4) = Some False"
  using StringPiece_order[of "StringPiece_of_range ''xlog.h'' 1 3" "''log''"
      "StringPiece_of_range ''logs'' 0 4" "''logs''"]
  by (simp add: sp_denotes_def sp_read_def StringPiece_of_range_def)

text \<open>\<open>compare\<close> agrees in sign with that order on different strings, but it answers 1, "greater", for
  equal ones.\<close>

theorem StringPiece_compare_sign:
  assumes "sp_denotes p a" "sp_denotes q b"
  shows "\<exists>r. sp_compare p q = Some r \<and> (r < 0 \<longleftrightarrow> a < b) \<and> (0 < r \<longleftrightarrow> b \<le> a) \<and> (a = b \<longrightarrow> r = 1)"
proof -
  have len: "sp_length p = int (length a)" "sp_length q = int (length b)"
    using assms by (auto simp: sp_denotes_def)
  show ?thesis
    unfolding sp_compare_def sp_memcmp_denotes[OF assms]
    using memcmp_bytes_eq[of a b] memcmp_less[of a b] memcmp_ge[of a b] by (auto simp: len)
qed

theorem StringPiece_compare_sign_witness:
  "sp_compare (StringPiece_of_range ''log'' 0 3) (StringPiece_of_range ''a log'' 2 3) = Some 1"
  using StringPiece_compare_sign[of "StringPiece_of_range ''log'' 0 3" "''log''"
      "StringPiece_of_range ''a log'' 2 3" "''log''"]
  by (auto simp: sp_denotes_def sp_read_def StringPiece_of_range_def)

text \<open>Constructors and views: a \<open>std::string\<close> is taken up to its first NUL only, and removing a
  prefix and a suffix that fit leaves the bytes between them.\<close>

lemma StringPiece_of_string_denotes:
  assumes "NUL \<notin> set s" "length s < 2 ^ 31"
  obtains p where "StringPiece_of_string s = Some p" "sp_denotes p s"
  using assms
  by (auto simp: StringPiece_of_string_def StringPiece_of_pointer_def sp_denotes_def sp_read_def c_string_def
      c_strlen_append_NUL)

lemma StringPiece_of_string_cut:
  assumes "NUL \<notin> set s" "length s < 2 ^ 31"
  obtains p where "StringPiece_of_string (s @ NUL # t) = Some p" "sp_denotes p s"
  using assms
  by (auto simp: StringPiece_of_string_def StringPiece_of_pointer_def sp_denotes_def sp_read_def c_string_def
      c_strlen_append_NUL)

lemma sp_denotes_cut:
  assumes "sp_denotes p s" "i + j \<le> length s" "sp_object p \<noteq> None"
  shows "sp_denotes (sp_remove_suffix (int j) (sp_remove_prefix (int i) p))
    (take (length s - i - j) (drop i s))"
  using assms
  by (auto simp: sp_denotes_def sp_read_def sp_remove_suffix_def sp_remove_prefix_def nat_add_distrib
      nat_diff_distrib drop_drop drop_take add.commute split: option.splits if_splits)

end
