(* ===== verification/TimeZone.thy ===== *)
theory TimeZone
  imports Date StringPiece
begin

text \<open>Time zones (TimeZone.h, TimeZone.cc): the reader of zone files, the search for the local time type
  in force, and the conversions between seconds, UTC fields and local fields.

  A zone is \<open>None\<close> without data.  Operations are \<open>None\<close> where the code reads outside a vector or an
  assertion fails.  The C library's \<open>gmtime_r\<close> and \<open>timegm\<close> are those of the theory Calendar, against
  which the code's own \<open>toUtcTime\<close> and \<open>fromUtcTime\<close> are proved.\<close>

section \<open>Data\<close>

record Transition =
  gmttime :: int
  localtime :: int
  localtimeIdx :: int

record Localtime =
  gmtOffset :: int
  isDst :: bool
  arrbIdx :: int

record Data =
  transitions :: "Transition list"
  localtimes :: "Localtime list"
  names :: "bytes list"
  tz_abbreviation :: bytes

definition Data_empty :: Data where
  "Data_empty = \<lparr>transitions = [], localtimes = [], names = [], tz_abbreviation = []\<rparr>"

definition Comp_less :: "bool \<Rightarrow> Transition \<Rightarrow> Transition \<Rightarrow> bool" where
  "Comp_less compareGmt lhs rhs =
     (if compareGmt then gmttime lhs < gmttime rhs else localtime lhs < localtime rhs)"

definition Comp_equal :: "bool \<Rightarrow> Transition \<Rightarrow> Transition \<Rightarrow> bool" where
  "Comp_equal compareGmt lhs rhs =
     (if compareGmt then gmttime lhs = gmttime rhs else localtime lhs = localtime rhs)"

definition kSecondsPerDay :: int where
  "kSecondsPerDay = 24 * 60 * 60"

definition fillHMS :: "int \<Rightarrow> tm \<Rightarrow> tm" where
  "fillHMS seconds utc =
     (let minutes = seconds div 60
      in utc\<lparr>tm_sec := seconds mod 60, tm_min := minutes mod 60, tm_hour := minutes div 60\<rparr>)"

section \<open>The zone file\<close>

text \<open>Reading from the open file: the bytes not yet read; \<open>Inl\<close> is the \<open>logic_error\<close> thrown.\<close>

type_synonym 'a reader = "bytes \<Rightarrow> string + ('a \<times> bytes)"

definition readBytes :: "nat \<Rightarrow> bytes reader" where
  "readBytes n f = (if n \<le> length f then Inr (take n f, drop n f) else Inl ''no enough data'')"

definition be_value :: "bytes \<Rightarrow> int" where
  "be_value bs = foldl (\<lambda>a c. 256 * a + of_char c) 0 bs"

definition readInt32 :: "int reader" where
  "readInt32 f = (if 4 \<le> length f then Inr (wrap32 (be_value (take 4 f)), drop 4 f) else Inl ''bad int32_t data'')"

definition readUInt8 :: "int reader" where
  "readUInt8 f = (case f of c # r \<Rightarrow> Inr (of_char c, r) | [] \<Rightarrow> Inl ''bad uint8_t data'')"

fun read_n :: "nat \<Rightarrow> 'a reader \<Rightarrow> 'a list reader" where
  "read_n 0 rd f = Inr ([], f)"
| "read_n (Suc n) rd f =
     (case rd f of
        Inl e \<Rightarrow> Inl e
      | Inr (x, f1) \<Rightarrow> (case read_n n rd f1 of Inl e \<Rightarrow> Inl e | Inr (xs, f2) \<Rightarrow> Inr (x # xs, f2)))"

text \<open>The loop over the local time types; what it has pushed stays in \<open>data\<close> when a read throws.\<close>

fun read_types :: "nat \<Rightarrow> bytes \<Rightarrow> Localtime list \<Rightarrow> Localtime list \<times> (string + bytes)" where
  "read_types 0 f acc = (acc, Inr f)"
| "read_types (Suc n) f acc =
     (case readInt32 f of
        Inl e \<Rightarrow> (acc, Inl e)
      | Inr (gmtoff, f1) \<Rightarrow>
          (case readUInt8 f1 of
             Inl e \<Rightarrow> (acc, Inl e)
           | Inr (isdst, f2) \<Rightarrow>
               (case readUInt8 f2 of
                  Inl e \<Rightarrow> (acc, Inl e)
                | Inr (abbrind, f3) \<Rightarrow>
                    read_types n f3 (acc @ [\<lparr>gmtOffset = gmtoff, isDst = (isdst \<noteq> 0), arrbIdx = abbrind\<rparr>]))))"

definition nth_opt :: "'a list \<Rightarrow> int \<Rightarrow> 'a option" where
  "nth_opt xs i = (if 0 \<le> i \<and> i < int (length xs) then Some (xs ! nat i) else None)"

text \<open>The loop that pairs transition times and type indices; an index outside the types is undefined
  behaviour.\<close>

fun make_transitions :: "Localtime list \<Rightarrow> (int \<times> int) list \<Rightarrow> Transition list option" where
  "make_transitions lts [] = Some []"
| "make_transitions lts ((t, localIdx) # ps) =
     (case nth_opt lts localIdx of
        None \<Rightarrow> None
      | Some l \<Rightarrow> map_option (\<lambda>ts. \<lparr>gmttime = t, localtime = t + gmtOffset l, localtimeIdx = localIdx\<rparr> # ts)
                    (make_transitions lts ps))"

text \<open>The body of the \<open>try\<close> block.  The header is magic, version, 15 unused bytes and six counts.  The result
  is the data and the message of the exception, if one was thrown; it is \<open>None\<close> for undefined behaviour (a
  type index out of range, an array of negative size).\<close>

definition read_header :: "(int \<times> int \<times> int) reader" where
  "read_header f =
     (case readBytes 4 f of Inl e \<Rightarrow> Inl e | Inr (head, f1) \<Rightarrow>
      if head \<noteq> ''TZif'' then Inl ''bad head'' else
      case readBytes 1 f1 of Inl e \<Rightarrow> Inl e | Inr (version, f2) \<Rightarrow>
      case readBytes 15 f2 of Inl e \<Rightarrow> Inl e | Inr (unused, f3) \<Rightarrow>
      case read_n 6 readInt32 f3 of Inl e \<Rightarrow> Inl e | Inr (counts, f4) \<Rightarrow>
      if counts ! 3 < 0 then Inl ''vector::reserve'' else
      Inr ((counts ! 3, counts ! 4, counts ! 5), f4))"

definition read_times :: "int \<Rightarrow> (int list \<times> int list) reader" where
  "read_times timecnt f =
     (case read_n (nat timecnt) readInt32 f of Inl e \<Rightarrow> Inl e | Inr (trs, f1) \<Rightarrow>
      case read_n (nat timecnt) readUInt8 f1 of Inl e \<Rightarrow> Inl e | Inr (idxs, f2) \<Rightarrow> Inr ((trs, idxs), f2))"

definition read_zone :: "bytes \<Rightarrow> Data \<Rightarrow> (Data \<times> string option) option" where
  "read_zone file data =
     (case read_header file of
        Inl e \<Rightarrow> Some (data, Some e)
      | Inr ((timecnt, typecnt, charcnt), f1) \<Rightarrow>
      case read_times timecnt f1 of
        Inl e \<Rightarrow> Some (data, Some e)
      | Inr ((trs, idxs), f2) \<Rightarrow>
      case read_types (nat typecnt) f2 (localtimes data) of
        (lts, Inl e) \<Rightarrow> Some (data\<lparr>localtimes := lts\<rparr>, Some e)
      | (lts, Inr f3) \<Rightarrow>
      case make_transitions lts (zip trs idxs) of
        None \<Rightarrow> None
      | Some ts \<Rightarrow>
      let data' = data\<lparr>localtimes := lts, transitions := transitions data @ ts\<rparr> in
      if charcnt < 0 then None else
      case readBytes (nat charcnt) f3 of
        Inl e \<Rightarrow> Some (data', Some e)
      | Inr (abbrev, f4) \<Rightarrow> Some (data'\<lparr>tz_abbreviation := abbrev\<rparr>, None))"

text \<open>\<open>readTimeZoneFile\<close> on the content of the file, \<open>None\<close> if it cannot be opened: the exception's text
  goes to \<open>stderr\<close> and the result is always \<open>true\<close>.\<close>

definition readTimeZoneFile :: "bytes option \<Rightarrow> Data \<Rightarrow> (bool \<times> Data) option" where
  "readTimeZoneFile zonefile data =
     (case zonefile of
        None \<Rightarrow> Some (True, data)
      | Some content \<Rightarrow> map_option (\<lambda>(data', e). (True, data')) (read_zone content data))"

section \<open>The class\<close>

type_synonym TimeZone = "Data option"

definition TimeZone_none :: TimeZone where
  "TimeZone_none = None"

definition TimeZone_file :: "bytes option \<Rightarrow> TimeZone option" where
  "TimeZone_file zonefile =
     map_option (\<lambda>(ok, data). if ok then Some data else None) (readTimeZoneFile zonefile Data_empty)"

definition TimeZone_fixed :: "int \<Rightarrow> bytes \<Rightarrow> TimeZone" where
  "TimeZone_fixed eastUtc name =
     Some (Data_empty\<lparr>localtimes := [\<lparr>gmtOffset = eastUtc, isDst = False, arrbIdx = 0\<rparr>], tz_abbreviation := name\<rparr>)"

definition TimeZone_valid :: "TimeZone \<Rightarrow> bool" where
  "TimeZone_valid tz \<longleftrightarrow> tz \<noteq> None"

text \<open>\<open>std::lower_bound\<close>: binary search in the range of \<open>len\<close> elements from \<open>first\<close> on.\<close>

function lower_bound :: "('a \<Rightarrow> 'a \<Rightarrow> bool) \<Rightarrow> 'a list \<Rightarrow> 'a \<Rightarrow> nat \<Rightarrow> nat \<Rightarrow> nat" where
  "lower_bound cmp xs v first len =
     (if len = 0 then first
      else let half = len div 2; middle = first + half in
        if cmp (xs ! middle) v then lower_bound cmp xs v (Suc middle) (len - half - 1)
        else lower_bound cmp xs v first half)"
  by pat_completeness auto
termination
  by (relation "measure (\<lambda>(cmp, xs, v, first, len). len)") auto

declare lower_bound.simps [simp del]

definition findLocaltime :: "Data \<Rightarrow> Transition \<Rightarrow> bool \<Rightarrow> Localtime option" where
  "findLocaltime data sentry gmt =
     (let ts = transitions data in
      if ts = [] \<or> Comp_less gmt sentry (hd ts)
      then nth_opt (localtimes data) 0
      else let i = lower_bound (Comp_less gmt) ts sentry 0 (length ts) in
        if i < length ts
        then if \<not> Comp_equal gmt sentry (ts ! i)
             then if i = 0 then None else nth_opt (localtimes data) (localtimeIdx (ts ! (i - 1)))
             else nth_opt (localtimes data) (localtimeIdx (ts ! i))
        else nth_opt (localtimes data) (localtimeIdx (last ts)))"

text \<open>\<open>toLocalTime\<close>: the pointer \<open>tm_zone\<close> is the abbreviations from the index of the type on, which must
  not lie behind their end.\<close>

definition toLocalTime :: "TimeZone \<Rightarrow> int \<Rightarrow> tm option" where
  "toLocalTime tz seconds =
     (case tz of
        None \<Rightarrow> None
      | Some data \<Rightarrow>
          (case findLocaltime data \<lparr>gmttime = seconds, localtime = 0, localtimeIdx = 0\<rparr> True of
             None \<Rightarrow> None
           | Some local \<Rightarrow>
               if 0 \<le> arrbIdx local \<and> arrbIdx local \<le> int (length (tz_abbreviation data))
               then Some ((gmtime_r (seconds + gmtOffset local))
                      \<lparr>tm_isdst := (if isDst local then 1 else 0), tm_gmtoff := gmtOffset local,
                       tm_zone := Some (drop (nat (arrbIdx local)) (c_string (tz_abbreviation data)))\<rparr>)
               else None))"

definition fromLocalTime :: "TimeZone \<Rightarrow> tm \<Rightarrow> int option" where
  "fromLocalTime tz localTm =
     (case tz of
        None \<Rightarrow> None
      | Some data \<Rightarrow>
          (let seconds = timegm localTm in
           case findLocaltime data \<lparr>gmttime = 0, localtime = seconds, localtimeIdx = 0\<rparr> False of
             None \<Rightarrow> None
           | Some local \<Rightarrow>
               if tm_isdst localTm \<noteq> 0
               then (case toLocalTime tz (seconds - gmtOffset local) of
                       None \<Rightarrow> None
                     | Some tryTm \<Rightarrow>
                         if tm_isdst tryTm = 0 \<and> tm_hour tryTm = tm_hour localTm \<and> tm_min tryTm = tm_min localTm
                         then Some (seconds - 3600 - gmtOffset local)
                         else Some (seconds - gmtOffset local))
               else Some (seconds - gmtOffset local)))"

definition toUtcTime :: "int \<Rightarrow> bool \<Rightarrow> tm" where
  "toUtcTime secondsSinceEpoch yday =
     (let utc = tm_zero\<lparr>tm_zone := Some (c_string ''GMT'')\<rparr>;
          seconds0 = wrap32 (secondsSinceEpoch smod kSecondsPerDay);
          days0 = wrap32 (secondsSinceEpoch sdiv kSecondsPerDay);
          (seconds, days) = (if seconds0 < 0 then (seconds0 + kSecondsPerDay, days0 - 1) else (seconds0, days0));
          utc1 = fillHMS seconds utc;
          date = Date_ofJulian (days + kJulianDayOf1970_01_01);
          ymd = Date_yearMonthDay date;
          utc2 = utc1\<lparr>tm_year := ymd_year ymd - 1900, tm_mon := ymd_month ymd - 1, tm_mday := ymd_day ymd,
                   tm_wday := Date_weekDay date\<rparr>
      in if yday
         then utc2\<lparr>tm_yday := julianDayNumber date - julianDayNumber (Date_ofYMD (ymd_year ymd) 1 1)\<rparr>
         else utc2)"

definition fromUtcTime_fields :: "int \<Rightarrow> int \<Rightarrow> int \<Rightarrow> int \<Rightarrow> int \<Rightarrow> int \<Rightarrow> int" where
  "fromUtcTime_fields year month day hour minute seconds =
     (let date = Date_ofYMD year month day;
          secondsInDay = hour * 3600 + minute * 60 + seconds;
          days = julianDayNumber date - kJulianDayOf1970_01_01
      in days * kSecondsPerDay + secondsInDay)"

definition fromUtcTime :: "tm \<Rightarrow> int" where
  "fromUtcTime utc =
     fromUtcTime_fields (tm_year utc + 1900) (tm_mon utc + 1) (tm_mday utc) (tm_hour utc) (tm_min utc) (tm_sec utc)"

section \<open>UTC\<close>

lemma kJulianDay [simp]: "kJulianDayOf1970_01_01 = 2440588"
  by (simp add: kJulianDayOf1970_01_01_def getJulianDayNumber_def Let_def sdiv_nonneg)

lemma kSecondsPerDay_eq: "kSecondsPerDay = seconds_per_day" "kSecondsPerDay = 86400"
  by (simp_all add: kSecondsPerDay_def seconds_per_day_def)

text \<open>The truncating division, corrected for negative remainders, is the floor division.\<close>

lemma trunc_to_floor:
  assumes "0 < (k::int)"
  shows "(if t smod k < 0 then (t smod k + k, t sdiv k - 1) else (t smod k, t sdiv k)) = (t mod k, t div k)"
proof (cases "0 \<le> t")
  case True
  then show ?thesis using assms by (simp add: sdiv_nonneg smod_nonneg not_less)
next
  case False
  then have t: "t < 0" by simp
  show ?thesis
  proof (cases "t mod k = 0")
    case True
    then have "(- t) mod k = 0" by (simp add: zmod_zminus1_eq_if)
    moreover have "(- t) div k = - (t div k)" using True assms by (simp add: zdiv_zminus1_eq_if)
    ultimately show ?thesis using t assms True by (simp add: sdiv_neg smod_neg)
  next
    case False
    have "(- t) mod k = k - t mod k" "(- t) div k = - (t div k) - 1"
      using False assms by (simp_all add: zmod_zminus1_eq_if zdiv_zminus1_eq_if)
    moreover have "t mod k < k" "0 \<le> t mod k" using assms by simp_all
    ultimately show ?thesis using t assms False by (simp add: sdiv_neg smod_neg)
  qed
qed

text \<open>The times for which every \<open>int\<close> the code computes is in range: day -2472632 (year -4800) to the day
  where \<open>getYearMonthDay\<close> overflows.\<close>

definition utc_range :: "int \<Rightarrow> bool" where
  "utc_range t \<longleftrightarrow> -2472632 \<le> t div 86400 \<and> t div 86400 + 2440588 \<le> 536838867"

lemma wrap32_small: "\<bar>i\<bar> < 2 ^ 31 \<Longrightarrow> wrap32 i = i"
  by (rule wrap32_id) auto

lemma utc_parts:
  assumes "utc_range t"
  shows "(let s = wrap32 (t smod kSecondsPerDay); d = wrap32 (t sdiv kSecondsPerDay) in
      if s < 0 then (s + kSecondsPerDay, d - 1) else (s, d)) = (t mod 86400, t div 86400)"
proof -
  have "t = 86400 * (t div 86400) + t mod 86400" "0 \<le> t mod 86400" "t mod 86400 < 86400" by simp_all
  note q = trunc_to_floor[of 86400 t]
  have s: "t smod 86400 = (if t smod 86400 < 0 then t mod 86400 - 86400 else t mod 86400)"
    and d: "t sdiv 86400 = (if t smod 86400 < 0 then t div 86400 + 1 else t div 86400)"
    using q by (auto split: if_splits)
  have "\<bar>t smod 86400\<bar> < 2 ^ 31" using s \<open>0 \<le> t mod 86400\<close> \<open>t mod 86400 < 86400\<close> by (auto split: if_splits)
  moreover have "\<bar>t sdiv 86400\<bar> < 2 ^ 31" using d assms by (auto simp: utc_range_def split: if_splits)
  ultimately show ?thesis unfolding kSecondsPerDay_eq(2) Let_def using q by (auto simp: wrap32_small split: if_splits)
qed

lemma toUtcTime_unfold:
  assumes "utc_range t"
  shows "toUtcTime t yday =
    (let date = Date_ofJulian (t div 86400 + 2440588); ymd = Date_yearMonthDay date;
         utc2 = (fillHMS (t mod 86400) (tm_zero\<lparr>tm_zone := Some (c_string ''GMT'')\<rparr>))
           \<lparr>tm_year := ymd_year ymd - 1900, tm_mon := ymd_month ymd - 1, tm_mday := ymd_day ymd,
            tm_wday := Date_weekDay date\<rparr>
     in if yday
        then utc2\<lparr>tm_yday := julianDayNumber date - julianDayNumber (Date_ofYMD (ymd_year ymd) 1 1)\<rparr>
        else utc2)"
  using utc_parts[OF assms] by (auto simp: toUtcTime_def Let_def split: if_splits)

text \<open>C28: \<open>toUtcTime\<close> agrees with the calendar: for every time from the year -4799 to the last one whose
  date does not overflow, all fields it fills are those of \<open>gmtime_r\<close>, the day of the year included when it
  is asked for (for a day in the years from -4712 on, where the weekday formula applies).\<close>

theorem toUtcTime_gmtime_r:
  assumes "utc_range t" "-4799 \<le> tm_year (gmtime_r t) + 1900" "- 1 \<le> t div 86400 + 2440588"
  shows "toUtcTime t True = gmtime_r t \<and> toUtcTime t False = (gmtime_r t)\<lparr>tm_yday := 0\<rparr>"
proof -
  let ?n = "t div 86400"
  obtain y m d where g: "gm_date ?n = (y, m, d)" by (cases "gm_date ?n") auto
  note c = gm_date_correct[OF g]
  have gm: "gmtime_r t = \<lparr>tm_sec = t mod 86400 mod 60, tm_min = t mod 86400 div 60 mod 60, tm_hour = t mod 86400 div 3600,
      tm_mday = d, tm_mon = m - 1, tm_year = y - 1900, tm_wday = (?n + 4) mod 7, tm_yday = ?n - day_number y 1 1,
      tm_isdst = 0, tm_gmtoff = 0, tm_zone = Some (c_string ''GMT'')\<rparr>"
    by (simp add: gmtime_r_def Let_def seconds_per_day_def g)
  have "first_jdn \<le> ?n + 2440588" using assms(1) by (simp add: utc_range_def first_jdn_def)
  then obtain y' m' d' where g': "getYearMonthDay (?n + 2440588) = \<lparr>ymd_year = y', ymd_month = m', ymd_day = d'\<rparr>"
    "valid_date y' m' d'" "jdn_range y' m'" "getJulianDayNumber y' m' d' = ?n + 2440588"
    using getYearMonthDay_correct[of "?n + 2440588"] by (cases "getYearMonthDay (?n + 2440588)") auto
  then have "day_number y' m' d' = ?n" using getJulianDayNumber_correct[of y' m' d'] by simp
  then have ymd: "y' = y" "m' = m" "d' = d" using day_number_inj[OF g'(2), of y m d] c by auto
  have w: "Date_weekDay (Date_ofJulian (?n + 2440588)) = (?n + 4) mod 7"
  proof -
    have "?n + 2440588 + 1 = ?n + 4 + 7 * 348655" by simp
    then have "(?n + 2440588 + 1) mod 7 = (?n + 4) mod 7" by (simp only: mod_mult_self2)
    then show ?thesis
      using assms(3) by (simp only: Date_weekDay_def Date_ofJulian_def kDaysPerWeek_def smod_nonneg Date.select_convs)
  qed
  have y1: "getJulianDayNumber y 1 1 = 2440588 + day_number y 1 1"
    using assms(2) by (intro getJulianDayNumber_correct) (auto simp: gm valid_date_def month_days_def jdn_range_def)
  have h: "s div 60 div 60 = s div 3600" for s :: int by (simp add: zdiv_zmult2_eq[symmetric])
  show ?thesis
    unfolding toUtcTime_unfold[OF assms(1)] gm Let_def Date_yearMonthDay_def
    using w y1 by (simp add: Date_ofJulian_def g'(1) ymd fillHMS_def Let_def tm_zero_def Date_ofYMD_def h)
qed

theorem toUtcTime_gmtime_r_witness: "toUtcTime 951782400 True = gmtime_r 951782400"
proof -
  have "day_number 2000 2 29 = 11016" by (simp add: day_number_def days_before_year_def days_before_month_table leap_year_def)
  then have "gm_date 11016 = (2000, 2, 29)"
    by (intro gm_date_unique) (simp_all add: valid_date_def month_days_def leap_year_def)
  then have "tm_year (gmtime_r 951782400) = 100" by (simp add: gmtime_r_def seconds_per_day_def)
  then show ?thesis using toUtcTime_gmtime_r[of 951782400] by (simp add: utc_range_def)
qed

text \<open>Seconds to UTC fields and back is the identity on that range.\<close>

theorem fromUtcTime_toUtcTime:
  assumes "utc_range t"
  shows "fromUtcTime (toUtcTime t yday) = t"
proof -
  let ?n = "t div 86400"
  have "first_jdn \<le> ?n + 2440588" using assms by (simp add: utc_range_def first_jdn_def)
  then obtain y m d where g: "getYearMonthDay (?n + 2440588) = \<lparr>ymd_year = y, ymd_month = m, ymd_day = d\<rparr>"
    "getJulianDayNumber y m d = ?n + 2440588"
    using getYearMonthDay_correct[of "?n + 2440588"] by (cases "getYearMonthDay (?n + 2440588)") auto
  have h: "s div 60 div 60 = s div 3600" for s :: int by (simp add: zdiv_zmult2_eq[symmetric])
  have "fromUtcTime (toUtcTime t yday) =
      ?n * 86400 + (t mod 86400 div 3600 * 3600 + t mod 86400 div 60 mod 60 * 60 + t mod 86400 mod 60)"
    unfolding toUtcTime_unfold[OF assms] Let_def Date_yearMonthDay_def
    by (cases yday) (simp_all add: Date_ofJulian_def g fillHMS_def Let_def fromUtcTime_def fromUtcTime_fields_def
      Date_ofYMD_def kSecondsPerDay_eq(2) h)
  then show ?thesis by (simp only: hms_recombine) simp
qed

theorem fromUtcTime_toUtcTime_witness: "fromUtcTime (toUtcTime (- 1) False) = - 1"
  using fromUtcTime_toUtcTime[of "- 1" False] by (simp add: utc_range_def)

section \<open>The search\<close>

text \<open>What both orders of \<open>Comp\<close> have in common: they compare an integer key.  The search is correct for
  any such order.\<close>

locale transition_order =
  fixes less_tr :: "Transition \<Rightarrow> Transition \<Rightarrow> bool"
    and equal_tr :: "Transition \<Rightarrow> Transition \<Rightarrow> bool"
    and key :: "Transition \<Rightarrow> int"
  assumes less_key: "less_tr a b \<longleftrightarrow> key a < key b"
    and equal_key: "equal_tr a b \<longleftrightarrow> key a = key b"
begin

definition ascending :: "Transition list \<Rightarrow> bool" where
  "ascending ts \<longleftrightarrow> sorted_wrt (\<lambda>a b. key a < key b) ts"

lemma ascending_nth:
  "ascending ts \<Longrightarrow> i < j \<Longrightarrow> j < length ts \<Longrightarrow> key (ts ! i) < key (ts ! j)"
  by (simp add: ascending_def sorted_wrt_iff_nth_less)

lemma ascending_le: "ascending ts \<Longrightarrow> i \<le> j \<Longrightarrow> j < length ts \<Longrightarrow> key (ts ! i) \<le> key (ts ! j)"
  using ascending_nth[of ts i j] by (cases "i = j") auto

text \<open>The binary search returns the end of the elements before the sought one.\<close>

lemma lower_bound_correct:
  assumes "ascending ts" "first + len \<le> length ts"
    "\<forall>j < first. key (ts ! j) < key v" "\<forall>j. first + len \<le> j \<and> j < length ts \<longrightarrow> key v \<le> key (ts ! j)"
  shows "lower_bound less_tr ts v first len \<le> length ts
    \<and> (\<forall>j < lower_bound less_tr ts v first len. key (ts ! j) < key v)
    \<and> (\<forall>j. lower_bound less_tr ts v first len \<le> j \<and> j < length ts \<longrightarrow> key v \<le> key (ts ! j))"
  using assms
proof (induction len arbitrary: first rule: less_induct)
  case (less len)
  show ?case
  proof (cases "len = 0")
    case True
    then have eq: "lower_bound less_tr ts v first len = first" by (subst lower_bound.simps) simp
    show ?thesis unfolding eq using less.prems(2-4) True by simp
  next
    case False
    define half where "half = len div 2"
    have h: "half < len" "first + half < length ts" using False less.prems(2) by (auto simp: half_def)
    show ?thesis
    proof (cases "less_tr (ts ! (first + half)) v")
      case True
      then have k: "key (ts ! (first + half)) < key v" by (simp add: less_key)
      have left: "\<forall>j < Suc (first + half). key (ts ! j) < key v"
        using ascending_le[OF less.prems(1) _ h(2)] k by (meson less_Suc_eq_le order.strict_trans1)
      have e: "Suc (first + half) + (len - half - 1) = first + len" using h(1) by simp
      have step: "lower_bound less_tr ts v first len = lower_bound less_tr ts v (Suc (first + half)) (len - half - 1)"
        using False True by (subst lower_bound.simps) (simp add: half_def Let_def)
      have "len - half - 1 < len" using False by simp
      from less.IH[OF this less.prems(1) _ left, unfolded e, OF less.prems(2,4)] show ?thesis unfolding step .
    next
      case nl: False
      then have k: "key v \<le> key (ts ! (first + half))" by (simp add: less_key)
      have right: "\<forall>j. first + half \<le> j \<and> j < length ts \<longrightarrow> key v \<le> key (ts ! j)"
        using ascending_le[OF less.prems(1)] k by (meson order_trans)
      have step: "lower_bound less_tr ts v first len = lower_bound less_tr ts v first half"
        using False nl by (subst lower_bound.simps) (simp add: half_def Let_def)
      have "first + half \<le> length ts" using h by simp
      from less.IH[OF h(1) less.prems(1) this less.prems(3) right] show ?thesis unfolding step .
    qed
  qed
qed

text \<open>The position the caller computes from it is that of the last element not after the sought one.\<close>

lemma position_of:
  assumes "ascending ts" "k < length ts" "key (ts ! k) \<le> key v" "k + 1 < length ts \<Longrightarrow> key v < key (ts ! (k + 1))"
  defines "i \<equiv> lower_bound less_tr ts v 0 (length ts)"
  shows "if key v = key (ts ! k) then i = k else i = k + 1"
proof -
  have c: "i \<le> length ts" "\<forall>j < i. key (ts ! j) < key v" "\<forall>j. i \<le> j \<and> j < length ts \<longrightarrow> key v \<le> key (ts ! j)"
    unfolding i_def using lower_bound_correct[OF assms(1), of 0 "length ts" v] by auto
  show ?thesis
  proof (cases "key v = key (ts ! k)")
    case True
    have "i \<le> k" using c(2) True by (metis less_irrefl not_le)
    moreover have "\<not> i < k"
    proof
      assume "i < k"
      then have "key v \<le> key (ts ! i)" using c(3) assms(2) by auto
      then show False using ascending_nth[OF assms(1) \<open>i < k\<close> assms(2)] True by simp
    qed
    ultimately show ?thesis using True by simp
  next
    case False
    then have lt: "key (ts ! k) < key v" using assms(3) by simp
    then have "\<not> i \<le> k" using c(3) assms(2) by fastforce
    moreover have "\<not> k + 1 < i" using c(1,2) assms(4) by (metis less_le_trans order.asym)
    ultimately show ?thesis using False by simp
  qed
qed

end

interpretation gmt: transition_order "Comp_less True" "Comp_equal True" gmttime
  by unfold_locales (simp_all add: Comp_less_def Comp_equal_def)




lemma findLocaltime_before:
  assumes "transitions d = [] \<or> (if g then gmttime v < gmttime (hd (transitions d)) else localtime v < localtime (hd (transitions d)))"
  shows "findLocaltime d v g = nth_opt (localtimes d) 0"
  using assms by (auto simp: findLocaltime_def Let_def Comp_less_def split: if_splits)

section \<open>Local time\<close>




definition local_fields :: "Data \<Rightarrow> Localtime \<Rightarrow> int \<Rightarrow> tm" where
  "local_fields d l t = (gmtime_r (t + gmtOffset l))
     \<lparr>tm_isdst := (if isDst l then 1 else 0), tm_gmtoff := gmtOffset l,
      tm_zone := Some (drop (nat (arrbIdx l)) (c_string (tz_abbreviation d)))\<rparr>"

lemma local_fields_simps [simp]:
  "timegm (local_fields d l t) = t + gmtOffset l" "tm_isdst (local_fields d l t) = (if isDst l then 1 else 0)"
  "tm_hour (local_fields d l t) = tm_hour (gmtime_r (t + gmtOffset l))"
  "tm_min (local_fields d l t) = tm_min (gmtime_r (t + gmtOffset l))"
proof -
  have "timegm (g\<lparr>tm_isdst := a, tm_gmtoff := b, tm_zone := c\<rparr>) = timegm g" for g a b c
    by (simp add: timegm_def)
  then show "timegm (local_fields d l t) = t + gmtOffset l"
    by (simp add: local_fields_def timegm_gmtime_r)
qed (simp_all add: local_fields_def)





text \<open>The zone of the examples: daylight saving time (+1 h) from 1000000, standard time from 2000000.\<close>

definition demo_zone :: Data where
  "demo_zone = \<lparr>transitions = [\<lparr>gmttime = 1000000, localtime = 1003600, localtimeIdx = 1\<rparr>,
       \<lparr>gmttime = 2000000, localtime = 2000000, localtimeIdx = 0\<rparr>],
     localtimes = [\<lparr>gmtOffset = 0, isDst = False, arrbIdx = 0\<rparr>, \<lparr>gmtOffset = 3600, isDst = True, arrbIdx = 4\<rparr>],
     names = [], tz_abbreviation = ''GMT'' @ [NUL] @ ''BST'' @ [NUL]\<rparr>"



text \<open>A fixed zone only shifts the fields.\<close>

lemma fixed_zone_roundtrip:
  "\<exists>g. toLocalTime (TimeZone_fixed off name) t = Some g \<and> tm_isdst g = 0 \<and> tm_gmtoff g = off
     \<and> timegm g = t + off \<and> fromLocalTime (TimeZone_fixed off name) g = Some t"
proof -
  let ?l = "\<lparr>gmtOffset = off, isDst = False, arrbIdx = 0\<rparr>"
  define d where "d = Data_empty\<lparr>localtimes := [?l], tz_abbreviation := name\<rparr>"
  have f: "findLocaltime d v g = Some ?l" for v g
    by (simp add: findLocaltime_def d_def Data_empty_def nth_opt_def)
  have tz: "TimeZone_fixed off name = Some d" by (simp add: TimeZone_fixed_def d_def)
  have "toLocalTime (Some d) t = Some (local_fields d ?l t)"
    by (simp add: toLocalTime_def f local_fields_def)
  moreover have "fromLocalTime (Some d) (local_fields d ?l t) = Some t"
    by (simp add: fromLocalTime_def Let_def f)
  moreover have "tm_gmtoff (local_fields d ?l t) = off" "tm_isdst (local_fields d ?l t) = 0"
    "timegm (local_fields d ?l t) = t + off"
    unfolding local_fields_simps by (simp_all add: local_fields_def)
  ultimately show ?thesis unfolding tz by blast
qed

text \<open>A zone file that cannot be opened, or is not a zone file, still gives a zone that says it is valid,
  and the first conversion with it reads the front of an empty vector.\<close>

theorem missing_zone_file:
  assumes "file = None \<or> file = Some content \<and> take 4 content \<noteq> ''TZif''"
  shows "\<exists>tz. TimeZone_file file = Some tz \<and> TimeZone_valid tz \<and> toLocalTime tz t = None"
proof -
  have bad: "\<exists>e. read_header content = Inl e" if "take 4 content \<noteq> ''TZif''"
    using that by (cases "4 \<le> length content") (simp_all add: read_header_def readBytes_def)
  have opened: "TimeZone_file file = Some (Some Data_empty)"
  proof (cases "file")
    case None
    then show ?thesis by (simp add: TimeZone_file_def readTimeZoneFile_def)
  next
    case (Some c)
    then obtain e where "read_header c = Inl e" using assms bad by auto
    then show ?thesis by (simp add: Some TimeZone_file_def readTimeZoneFile_def read_zone_def)
  qed
  have "findLocaltime Data_empty v True = None" for v
    by (simp add: findLocaltime_def Data_empty_def nth_opt_def)
  then have "toLocalTime (Some Data_empty) t = None" by (simp add: toLocalTime_def)
  with opened show ?thesis by (simp add: TimeZone_valid_def)
qed

theorem missing_zone_file_witness:
  "\<exists>tz. TimeZone_file (Some ''PK zip'') = Some tz \<and> TimeZone_valid tz \<and> toLocalTime tz 0 = None"
  using missing_zone_file[of "Some ''PK zip''" "''PK zip''" 0] by simp

section \<open>The zone file read back\<close>

text \<open>A writer for the format, as the specification of the reader: big-endian 32-bit numbers, the header,
  times, type indices, types, abbreviations.\<close>

definition be_bytes :: "int \<Rightarrow> bytes" where
  "be_bytes v =
     (let n = nat (v mod 2 ^ 32)
      in [char_of (n div 256 div 256 div 256), char_of (n div 256 div 256), char_of (n div 256), char_of n])"

definition type_bytes :: "Localtime \<Rightarrow> bytes" where
  "type_bytes l = be_bytes (gmtOffset l) @ [char_of (if isDst l then 1 else 0 :: nat), char_of (nat (arrbIdx l))]"

definition zone_file :: "int \<Rightarrow> int \<Rightarrow> int \<Rightarrow> char \<Rightarrow> Data \<Rightarrow> bytes \<Rightarrow> bytes" where
  "zone_file isgmtcnt isstdcnt leapcnt version d trailer =
     ''TZif'' @ [version] @ replicate 15 NUL
     @ concat (map be_bytes [isgmtcnt, isstdcnt, leapcnt, int (length (transitions d)), int (length (localtimes d)),
         int (length (tz_abbreviation d))])
     @ concat (map (\<lambda>t. be_bytes (gmttime t)) (transitions d))
     @ map (\<lambda>t. char_of (nat (localtimeIdx t))) (transitions d)
     @ concat (map type_bytes (localtimes d)) @ tz_abbreviation d @ trailer"

text \<open>The data such a file can hold.\<close>

definition storable :: "Data \<Rightarrow> bool" where
  "storable d \<longleftrightarrow> names d = []
     \<and> (\<forall>t \<in> set (transitions d). fits_i32 (gmttime t) \<and> 0 \<le> localtimeIdx t \<and> localtimeIdx t < 256
          \<and> localtimeIdx t < int (length (localtimes d))
          \<and> localtime t = gmttime t + gmtOffset (localtimes d ! nat (localtimeIdx t)))
     \<and> (\<forall>l \<in> set (localtimes d). fits_i32 (gmtOffset l) \<and> 0 \<le> arrbIdx l \<and> arrbIdx l < 256)
     \<and> length (transitions d) < 2 ^ 31 \<and> length (localtimes d) < 2 ^ 31 \<and> length (tz_abbreviation d) < 2 ^ 31"

lemma of_char_char_of_int [simp]: "(of_char (char_of (n :: nat)) :: int) = int (n mod 256)"
  by (metis of_char_of of_nat_of_char)

lemma be_value_be_bytes: "be_value (be_bytes v) = v mod 2 ^ 32"
proof -
  define n where "n = nat (v mod 2 ^ 32)"
  have n: "int n = v mod 2 ^ 32" "n < 2 ^ 32" by (simp_all add: n_def nat_less_iff)
  define q1 q2 q3 where q: "q1 = n div 256" "q2 = q1 div 256" "q3 = q2 div 256"
  have be: "be_bytes v = [char_of q3, char_of q2, char_of q1, char_of n]"
    unfolding be_bytes_def Let_def q n_def ..
  have "q3 < 256" using n(2) by (simp add: q div_mult2_eq[symmetric])
  then have r: "q3 mod 256 = q3" by simp
  have "be_value (be_bytes v) = int (((q3 mod 256) * 256 + q2 mod 256) * 256 + q1 mod 256) * 256 + int (n mod 256)"
    unfolding be by (simp add: be_value_def algebra_simps)
  also have "((q3 mod 256) * 256 + q2 mod 256) = q2"
  proof -
    have "q3 * 256 + q2 mod 256 = q2" unfolding q(3) by simp
    then show ?thesis by (simp only: r)
  qed
  also have "q2 * 256 + q1 mod 256 = q1" unfolding q(2) by simp
  also have "int q1 * 256 + int (n mod 256) = int n" unfolding q(1)
    by (metis div_mult_mod_eq of_nat_add of_nat_mult of_nat_numeral)
  finally show ?thesis using n(1) by simp
qed

lemma wrap32_mod: "fits_i32 v \<Longrightarrow> wrap32 (v mod 2 ^ 32) = v"
proof -
  assume "fits_i32 v"
  then have "0 \<le> v + 2 ^ 31" "v + 2 ^ 31 < 2 ^ 32" by (simp_all add: fits_i32_def)
  moreover have "(v mod 2 ^ 32 + 2 ^ 31) mod 2 ^ 32 = (v + 2 ^ 31) mod 2 ^ 32" by (simp add: mod_add_left_eq)
  ultimately show ?thesis unfolding wrap32_def by (simp only: mod_pos_pos_trivial)
qed

lemma length_be_bytes [simp]: "length (be_bytes v) = 4"
  by (simp add: be_bytes_def Let_def)

lemma readInt32_be_bytes: "fits_i32 v \<Longrightarrow> readInt32 (be_bytes v @ r) = Inr (v, r)"
  using wrap32_mod[of v] by (simp add: readInt32_def be_value_be_bytes)

lemma readUInt8_char: "n < 256 \<Longrightarrow> readUInt8 (char_of n # r) = Inr (int n, r)"
  by (simp add: readUInt8_def)

lemma read_n_encoded:
  assumes "\<And>x r. x \<in> set xs \<Longrightarrow> rd (enc x @ r) = Inr (dec x, r)"
  shows "read_n (length xs) rd (concat (map enc xs) @ r) = Inr (map dec xs, r)"
  using assms by (induction xs) auto

lemma read_types_encoded:
  assumes "\<forall>l \<in> set ls. fits_i32 (gmtOffset l) \<and> 0 \<le> arrbIdx l \<and> arrbIdx l < 256"
  shows "read_types (length ls) (concat (map type_bytes ls) @ r) acc = (acc @ ls, Inr r)"
  using assms
proof (induction ls arbitrary: acc)
  case Nil
  then show ?case by simp
next
  case (Cons l ls)
  have "readUInt8 (char_of (nat (arrbIdx l)) # x) = Inr (arrbIdx l, x)" for x
    using Cons.prems readUInt8_char[of "nat (arrbIdx l)" x] by (simp add: nat_less_iff)
  moreover have "readUInt8 (char_of (if isDst l then 1 else 0 :: nat) # x) = Inr (if isDst l then 1 else 0, x)" for x
    using readUInt8_char[of "if isDst l then 1 else 0" x] by simp
  ultimately show ?case
    using Cons by (simp add: type_bytes_def readInt32_be_bytes)
qed

lemma make_transitions_encoded:
  assumes "\<forall>t \<in> set ts. 0 \<le> localtimeIdx t \<and> localtimeIdx t < int (length lts)
     \<and> localtime t = gmttime t + gmtOffset (lts ! nat (localtimeIdx t))"
  shows "make_transitions lts (zip (map gmttime ts) (map localtimeIdx ts)) = Some ts"
  using assms by (induction ts) (auto simp: nth_opt_def)

lemma read_header_encoded:
  assumes "fits_i32 a" "fits_i32 b" "fits_i32 c" "fits_i32 timecnt" "0 \<le> timecnt" "fits_i32 typecnt" "fits_i32 charcnt"
  shows "read_header (''TZif'' @ [v] @ replicate 15 NUL @ concat (map be_bytes [a, b, c, timecnt, typecnt, charcnt]) @ r)
    = Inr ((timecnt, typecnt, charcnt), r)"
proof -
  let ?cs = "[a, b, c, timecnt, typecnt, charcnt]"
  have "read_n (length ?cs) readInt32 (concat (map be_bytes ?cs) @ r) = Inr (map (\<lambda>x. x) ?cs, r)"
    by (rule read_n_encoded) (use assms in \<open>auto simp: readInt32_be_bytes\<close>)
  then have n: "read_n 6 readInt32 (concat (map be_bytes ?cs) @ r) = Inr (?cs, r)"
    by (simp only: list.size list.map) (simp add: eval_nat_numeral)
  have p: "readBytes (length x) (x @ y) = Inr (x, y)" for x y by (simp add: readBytes_def)
  have r1: "readBytes 4 (''TZif'' @ y) = Inr (''TZif'', y)" for y by (simp add: readBytes_def)
  have r2: "readBytes 1 ([v] @ y) = Inr ([v], y)" for y by (simp add: readBytes_def)
  have r3: "readBytes 15 (replicate 15 NUL @ y) = Inr (replicate 15 NUL, y)" for y
    using p[of "replicate 15 NUL" y] by (simp only: length_replicate)
  show ?thesis
    unfolding read_header_def r1 r2 r3 n sum.case prod.case using assms(5) by simp
qed

lemma zone_file_read:
  assumes "storable d" "fits_i32 isgmtcnt" "fits_i32 isstdcnt" "fits_i32 leapcnt"
  shows "readTimeZoneFile (Some (zone_file isgmtcnt isstdcnt leapcnt version d trailer)) Data_empty = Some (True, d)"
proof -
  let ?ts = "transitions d" and ?ls = "localtimes d" and ?ab = "tz_abbreviation d"
  have fit: "fits_i32 (int (length ?ts))" "fits_i32 (int (length ?ls))" "fits_i32 (int (length ?ab))"
    using assms(1) by (auto simp: storable_def fits_i32_def)
  define r3 where "r3 = concat (map type_bytes ?ls) @ ?ab @ trailer"
  define r2 where "r2 = map (\<lambda>t. char_of (nat (localtimeIdx t)) :: char) ?ts @ r3"
  define r1 where "r1 = concat (map (\<lambda>t. be_bytes (gmttime t)) ?ts) @ r2"
  have head: "read_header (zone_file isgmtcnt isstdcnt leapcnt version d trailer) =
      Inr ((int (length ?ts), int (length ?ls), int (length ?ab)), r1)"
    unfolding zone_file_def r1_def r2_def r3_def
    using read_header_encoded[OF assms(2-4) fit(1) _ fit(2,3)] by (simp only: of_nat_0_le_iff append_assoc True_implies_equals)
  have t1: "read_n (length ?ts) readInt32 r1 = Inr (map gmttime ?ts, r2)"
    unfolding r1_def by (rule read_n_encoded) (use assms(1) in \<open>auto simp: storable_def readInt32_be_bytes\<close>)
  have idx: "map (\<lambda>t. char_of (nat (localtimeIdx t)) :: char) ?ts = concat (map (\<lambda>t. [char_of (nat (localtimeIdx t))]) ?ts)"
    by (induction ?ts) auto
  have t2: "read_n (length ?ts) readUInt8 r2 = Inr (map localtimeIdx ?ts, r3)"
    unfolding r2_def idx
    by (rule read_n_encoded) (use assms(1) in \<open>auto simp: storable_def readUInt8_char nat_less_iff\<close>)
  have times: "read_times (int (length ?ts)) r1 = Inr ((map gmttime ?ts, map localtimeIdx ?ts), r3)"
    by (simp add: read_times_def t1 t2)
  have types: "read_types (length ?ls) r3 [] = (?ls, Inr (?ab @ trailer))"
    unfolding r3_def using read_types_encoded[of ?ls "?ab @ trailer" "[]"] assms(1) by (simp add: storable_def)
  have trans: "make_transitions ?ls (zip (map gmttime ?ts) (map localtimeIdx ?ts)) = Some ?ts"
    using assms(1) by (intro make_transitions_encoded) (auto simp: storable_def)
  have ab: "readBytes (length ?ab) (?ab @ trailer) = Inr (?ab, trailer)" by (simp add: readBytes_def)
  have "Data_empty\<lparr>localtimes := ?ls, transitions := ?ts, tz_abbreviation := ?ab\<rparr> = d"
    using assms(1) by (cases d) (simp add: Data_empty_def storable_def)
  then show ?thesis
    by (simp add: readTimeZoneFile_def read_zone_def head times types trans ab Data_empty_def)
qed

text \<open>C25: The reader inverts the format: a file written for a storable zone, whatever its other counts,
  version and trailing blocks, is read back as exactly that zone.\<close>

theorem zone_file_roundtrip:
  assumes "storable d" "fits_i32 isgmtcnt" "fits_i32 isstdcnt" "fits_i32 leapcnt"
  shows "readTimeZoneFile (Some (zone_file isgmtcnt isstdcnt leapcnt version d trailer)) Data_empty = Some (True, d)"
  by (rule zone_file_read[OF assms])

theorem zone_file_roundtrip_witness:
  "readTimeZoneFile (Some (zone_file 0 0 0 CHR ''2'' demo_zone ''TZif2'')) Data_empty = Some (True, demo_zone)"
  by (rule zone_file_roundtrip) (auto simp: storable_def demo_zone_def fits_i32_def)

section \<open>Any file at all\<close>

lemma wrap32_fits: "fits_i32 (wrap32 v)"
  by (simp add: wrap32_def fits_i32_def)

lemma readInt32_fits: "readInt32 f = Inr (v, f') \<Longrightarrow> fits_i32 v"
  by (auto simp: readInt32_def wrap32_fits split: if_splits)

lemma of_char_int_range: "0 \<le> (of_char c :: int)" "(of_char c :: int) < 256"
proof -
  have "(of_char c :: int) = int (of_char c)" by (simp add: of_char_def)
  then show "0 \<le> (of_char c :: int)" "(of_char c :: int) < 256" by simp_all
qed

lemma readUInt8_range: "readUInt8 f = Inr (v, f') \<Longrightarrow> 0 \<le> v \<and> v < 256"
  by (auto simp: readUInt8_def of_char_int_range split: list.splits)

lemma read_n_all:
  assumes "\<And>f x f'. rd f = Inr (x, f') \<Longrightarrow> P x"
  shows "read_n n rd f = Inr (xs, f') \<Longrightarrow> length xs = n \<and> (\<forall>x \<in> set xs. P x)"
proof (induction n arbitrary: f xs)
  case (Suc n)
  then show ?case using assms by (auto split: sum.splits)
qed simp

definition type_storable :: "Localtime \<Rightarrow> bool" where
  "type_storable l \<longleftrightarrow> fits_i32 (gmtOffset l) \<and> 0 \<le> arrbIdx l \<and> arrbIdx l < 256"

lemma read_types_all:
  "read_types n f acc = (lts, r) \<Longrightarrow> \<forall>l \<in> set acc. type_storable l \<Longrightarrow>
     (\<forall>l \<in> set lts. type_storable l) \<and> length lts \<le> length acc + n"
proof (induction n arbitrary: f acc)
  case (Suc n)
  consider (stops) "lts = acc"
    | (goes) g f1 d f2 b f3 where "readInt32 f = Inr (g, f1)" "readUInt8 f1 = Inr (d, f2)" "readUInt8 f2 = Inr (b, f3)"
        "read_types n f3 (acc @ [\<lparr>gmtOffset = g, isDst = (d \<noteq> 0), arrbIdx = b\<rparr>]) = (lts, r)"
    using Suc.prems(1) by (auto split: sum.splits prod.splits)
  then show ?case
  proof cases
    case stops
    then show ?thesis using Suc.prems(2) by simp
  next
    case goes
    have "type_storable \<lparr>gmtOffset = g, isDst = (d \<noteq> 0), arrbIdx = b\<rparr>"
      using readInt32_fits[OF goes(1)] readUInt8_range[OF goes(3)] by (simp add: type_storable_def)
    with Suc.prems(2) have "\<forall>l \<in> set (acc @ [\<lparr>gmtOffset = g, isDst = (d \<noteq> 0), arrbIdx = b\<rparr>]). type_storable l"
      by simp
    from Suc.IH[OF goes(4) this] show ?thesis by simp
  qed
qed simp

lemma make_transitions_all:
  assumes "make_transitions lts ps = Some ts" "\<forall>(t, i) \<in> set ps. fits_i32 t \<and> 0 \<le> i \<and> i < 256"
  shows "length ts = length ps \<and> (\<forall>t \<in> set ts. fits_i32 (gmttime t) \<and> 0 \<le> localtimeIdx t \<and> localtimeIdx t < 256
    \<and> localtimeIdx t < int (length lts) \<and> localtime t = gmttime t + gmtOffset (lts ! nat (localtimeIdx t)))"
  using assms
  by (induction lts ps arbitrary: ts rule: make_transitions.induct)
    (auto simp: nth_opt_def split: option.splits if_splits)

lemma read_header_fits:
  assumes "read_header f = Inr ((timecnt, typecnt, charcnt), f')"
  shows "0 \<le> timecnt \<and> fits_i32 timecnt \<and> fits_i32 typecnt \<and> fits_i32 charcnt"
proof -
  obtain f3 counts where c: "read_n 6 readInt32 f3 = Inr (counts, f')" "0 \<le> counts ! 3"
    "timecnt = counts ! 3" "typecnt = counts ! 4" "charcnt = counts ! 5"
    using assms by (auto simp: read_header_def split: sum.splits prod.splits if_splits)
  have "length counts = 6 \<and> (\<forall>x \<in> set counts. fits_i32 x)"
    by (rule read_n_all[OF _ c(1)]) (rule readInt32_fits)
  then show ?thesis using c(2-5) by simp
qed

lemma read_times_fits:
  assumes "read_times timecnt f = Inr ((trs, idxs), f')"
  shows "length trs = nat timecnt \<and> length idxs = nat timecnt \<and> (\<forall>(t, i) \<in> set (zip trs idxs). fits_i32 t \<and> 0 \<le> i \<and> i < 256)"
proof -
  obtain f1 where r: "read_n (nat timecnt) readInt32 f = Inr (trs, f1)" "read_n (nat timecnt) readUInt8 f1 = Inr (idxs, f')"
    using assms by (auto simp: read_times_def split: sum.splits prod.splits)
  have "length trs = nat timecnt \<and> (\<forall>x \<in> set trs. fits_i32 x)"
    by (rule read_n_all[OF _ r(1)]) (rule readInt32_fits)
  moreover have "length idxs = nat timecnt \<and> (\<forall>x \<in> set idxs. 0 \<le> x \<and> x < 256)"
    by (rule read_n_all[OF _ r(2)]) (rule readUInt8_range)
  ultimately show ?thesis by (auto dest: set_zip_leftD set_zip_rightD)
qed

lemma storable_empty [simp]: "storable Data_empty"
  by (simp add: storable_def Data_empty_def)

lemma storable_types:
  "storable (Data_empty\<lparr>localtimes := lts\<rparr>) \<longleftrightarrow> (\<forall>l \<in> set lts. type_storable l) \<and> length lts < 2 ^ 31"
  by (simp add: storable_def Data_empty_def type_storable_def)

lemma read_zone_storable:
  assumes "read_zone content Data_empty = Some (d, e)"
  shows "storable d"
proof (cases "read_header content")
  case (Inl e)
  then show ?thesis using assms by (auto simp: read_zone_def)
next
  case (Inr h)
  then obtain timecnt typecnt charcnt f1 where h: "read_header content = Inr ((timecnt, typecnt, charcnt), f1)"
    by (cases h) auto
  note counts = read_header_fits[OF h]
  show ?thesis
  proof (cases "read_times timecnt f1")
    case (Inl e)
    then show ?thesis using assms h by (auto simp: read_zone_def)
  next
    case (Inr r)
    then obtain trs idxs f2 where t: "read_times timecnt f1 = Inr ((trs, idxs), f2)" by (cases r) auto
    note times = read_times_fits[OF t]
    obtain lts r where ty: "read_types (nat typecnt) f2 [] = (lts, r)" by force
    have lts: "\<forall>l \<in> set lts. type_storable l" "length lts < 2 ^ 31"
      using read_types_all[OF ty] counts by (auto simp: fits_i32_def)
    have base: "storable (Data_empty\<lparr>localtimes := lts\<rparr>)" using lts by (simp add: storable_types)
    show ?thesis
    proof (cases r)
      case (Inl e)
      then show ?thesis using assms h t ty base by (simp add: read_zone_def Data_empty_def)
    next
      case (Inr f3)
      then obtain ts ab where m: "make_transitions lts (zip trs idxs) = Some ts"
        "d = Data_empty\<lparr>localtimes := lts, transitions := ts, tz_abbreviation := ab\<rparr>" "length ab \<le> nat charcnt"
        using assms h t ty
        by (auto simp: read_zone_def Data_empty_def Let_def readBytes_def split: option.splits sum.splits prod.splits if_splits)
      have "length ts < 2 ^ 31" "length ab < 2 ^ 31"
        using make_transitions_all[OF m(1)] times counts m(3) by (auto simp: fits_i32_def)
      then show ?thesis
        using make_transitions_all[OF m(1)] times lts unfolding m(2)
        by (auto simp: storable_def Data_empty_def type_storable_def)
    qed
  qed
qed

text \<open>The binary search never returns the first element without having compared it, so the assertion before
  \<open>--transI\<close> holds even for transitions in no order.\<close>

lemma lower_bound_ge: "first \<le> lower_bound cmp xs v first len"
proof (induction cmp xs v first len rule: lower_bound.induct)
  case (1 cmp xs v first len)
  show ?case
  proof (cases "0 < len \<and> cmp (xs ! (first + len div 2)) v")
    case True
    have "Suc (first + len div 2) \<le> lower_bound cmp xs v (Suc (first + len div 2)) (len - len div 2 - 1)"
      by (rule "1.IH"(1)) (use True in auto)
    then show ?thesis using True by (subst lower_bound.simps) (simp add: Let_def)
  next
    case False
    then show ?thesis using "1.IH"(2)[OF _ refl refl] by (subst lower_bound.simps) (auto simp: Let_def)
  qed
qed

lemma lower_bound_first:
  assumes "lower_bound cmp xs v first len = first" "0 < len"
  shows "\<not> cmp (xs ! first) v"
  using assms
proof (induction cmp xs v first len rule: lower_bound.induct)
  case (1 cmp xs v first len)
  show ?case
  proof (cases "cmp (xs ! (first + len div 2)) v")
    case True
    then have "Suc (first + len div 2) \<le> first"
      using "1.prems" lower_bound_ge[of "Suc (first + len div 2)" cmp xs v "len - Suc (len div 2)"] True by (subst (asm) lower_bound.simps) (simp add: Let_def)
    then show ?thesis by simp
  next
    case False
    then have *: "lower_bound cmp xs v first (len div 2) = first"
      using "1.prems" by (subst (asm) lower_bound.simps) (simp add: Let_def)
    show ?thesis
    proof (cases "len div 2 = 0")
      case True
      then show ?thesis using False by simp
    next
      case half: False
      then show ?thesis using "1.IH"(2)[OF _ refl refl] "1.prems"(2) False * by simp
    qed
  qed
qed

lemma Comp_trichotomy: "\<not> Comp_less gmt a b \<Longrightarrow> \<not> Comp_less gmt b a \<Longrightarrow> Comp_equal gmt a b"
  by (simp add: Comp_less_def Comp_equal_def split: if_splits)

lemma findLocaltime_total:
  assumes "storable d" "localtimes d \<noteq> []"
  shows "findLocaltime d sentry gmt \<noteq> None"
proof -
  let ?ts = "transitions d"
  let ?i = "lower_bound (Comp_less gmt) ?ts sentry 0 (length ?ts)"
  have idx: "\<exists>y. nth_opt (localtimes d) (localtimeIdx t) = Some y" if "t \<in> set ?ts" for t
    using assms(1) that by (simp add: storable_def nth_opt_def)
  have "\<not> Comp_less gmt (?ts ! 0) sentry" if "?i = 0" "?ts \<noteq> []"
    using lower_bound_first[of "Comp_less gmt" ?ts sentry 0 "length ?ts"] that by simp
  then have "Comp_equal gmt sentry (?ts ! 0)" if "?i = 0" "?ts \<noteq> []" "\<not> Comp_less gmt sentry (hd ?ts)"
    using that by (intro Comp_trichotomy) (simp_all add: hd_conv_nth)
  then show ?thesis
    using assms(2) by (auto simp: findLocaltime_def Let_def nth_opt_def[of _ 0] intro!: idx)
qed

text \<open>Where the reader runs into undefined behaviour, by the bytes of the file: 44 bytes of header with the counts at
  their places, the times, one byte for the type of each, six bytes for each type.\<close>

definition int32_at :: "bytes \<Rightarrow> nat \<Rightarrow> int" where
  "int32_at content i = wrap32 (be_value (take 4 (drop i content)))"

definition zone_fault :: "bytes \<Rightarrow> bool" where
  "zone_fault content \<longleftrightarrow>
     (let timecnt = nat (int32_at content 32); typecnt = nat (int32_at content 36)
      in take 4 content = ''TZif'' \<and> 0 \<le> int32_at content 32 \<and> 44 + 5 * timecnt + 6 * typecnt \<le> length content
        \<and> (list_ex (\<lambda>c. int typecnt \<le> of_char c) (take timecnt (drop (44 + 4 * timecnt) content)) \<or> int32_at content 40 < 0))"

lemma read_n_readInt32:
  "read_n n readInt32 f = (if 4 * n \<le> length f then Inr (map (\<lambda>i. int32_at f (4 * i)) [0 ..< n], drop (4 * n) f)
     else Inl ''bad int32_t data'')"
proof (induction n arbitrary: f)
  case (Suc n)
  have "map (\<lambda>i. int32_at f (4 * i)) [0 ..< Suc n] = int32_at f 0 # map (\<lambda>i. int32_at (drop 4 f) (4 * i)) [0 ..< n]"
    by (simp add: upt_conv_Cons int32_at_def add.commute flip: map_Suc_upt del: upt_Suc)
  then show ?case using Suc[of "drop 4 f"] by (auto simp: readInt32_def int32_at_def add.commute simp del: upt_Suc)
qed simp

lemma read_n_readUInt8:
  "read_n n readUInt8 f = (if n \<le> length f then Inr (map of_char (take n f), drop n f) else Inl ''bad uint8_t data'')"
proof (induction n arbitrary: f)
  case (Suc n)
  then show ?case by (cases f) (auto simp: readUInt8_def)
qed simp

lemma read_types_length:
  "if 6 * n \<le> length f then \<exists>ls. length ls = n \<and> read_types n f acc = (acc @ ls, Inr (drop (6 * n) f))
   else \<exists>ls e. read_types n f acc = (ls, Inl e)"
proof (induction n arbitrary: f acc)
  case (Suc n)
  show ?case
  proof (cases "6 \<le> length f")
    case True
    then have "2 \<le> length (drop 4 f)" by simp
    then obtain x y r where f: "drop 4 f = x # y # r" by (cases "drop 4 f"; cases "tl (drop 4 f)") auto
    then have r: "r = drop 6 f" by (metis drop_drop drop_Suc_Cons drop0 numeral_2_eq_2 numeral_Bit0 add_2_eq_Suc' eval_nat_numeral(2) numeral_plus_numeral semiring_norm(3,5))
    let ?l = "\<lparr>gmtOffset = wrap32 (be_value (take 4 f)), isDst = (of_char x \<noteq> (0 :: int)), arrbIdx = of_char y\<rparr>"
    have "read_types (Suc n) f acc = read_types n (drop 6 f) (acc @ [?l])"
      using True f r by (simp add: readInt32_def readUInt8_def)
    with Suc[of "drop 6 f" "acc @ [?l]"] True show ?thesis
      by (auto simp: add.commute intro: exI[of _ "?l # _"] split: if_splits)
  next
    case False
    then show ?thesis
      by (cases "drop 4 f"; cases "tl (drop 4 f)") (auto simp: readInt32_def readUInt8_def dest: arg_cong[of _ _ length])
  qed
qed simp

lemma make_transitions_None:
  "length ts = length idxs \<Longrightarrow> make_transitions lts (zip ts idxs) = None \<longleftrightarrow> (\<exists>i\<in>set idxs. nth_opt lts i = None)"
  by (induction ts idxs rule: list_induct2) (auto split: option.splits)

lemma int32_at_drop: "int32_at (drop k f) i = int32_at f (k + i)"
  by (simp add: int32_at_def add.commute)

lemma read_header_at:
  "if 44 \<le> length f \<and> take 4 f = ''TZif'' \<and> 0 \<le> int32_at f 32
   then read_header f = Inr ((int32_at f 32, int32_at f 36, int32_at f 40), drop 44 f)
   else \<exists>e. read_header f = Inl e"
proof -
  have u: "map (\<lambda>i. int32_at g (4 * i)) [0 ..< 6] ! 3 = int32_at g 12" "map (\<lambda>i. int32_at g (4 * i)) [0 ..< 6] ! 4 = int32_at g 16"
    "map (\<lambda>i. int32_at g (4 * i)) [0 ..< 6] ! 5 = int32_at g 20" for g
    by simp_all
  have b: "readBytes n g = (if n \<le> length g then Inr (take n g, drop n g) else Inl ''no enough data'')" for n g
    by (simp add: readBytes_def)
  show ?thesis
    unfolding read_header_def read_n_readInt32
    by (auto simp: b u int32_at_drop simp del: upt_Suc map_map)
qed

lemma read_times_at:
  assumes "0 \<le> timecnt"
  shows "if 5 * nat timecnt \<le> length f
   then \<exists>trs. length trs = nat timecnt \<and>
     read_times timecnt f = Inr ((trs, map of_char (take (nat timecnt) (drop (4 * nat timecnt) f))), drop (5 * nat timecnt) f)
   else \<exists>e. read_times timecnt f = Inl e"
  by (auto simp: read_times_def read_n_readInt32 read_n_readUInt8 add.commute simp del: upt_Suc)

text \<open>The reader is undefined exactly on these files.\<close>

lemma read_zone_None: "read_zone content Data_empty = None \<longleftrightarrow> zone_fault content"
proof (cases "44 \<le> length content \<and> take 4 content = ''TZif'' \<and> 0 \<le> int32_at content 32")
  case False
  then show ?thesis using read_header_at[of content] by (auto simp: read_zone_def zone_fault_def Let_def)
next
  case True
  let ?n = "nat (int32_at content 32)" and ?k = "nat (int32_at content 36)"
  let ?idx = "map of_char (take ?n (drop (44 + 4 * ?n) content)) :: int list"
  have h: "read_header content = Inr ((int32_at content 32, int32_at content 36, int32_at content 40), drop 44 content)"
    using read_header_at[of content] True by simp
  show ?thesis
  proof (cases "5 * ?n \<le> length (drop 44 content)")
    case False
    then show ?thesis using read_times_at[of "int32_at content 32" "drop 44 content"] True h
      by (auto simp: read_zone_def zone_fault_def Let_def)
  next
    case t: True
    then obtain trs where t2: "length trs = ?n"
      "read_times (int32_at content 32) (drop 44 content) = Inr ((trs, ?idx), drop (44 + 5 * ?n) content)"
      using read_times_at[of "int32_at content 32" "drop 44 content"] True by (auto simp: add.commute)
    show ?thesis
    proof (cases "6 * ?k \<le> length (drop (44 + 5 * ?n) content)")
      case False
      then obtain ls e where "read_types ?k (drop (44 + 5 * ?n) content) [] = (ls, Inl e)"
        using read_types_length[of ?k "drop (44 + 5 * ?n) content" "[]"] by auto
      with False h t2 show ?thesis by (auto simp: read_zone_def zone_fault_def Let_def Data_empty_def)
    next
      case ty: True
      then obtain ls where ls: "length ls = ?k"
        "read_types ?k (drop (44 + 5 * ?n) content) [] = (ls, Inr (drop (6 * ?k) (drop (44 + 5 * ?n) content)))"
        using read_types_length[of ?k "drop (44 + 5 * ?n) content" "[]"] by auto
      have len: "length ?idx = ?n" "44 + 5 * ?n + 6 * ?k \<le> length content" using t ty True by auto
      have "make_transitions ls (zip trs ?idx) = None \<longleftrightarrow> (\<exists>i\<in>set ?idx. nth_opt ls i = None)"
        by (rule make_transitions_None) (simp only: len(1) t2(1))
      also have "\<dots> \<longleftrightarrow> list_ex (\<lambda>c. int ?k \<le> of_char c) (take ?n (drop (44 + 4 * ?n) content))"
        by (auto simp: nth_opt_def ls(1) list_ex_iff not_less of_char_int_range)
      finally have m: "make_transitions ls (zip trs ?idx) = None \<longleftrightarrow> list_ex (\<lambda>c. int ?k \<le> of_char c) (take ?n (drop (44 + 4 * ?n) content))" .
      show ?thesis
      proof (cases "make_transitions ls (zip trs ?idx)")
        case None
        then show ?thesis using True h t2(2) ls(2) m len(2) by (simp add: read_zone_def zone_fault_def Let_def Data_empty_def)
      next
        case (Some ts)
        then show ?thesis using True h t2(2) ls(2) m len(2)
          by (simp add: read_zone_def zone_fault_def Let_def Data_empty_def split: sum.split prod.split)
      qed
    qed
  qed
qed

text \<open>C26: What the reader stores, whatever the bytes of the file.  Either the file has the layout of a zone file with a
  transition whose type index lies outside the types, or with a negative number of abbreviation bytes, where the code
  indexes a vector out of range or declares an array of negative size; or the reader comes back with
  data that a zone file can hold: numbers in the range of their fields, every index of a transition within the
  types, its local time computed with that type, also when the file is cut off or is no zone file.  On such
  data the search for the type of a time never fails, in whatever order the transitions are, as long as there is a type.\<close>

theorem zone_file_type:
  "case readTimeZoneFile (Some content) Data_empty of
     None \<Rightarrow> zone_fault content
   | Some (ok, d) \<Rightarrow> \<not> zone_fault content \<and> ok \<and> storable d
       \<and> (localtimes d \<noteq> [] \<longrightarrow> findLocaltime d sentry gmt \<noteq> None)"
proof (cases "read_zone content Data_empty")
  case None
  then have "zone_fault content" using read_zone_None[of content] by simp
  with None show ?thesis by (simp add: readTimeZoneFile_def)
next
  case (Some x)
  then have "\<not> zone_fault content" using read_zone_None[of content] by simp
  moreover obtain d e where "x = (d, e)" by (cases x)
  ultimately show ?thesis using Some read_zone_storable findLocaltime_total by (auto simp: readTimeZoneFile_def)
qed

text \<open>A file of one transition whose type 0 does not exist.\<close>

definition faulty_zone :: bytes where
  "faulty_zone = ''TZif2'' @ replicate 15 NUL @ replicate 15 NUL @ [CHR 0x01] @ replicate 8 NUL @ replicate 5 NUL"

theorem zone_file_type_witness:
  "zone_fault faulty_zone \<and> readTimeZoneFile (Some faulty_zone) Data_empty = None
    \<and> (\<exists>d l. readTimeZoneFile (Some (zone_file 0 0 0 CHR ''2'' demo_zone ''TZif2'')) Data_empty = Some (True, d) \<and> storable d
        \<and> findLocaltime d \<lparr>gmttime = 1500000, localtime = 0, localtimeIdx = 0\<rparr> True = Some l)"
proof -
  have f: "readTimeZoneFile (Some faulty_zone) Data_empty = None" by code_simp
  then have "zone_fault faulty_zone" using zone_file_type[of faulty_zone] by simp
  moreover have r: "readTimeZoneFile (Some (zone_file 0 0 0 CHR ''2'' demo_zone ''TZif2'')) Data_empty = Some (True, demo_zone)"
    by (rule zone_file_read) (auto simp: storable_def demo_zone_def fits_i32_def)
  have "storable demo_zone \<and> findLocaltime demo_zone \<lparr>gmttime = 1500000, localtime = 0, localtimeIdx = 0\<rparr> True \<noteq> None"
    using zone_file_type[of "zone_file 0 0 0 CHR ''2'' demo_zone ''TZif2''" "\<lparr>gmttime = 1500000, localtime = 0, localtimeIdx = 0\<rparr>" True] r
    by (simp add: demo_zone_def)
  ultimately show ?thesis using f r by auto
qed

end
