(* ===== verification/Sync.thy ===== *)
theory Sync
  imports Prelude
begin

text \<open>Synchronisation (Mutex.h, Condition.h, Condition.cc, CountDownLatch.h, CountDownLatch.cc, Atomic.h).

  The mutex is modelled instruction by instruction, with the pthread mutex and the field \<open>holder_\<close> apart,
  so that \<open>assertLocked\<close> means something; condition variables by the set of threads that wait; the latch by
  its critical sections.  A thread is named by its tid, a positive number.\<close>

section \<open>Mutex and condition variable\<close>

record MutexLock =
  mutex_owner :: "int option"
  holder :: int

definition MutexLock_new :: MutexLock where
  "MutexLock_new = \<lparr>mutex_owner = None, holder = 0\<rparr>"

definition assignHolder :: "int \<Rightarrow> MutexLock \<Rightarrow> MutexLock" where
  "assignHolder tid m = m\<lparr>holder := tid\<rparr>"

definition unassignHolder :: "MutexLock \<Rightarrow> MutexLock" where
  "unassignHolder m = m\<lparr>holder := 0\<rparr>"

definition isLockedByThisThread :: "int \<Rightarrow> MutexLock \<Rightarrow> bool" where
  "isLockedByThisThread tid m \<longleftrightarrow> holder m = tid"

text \<open>\<open>pthread_mutex_lock\<close> returns when the mutex is free; \<open>pthread_mutex_unlock\<close> frees it.\<close>

definition pthread_mutex_lock :: "int \<Rightarrow> MutexLock \<Rightarrow> MutexLock option" where
  "pthread_mutex_lock tid m = (if mutex_owner m = None then Some (m\<lparr>mutex_owner := Some tid\<rparr>) else None)"

definition pthread_mutex_unlock :: "MutexLock \<Rightarrow> MutexLock" where
  "pthread_mutex_unlock m = m\<lparr>mutex_owner := None\<rparr>"

text \<open>Where a thread is inside \<open>lock\<close>, \<open>unlock\<close> and \<open>Condition::wait\<close>: outside; holding the pthread mutex
  before \<open>assignHolder\<close>; in the critical section; after \<open>unassignHolder\<close>, about to unlock or about to wait;
  waiting; woken up and waiting for the mutex; holding it again before the guard's destructor.\<close>

datatype mutex_pc = Outside | Acquired | Inside | Unlocking | Unguarded | Asleep | Awake | Reacquired

record mutex_system =
  sys_mutex :: MutexLock
  sys_pc :: "int \<Rightarrow> mutex_pc"

definition mutex_system_new :: mutex_system where
  "mutex_system_new = \<lparr>sys_mutex = MutexLock_new, sys_pc = (\<lambda>t. Outside)\<rparr>"

definition goto_pc :: "int \<Rightarrow> mutex_pc \<Rightarrow> (MutexLock \<Rightarrow> MutexLock) \<Rightarrow> mutex_system \<Rightarrow> mutex_system" where
  "goto_pc t pc f s = s\<lparr>sys_mutex := f (sys_mutex s), sys_pc := (sys_pc s)(t := pc)\<rparr>"

text \<open>\<open>lock\<close> is the steps \<open>lock\<close> and \<open>assign\<close>, \<open>unlock\<close> is \<open>unassign\<close> and \<open>unlock\<close>; \<open>wait\<close> is \<open>unguard\<close> (the
  guard's constructor), \<open>sleep\<close> (the pthread call frees the mutex), \<open>wake\<close> (a notification, the timeout or
  nothing at all), \<open>relock\<close> and \<open>reguard\<close> (the guard's destructor).\<close>

inductive mutex_step :: "mutex_system \<Rightarrow> mutex_system \<Rightarrow> bool" where
  lock: "0 < t \<Longrightarrow> sys_pc s t = Outside \<Longrightarrow> pthread_mutex_lock t (sys_mutex s) = Some m \<Longrightarrow>
     mutex_step s (goto_pc t Acquired (\<lambda>_. m) s)"
| assign: "sys_pc s t = Acquired \<Longrightarrow> mutex_step s (goto_pc t Inside (assignHolder t) s)"
| unassign: "sys_pc s t = Inside \<Longrightarrow> mutex_step s (goto_pc t Unlocking unassignHolder s)"
| unlock: "sys_pc s t = Unlocking \<Longrightarrow> mutex_step s (goto_pc t Outside pthread_mutex_unlock s)"
| unguard: "sys_pc s t = Inside \<Longrightarrow> mutex_step s (goto_pc t Unguarded unassignHolder s)"
| sleep: "sys_pc s t = Unguarded \<Longrightarrow> mutex_step s (goto_pc t Asleep pthread_mutex_unlock s)"
| wake: "sys_pc s t = Asleep \<Longrightarrow> mutex_step s (goto_pc t Awake id s)"
| relock: "sys_pc s t = Awake \<Longrightarrow> pthread_mutex_lock t (sys_mutex s) = Some m \<Longrightarrow>
     mutex_step s (goto_pc t Reacquired (\<lambda>_. m) s)"
| reguard: "sys_pc s t = Reacquired \<Longrightarrow> mutex_step s (goto_pc t Inside (assignHolder t) s)"

inductive mutex_reachable :: "mutex_system \<Rightarrow> bool" where
  init: "mutex_reachable mutex_system_new"
| step: "mutex_reachable s \<Longrightarrow> mutex_step s s' \<Longrightarrow> mutex_reachable s'"

definition owns :: "mutex_pc \<Rightarrow> bool" where
  "owns pc \<longleftrightarrow> pc \<in> {Acquired, Inside, Unlocking, Unguarded, Reacquired}"

definition mutex_inv :: "mutex_system \<Rightarrow> bool" where
  "mutex_inv s \<longleftrightarrow>
     (\<forall>t. owns (sys_pc s t) \<longleftrightarrow> mutex_owner (sys_mutex s) = Some t)
     \<and> (\<forall>t. sys_pc s t \<noteq> Outside \<longrightarrow> 0 < t)
     \<and> holder (sys_mutex s) = (case mutex_owner (sys_mutex s) of
          Some t \<Rightarrow> if sys_pc s t = Inside then t else 0 | None \<Rightarrow> 0)"

lemmas mutex_defs = goto_pc_def assignHolder_def unassignHolder_def pthread_mutex_unlock_def pthread_mutex_lock_def

lemma mutex_step_inv:
  assumes "mutex_step s s'" "mutex_inv s"
  shows "mutex_inv s'"
  using assms
proof (cases rule: mutex_step.cases)
  case (lock t m)
  then show ?thesis using assms(2)
    by (auto simp: mutex_inv_def mutex_defs owns_def split: if_splits option.splits)
next
  case (assign t)
  then have "mutex_owner (sys_mutex s) = Some t" using assms(2) by (auto simp: mutex_inv_def owns_def)
  then show ?thesis using assms(2) assign by (auto simp: mutex_inv_def mutex_defs owns_def)
next
  case (unassign t)
  then have "mutex_owner (sys_mutex s) = Some t" using assms(2) by (auto simp: mutex_inv_def owns_def)
  then show ?thesis using assms(2) unassign by (auto simp: mutex_inv_def mutex_defs owns_def)
next
  case (unlock t)
  then have "mutex_owner (sys_mutex s) = Some t" using assms(2) by (auto simp: mutex_inv_def owns_def)
  then show ?thesis using assms(2) unlock by (auto simp: mutex_inv_def mutex_defs owns_def)
next
  case (unguard t)
  then have "mutex_owner (sys_mutex s) = Some t" using assms(2) by (auto simp: mutex_inv_def owns_def)
  then show ?thesis using assms(2) unguard by (auto simp: mutex_inv_def mutex_defs owns_def)
next
  case (sleep t)
  then have "mutex_owner (sys_mutex s) = Some t" using assms(2) by (auto simp: mutex_inv_def owns_def)
  then show ?thesis using assms(2) sleep by (auto simp: mutex_inv_def mutex_defs owns_def)
next
  case (wake t)
  then have "\<not> owns (sys_pc s t)" by (simp add: owns_def)
  then have "mutex_owner (sys_mutex s) \<noteq> Some t" using assms(2) by (simp add: mutex_inv_def)
  then show ?thesis using assms(2) wake by (auto simp: mutex_inv_def mutex_defs owns_def split: option.splits)
next
  case (relock t m)
  then show ?thesis using assms(2)
    by (auto simp: mutex_inv_def mutex_defs owns_def split: if_splits option.splits)
next
  case (reguard t)
  then have "mutex_owner (sys_mutex s) = Some t" using assms(2) by (auto simp: mutex_inv_def owns_def)
  then show ?thesis using assms(2) reguard by (auto simp: mutex_inv_def mutex_defs owns_def)
qed

lemma mutex_reachable_inv: "mutex_reachable s \<Longrightarrow> mutex_inv s"
proof (induction rule: mutex_reachable.induct)
  case init
  then show ?case by (auto simp: mutex_inv_def mutex_system_new_def MutexLock_new_def owns_def)
next
  case (step s s')
  then show ?case by (simp add: mutex_step_inv)
qed

text \<open>C20: Mutual exclusion, and what \<open>assertLocked\<close> is worth: in every reachable state of any number of
  threads that lock, unlock and wait, at most one thread is in the critical section, and \<open>holder_\<close> is that
  thread's tid exactly while it is there, also after a wait; so \<open>isLockedByThisThread\<close> is true for a thread
  exactly when it is in the critical section.\<close>

theorem mutual_exclusion:
  assumes "mutex_reachable s" "0 < t" "0 < u"
  shows "(sys_pc s t = Inside \<and> sys_pc s u = Inside \<longrightarrow> t = u)
    \<and> (isLockedByThisThread t (sys_mutex s) \<longleftrightarrow> sys_pc s t = Inside)"
proof -
  have i: "mutex_inv s" using mutex_reachable_inv[OF assms(1)] .
  have o: "mutex_owner (sys_mutex s) = Some v" if "sys_pc s v = Inside" for v
    using i that by (auto simp: mutex_inv_def owns_def)
  have "isLockedByThisThread t (sys_mutex s) \<longleftrightarrow> sys_pc s t = Inside"
    using i o[of t] assms(2)
    by (auto simp: isLockedByThisThread_def mutex_inv_def split: option.splits if_splits)
  then show ?thesis using o[of t] o[of u] by auto
qed

theorem mutual_exclusion_witness:
  "\<exists>s. mutex_reachable s \<and> sys_pc s 7 = Inside \<and> isLockedByThisThread 7 (sys_mutex s) \<and> sys_pc s 8 \<noteq> Inside"
proof -
  let ?s1 = "goto_pc 7 Acquired (\<lambda>_. \<lparr>mutex_owner = Some 7, holder = 0\<rparr>) mutex_system_new"
  let ?s2 = "goto_pc 7 Inside (assignHolder 7) ?s1"
  have "mutex_step mutex_system_new ?s1"
    by (rule mutex_step.lock) (simp_all add: mutex_system_new_def MutexLock_new_def pthread_mutex_lock_def)
  moreover have "mutex_step ?s1 ?s2" by (rule mutex_step.assign) (simp add: goto_pc_def)
  ultimately have r: "mutex_reachable ?s2" by (blast intro: mutex_reachable.intros)
  have "sys_pc ?s2 7 = Inside" by (simp add: goto_pc_def)
  then show ?thesis using r mutual_exclusion[OF r, of 7 8] by auto
qed

text \<open>The end of a mutex.  \<open>pthread_mutex_destroy\<close> refuses a mutex that is locked; \<open>MCHECK\<close> is the assertion
  around the pthread calls.\<close>

definition MCHECK :: "int \<Rightarrow> unit option" where
  "MCHECK ret = (if ret = 0 then Some () else None)"

definition assertLocked :: "int \<Rightarrow> MutexLock \<Rightarrow> unit option" where
  "assertLocked tid m = (if isLockedByThisThread tid m then Some () else None)"

definition EBUSY :: int where
  "EBUSY = 16"

definition pthread_mutex_destroy :: "MutexLock \<Rightarrow> int" where
  "pthread_mutex_destroy m = (if mutex_owner m = None then 0 else EBUSY)"

definition MutexLock_destroy :: "MutexLock \<Rightarrow> unit option" where
  "MutexLock_destroy m = (if holder m = 0 then MCHECK (pthread_mutex_destroy m) else None)"

text \<open>The destructor fails exactly when a thread still holds the mutex; the assertion on \<open>holder_\<close> alone would
  miss a thread between \<open>unassignHolder\<close> and \<open>pthread_mutex_unlock\<close>.\<close>

lemma MutexLock_destroy_iff:
  assumes "mutex_reachable s"
  shows "MutexLock_destroy (sys_mutex s) = Some () \<longleftrightarrow> (\<forall>t. \<not> owns (sys_pc s t))"
  using mutex_reachable_inv[OF assms]
  by (auto simp: MutexLock_destroy_def MCHECK_def pthread_mutex_destroy_def EBUSY_def mutex_inv_def split: option.splits)

lemma assertLocked_iff:
  assumes "mutex_reachable s" "0 < t"
  shows "assertLocked t (sys_mutex s) = Some () \<longleftrightarrow> sys_pc s t = Inside"
proof -
  have i: "mutex_inv s" by (rule mutex_reachable_inv[OF assms(1)])
  have "mutex_owner (sys_mutex s) = Some t" if "sys_pc s t = Inside"
    using i that by (auto simp: mutex_inv_def owns_def)
  then show ?thesis
    using i assms(2) by (auto simp: assertLocked_def isLockedByThisThread_def mutex_inv_def split: option.splits if_splits)
qed

subsection \<open>The time-limited wait\<close>

definition kNanoSecondsPerSecond :: int where
  "kNanoSecondsPerSecond = 1000000000"

text \<open>\<open>waitForSeconds\<close>: the deadline computed from the current time and the (already converted) number of
  nanoseconds, and the result made of the code that \<open>pthread_cond_timedwait\<close> returns.\<close>

definition wait_deadline :: "int \<times> int \<Rightarrow> int \<Rightarrow> int \<times> int" where
  "wait_deadline now nanoseconds =
     (case now of (tv_sec, tv_nsec) \<Rightarrow>
        (tv_sec + (tv_nsec + nanoseconds) sdiv kNanoSecondsPerSecond,
         (tv_nsec + nanoseconds) smod kNanoSecondsPerSecond))"

definition ETIMEDOUT :: int where
  "ETIMEDOUT = 110"

definition waitForSeconds_result :: "int \<Rightarrow> bool" where
  "waitForSeconds_result rc \<longleftrightarrow> rc = ETIMEDOUT"

text \<open>The deadline of a wait of non-negative length is a proper time specification and lies exactly that
  length after now; the result is true exactly for a timeout (the comment in the code says the
  opposite).\<close>

theorem waitForSeconds_deadline:
  assumes "0 \<le> tv_nsec" "tv_nsec < kNanoSecondsPerSecond" "0 \<le> nanoseconds"
  shows "(case wait_deadline (tv_sec, tv_nsec) nanoseconds of (s, n) \<Rightarrow>
      0 \<le> n \<and> n < kNanoSecondsPerSecond
      \<and> s * kNanoSecondsPerSecond + n = tv_sec * kNanoSecondsPerSecond + tv_nsec + nanoseconds)
    \<and> (waitForSeconds_result rc \<longleftrightarrow> rc = ETIMEDOUT)"
proof -
  have k: "0 < kNanoSecondsPerSecond" by (simp add: kNanoSecondsPerSecond_def)
  let ?x = "tv_nsec + nanoseconds"
  have "?x div kNanoSecondsPerSecond * kNanoSecondsPerSecond + ?x mod kNanoSecondsPerSecond = ?x" by simp
  then show ?thesis
    using assms k by (simp add: wait_deadline_def sdiv_nonneg smod_nonneg waitForSeconds_result_def distrib_right)
qed

theorem waitForSeconds_deadline_witness:
  "wait_deadline (10, 999999999) 3000000001 = (14, 0) \<and> \<not> waitForSeconds_result 0"
  using waitForSeconds_deadline[of 999999999 3000000001 10 0]
  by (simp add: kNanoSecondsPerSecond_def ETIMEDOUT_def wait_deadline_def sdiv_nonneg smod_nonneg)

section \<open>CountDownLatch\<close>

text \<open>The threads in \<open>wait\<close> are asleep or woken up and on their way back to the test; \<open>latch_passed\<close> are the
  threads whose \<open>wait\<close> has returned.  Each rule is one critical section.\<close>

record latch =
  latch_count :: int
  latch_asleep :: "int set"
  latch_awake :: "int set"
  latch_passed :: "int set"

definition CountDownLatch_new :: "int \<Rightarrow> latch" where
  "CountDownLatch_new count = \<lparr>latch_count = count, latch_asleep = {}, latch_awake = {}, latch_passed = {}\<rparr>"

text \<open>The loop test of \<open>wait\<close>, on entry and after each wake-up.\<close>

definition latch_test :: "int \<Rightarrow> latch \<Rightarrow> latch" where
  "latch_test t l =
     (if 0 < latch_count l then l\<lparr>latch_asleep := insert t (latch_asleep l)\<rparr>
      else l\<lparr>latch_passed := insert t (latch_passed l)\<rparr>)"

definition latch_wakeup :: "int set \<Rightarrow> latch \<Rightarrow> latch" where
  "latch_wakeup ts l = l\<lparr>latch_asleep := latch_asleep l - ts, latch_awake := latch_awake l \<union> ts\<rparr>"

definition latch_countDown :: "latch \<Rightarrow> latch" where
  "latch_countDown l =
     (let l1 = l\<lparr>latch_count := latch_count l - 1\<rparr> in
      if latch_count l1 = 0 then latch_wakeup (latch_asleep l1) l1 else l1)"

definition latch_getCount :: "latch \<Rightarrow> int" where
  "latch_getCount l = latch_count l"

inductive latch_step :: "latch \<Rightarrow> latch \<Rightarrow> bool" where
  wait: "t \<notin> latch_asleep l \<union> latch_awake l \<Longrightarrow> latch_step l (latch_test t l)"
| countDown: "latch_step l (latch_countDown l)"
| spurious: "t \<in> latch_asleep l \<Longrightarrow> latch_step l (latch_wakeup {t} l)"
| resume: "t \<in> latch_awake l \<Longrightarrow> latch_step l (latch_test t (l\<lparr>latch_awake := latch_awake l - {t}\<rparr>))"

inductive_cases latch_stepE: "latch_step l l'"

inductive latch_reachable :: "int \<Rightarrow> latch \<Rightarrow> bool" for count where
  init: "latch_reachable count (CountDownLatch_new count)"
| step: "latch_reachable count l \<Longrightarrow> latch_step l l' \<Longrightarrow> latch_reachable count l'"

definition latch_inv :: "latch \<Rightarrow> bool" where
  "latch_inv l \<longleftrightarrow> (latch_count l \<le> 0 \<longrightarrow> latch_asleep l = {}) \<and> (latch_passed l \<noteq> {} \<longrightarrow> latch_count l \<le> 0)"

lemma latch_step_inv: "latch_step l l' \<Longrightarrow> latch_inv l \<Longrightarrow> latch_inv l'"
  by (erule latch_stepE)
    (auto simp: latch_inv_def latch_test_def latch_wakeup_def latch_countDown_def Let_def)

lemma latch_reachable_inv: "latch_reachable count l \<Longrightarrow> latch_inv l"
proof (induction rule: latch_reachable.induct)
  case init
  then show ?case by (simp add: latch_inv_def CountDownLatch_new_def)
next
  case (step l l')
  then show ?case by (simp add: latch_step_inv)
qed

text \<open>C24: The latch loses no wake-up and lets nobody through early: in every reachable state, a thread has
  come through \<open>wait\<close> only if the count has reached 0, and once it has, no thread is asleep; every thread
  still in \<open>wait\<close> is awake, and its next step takes it through.\<close>

theorem latch_no_lost_wakeup:
  assumes "latch_reachable count l"
  shows "(latch_passed l \<noteq> {} \<longrightarrow> latch_count l \<le> 0)
    \<and> (latch_count l \<le> 0 \<longrightarrow> latch_asleep l = {}
        \<and> (\<forall>t \<in> latch_awake l. \<exists>l'. latch_step l l' \<and> t \<in> latch_passed l'))"
proof -
  have i: "latch_inv l" using latch_reachable_inv[OF assms] .
  have "\<exists>l'. latch_step l l' \<and> t \<in> latch_passed l'" if "t \<in> latch_awake l" "latch_count l \<le> 0" for t
    using latch_step.resume[OF that(1)] that(2)
    by (intro exI[of _ "latch_test t (l\<lparr>latch_awake := latch_awake l - {t}\<rparr>)"]) (simp add: latch_test_def)
  then show ?thesis using i by (auto simp: latch_inv_def)
qed

theorem latch_no_lost_wakeup_witness:
  "\<exists>l. latch_reachable 1 l \<and> latch_count l = 0 \<and> latch_awake l = {5} \<and> (\<exists>l'. latch_step l l' \<and> 5 \<in> latch_passed l')"
proof -
  let ?l0 = "CountDownLatch_new 1"
  let ?l1 = "latch_test 5 ?l0"
  let ?l2 = "latch_countDown ?l1"
  have "latch_step ?l0 ?l1" by (rule latch_step.wait) (simp add: CountDownLatch_new_def)
  then have r: "latch_reachable 1 ?l2"
    by (blast intro: latch_reachable.intros latch_step.countDown)
  have "latch_count ?l2 = 0" "latch_awake ?l2 = {5}"
    by (simp_all add: latch_countDown_def latch_test_def latch_wakeup_def CountDownLatch_new_def)
  then show ?thesis using r latch_no_lost_wakeup[OF r] by auto
qed

section \<open>Atomic integers\<close>

text \<open>\<open>AtomicIntegerT<int32_t>\<close> and \<open><int64_t>\<close>: each member is one atomic read-modify-write, which returns a
  value and leaves the new one; the arithmetic wraps around.\<close>

definition atomic_get :: "'a::len word \<Rightarrow> 'a word \<times> 'a word" where
  "atomic_get v = (v, if v = 0 then 0 else v)"

definition atomic_getAndAdd :: "'a::len word \<Rightarrow> 'a word \<Rightarrow> 'a word \<times> 'a word" where
  "atomic_getAndAdd x v = (v, v + x)"

definition atomic_addAndGet :: "'a::len word \<Rightarrow> 'a word \<Rightarrow> 'a word \<times> 'a word" where
  "atomic_addAndGet x v = (case atomic_getAndAdd x v of (old, v') \<Rightarrow> (old + x, v'))"

definition atomic_incrementAndGet :: "'a::len word \<Rightarrow> 'a word \<times> 'a word" where
  "atomic_incrementAndGet v = atomic_addAndGet 1 v"

definition atomic_decrementAndGet :: "'a::len word \<Rightarrow> 'a word \<times> 'a word" where
  "atomic_decrementAndGet v = atomic_addAndGet (- 1) v"

definition atomic_add :: "'a::len word \<Rightarrow> 'a word \<Rightarrow> 'a word" where
  "atomic_add x v = snd (atomic_getAndAdd x v)"

definition atomic_increment :: "'a::len word \<Rightarrow> 'a word" where
  "atomic_increment v = snd (atomic_incrementAndGet v)"

definition atomic_decrement :: "'a::len word \<Rightarrow> 'a word" where
  "atomic_decrement v = snd (atomic_decrementAndGet v)"

definition atomic_getAndSet :: "'a::len word \<Rightarrow> 'a word \<Rightarrow> 'a word \<times> 'a word" where
  "atomic_getAndSet newValue v = (v, newValue)"

lemma atomic_addAndGet_is_new: "atomic_addAndGet x v = (v + x, v + x)"
  by (simp add: atomic_addAndGet_def atomic_getAndAdd_def)

text \<open>Increments of any threads, in any order, give out the numbers 1, 2, 3, ... without a gap or a
  repetition (until the type wraps around).\<close>

fun increments :: "nat \<Rightarrow> 'a::len word \<Rightarrow> 'a word list \<times> 'a word" where
  "increments 0 v = ([], v)"
| "increments (Suc n) v =
     (case atomic_incrementAndGet v of (r, v1) \<Rightarrow> case increments n v1 of (rs, v2) \<Rightarrow> (r # rs, v2))"

lemma increments_correct:
  "increments n v = (map (\<lambda>i. v + of_nat (Suc i)) [0..<n], v + of_nat n)"
proof (induction n arbitrary: v)
  case 0
  then show ?case by simp
next
  case (Suc n)
  have "increments (Suc n) v = ((v + 1) # map (\<lambda>i. v + 1 + of_nat (Suc i)) [0..<n], v + 1 + of_nat n)"
    by (simp add: atomic_incrementAndGet_def atomic_addAndGet_is_new Suc.IH)
  moreover have "map (\<lambda>i. v + of_nat (Suc i)) [0..<Suc n] = (v + 1) # map (\<lambda>i. v + 1 + of_nat (Suc i)) [0..<n]"
    by (rule nth_equalityI) (auto simp: nth_Cons' nth_append not_less_eq_eq less_Suc_eq_0_disj algebra_simps)
  ultimately show ?case by (simp add: algebra_simps)
qed

end
