(* ===== verification/FileUtil.thy ===== *)
theory FileUtil
  imports Prelude
begin

text \<open>Files (FileUtil.h, FileUtil.cc): \<open>ReadSmallFile\<close>, the reader of /proc and of small files, and
  \<open>AppendFile\<close>, the log file on disk.

  What the kernel and stdio do is an input: a descriptor carries the answers its reads will get (how
  many bytes at most, or an errno), a stream carries the answers its writes will get (everything
  accepted, or a short count with or without the error indicator).  Every such answer POSIX allows can
  be put there, so the lemmas hold for all short reads, short writes and errors.\<close>

section \<open>Reading\<close>

datatype io_answer = Io_upto nat | Io_error int

record file_descr =
  fd_content :: bytes
  fd_pos :: nat
  fd_calls :: nat
  fd_answers :: "nat \<Rightarrow> io_answer"

text \<open>One read call: at the end of the file, or for a count of 0, it gives no byte; otherwise at least
  one byte and at most as many as asked for.\<close>

definition io_count :: "nat \<Rightarrow> nat \<Rightarrow> nat \<Rightarrow> nat" where
  "io_count k count avail = min (max 1 k) (min count avail)"

definition fd_read :: "nat \<Rightarrow> file_descr \<Rightarrow> (int + bytes) \<times> file_descr" where
  "fd_read count f =
     (let f' = f\<lparr>fd_calls := Suc (fd_calls f)\<rparr>; rest = drop (fd_pos f) (fd_content f) in
      case fd_answers f (fd_calls f) of
        Io_error e \<Rightarrow> (Inl e, f')
      | Io_upto k \<Rightarrow> (let n = io_count k count (length rest)
                    in (Inr (take n rest), f'\<lparr>fd_pos := fd_pos f + n\<rparr>)))"

definition fd_pread :: "nat \<Rightarrow> nat \<Rightarrow> file_descr \<Rightarrow> (int + bytes) \<times> file_descr" where
  "fd_pread count off f =
     (let f' = f\<lparr>fd_calls := Suc (fd_calls f)\<rparr>; rest = drop off (fd_content f) in
      case fd_answers f (fd_calls f) of
        Io_error e \<Rightarrow> (Inl e, f')
      | Io_upto k \<Rightarrow> (Inr (take (io_count k count (length rest)) rest), f'))"

text \<open>What \<open>fstat\<close> says of an open file.\<close>

datatype file_kind = Regular | Directory | Other_kind

record file_stat =
  st_kind :: file_kind
  st_size :: int
  st_mtime :: int
  st_ctime :: int

text \<open>The object: the descriptor (\<open>None\<close> when \<open>open\<close> failed), the errno of the open, the buffer.  The
  constructor sets the first byte to the digit \<open>'0'\<close> and leaves the rest as the memory was.\<close>

definition rsf_kBufferSize :: nat where
  "rsf_kBufferSize = 64 * 1024"

record read_small_file =
  rsf_fd :: "file_descr option"
  rsf_err :: int
  rsf_buf :: bytes

definition rsf_new :: "bytes \<Rightarrow> (int + file_descr) \<Rightarrow> read_small_file" where
  "rsf_new garbage opened =
     (let buf = (take rsf_kBufferSize garbage)[0 := CHR ''0''] in
      case opened of
        Inr f \<Rightarrow> \<lparr>rsf_fd = Some f, rsf_err = 0, rsf_buf = buf\<rparr>
      | Inl errno \<Rightarrow> \<lparr>rsf_fd = None, rsf_err = errno, rsf_buf = buf\<rparr>)"

text \<open>\<open>readToBuffer\<close> returns the error code and, on success, the size it stores through the pointer.\<close>

definition readToBuffer :: "read_small_file \<Rightarrow> (int \<times> int option) \<times> read_small_file" where
  "readToBuffer r =
     (case rsf_fd r of
        None \<Rightarrow> ((rsf_err r, None), r)
      | Some f \<Rightarrow>
          (case fd_pread (rsf_kBufferSize - 1) 0 f of
             (Inl errno, f') \<Rightarrow> ((errno, None), r\<lparr>rsf_fd := Some f'\<rparr>)
           | (Inr bs, f') \<Rightarrow>
               ((rsf_err r, Some (int (length bs))),
                r\<lparr>rsf_fd := Some f', rsf_buf := write_at 0 (bs @ [NUL]) (rsf_buf r)\<rparr>)))"

text \<open>The loop of \<open>readToString\<close>; the buffer it goes through holds what was read last.  It ends because
  every turn that goes on has read at least one byte.\<close>

function rts_loop :: "nat \<Rightarrow> bytes \<Rightarrow> int \<Rightarrow> file_descr \<Rightarrow> bytes \<Rightarrow> int \<times> bytes \<times> file_descr \<times> bytes" where
  "rts_loop maxSize content err f buf =
     (if length content < maxSize then
        (case fd_read (min (maxSize - length content) rsf_kBufferSize) f of
           (Inl errno, f') \<Rightarrow> (errno, content, f', buf)
         | (Inr [], f') \<Rightarrow> (err, content, f', buf)
         | (Inr (b # bs), f') \<Rightarrow>
             rts_loop maxSize (content @ b # bs) err f' (write_at 0 (b # bs) buf))
      else (err, content, f, buf))"
  by pat_completeness auto
termination
  by (relation "measure (\<lambda>(maxSize, content, err, f, buf). maxSize - length content)") auto

declare rts_loop.simps [simp del]

datatype rts_outcome =
    Length_error
  | Returned (rts_err: int) (rts_content: bytes) (rts_fileSize: "int option")
      (rts_modifyTime: "int option") (rts_createTime: "int option") (rts_self: read_small_file)

text \<open>\<open>readToString\<close>: the three flags say which of the optional result pointers are not NULL, \<open>stat\<close> is
  the answer of \<open>fstat\<close>, \<open>content0\<close> the string the caller passes.  A negative \<open>maxSize\<close> becomes a huge
  \<open>size_t\<close>; as an argument of \<open>reserve\<close> it makes \<open>std::string\<close> throw \<open>length_error\<close>.\<close>

definition size_t_of :: "int \<Rightarrow> nat" where
  "size_t_of i = nat (i mod 2 ^ 64)"

definition readToString ::
  "int \<Rightarrow> bool \<Rightarrow> bool \<Rightarrow> bool \<Rightarrow> (int + file_stat) \<Rightarrow> bytes \<Rightarrow> read_small_file \<Rightarrow> rts_outcome" where
  "readToString maxSize want_size want_mtime want_ctime stat content0 r =
     (case rsf_fd r of
        None \<Rightarrow> Returned (rsf_err r) content0 None None None r
      | Some f \<Rightarrow>
          let finish = (\<lambda>err sz mt ct.
                case rts_loop (size_t_of maxSize) [] err f (rsf_buf r) of
                  (err', content, f', buf) \<Rightarrow>
                     Returned err' content sz mt ct (r\<lparr>rsf_fd := Some f', rsf_buf := buf\<rparr>))
          in if want_size then
               (case stat of
                  Inr s \<Rightarrow>
                    (let mt = (if want_mtime then Some (st_mtime s) else None);
                         ct = (if want_ctime then Some (st_ctime s) else None)
                     in case st_kind s of
                          Regular \<Rightarrow> if min maxSize (st_size s) < 0 then Length_error
                                     else finish (rsf_err r) (Some (st_size s)) mt ct
                        | Directory \<Rightarrow> finish 21 None mt ct
                        | Other_kind \<Rightarrow> finish (rsf_err r) None mt ct)
                | Inl errno \<Rightarrow> finish errno None None None)
             else finish (rsf_err r) None None None)"

definition readFile ::
  "(int + file_descr) \<Rightarrow> bytes \<Rightarrow> int \<Rightarrow> bool \<Rightarrow> bool \<Rightarrow> bool \<Rightarrow> (int + file_stat) \<Rightarrow> bytes \<Rightarrow> rts_outcome" where
  "readFile opened garbage maxSize want_size want_mtime want_ctime stat content0 =
     readToString maxSize want_size want_mtime want_ctime stat content0 (rsf_new garbage opened)"

text \<open>The destructor: the descriptor that \<open>close\<close> is called on, if there is one.\<close>

definition rsf_destroy :: "read_small_file \<Rightarrow> file_descr option" where
  "rsf_destroy r = rsf_fd r"

section \<open>Appending\<close>

text \<open>A stdio stream opened with mode \<open>ae\<close>: everything \<open>fwrite\<close> has accepted, how much of it \<open>fflush\<close> has
  pushed out, the error indicator, and the answers the coming \<open>fwrite\<close> calls will get.\<close>

datatype fw_answer = Accept_all | Accept nat bool

record FILE =
  f_name :: bytes
  f_stream :: bytes
  f_flushed :: nat
  f_error :: bool
  f_calls :: nat
  f_env :: "nat \<Rightarrow> fw_answer"

definition fwrite_unlocked :: "bytes \<Rightarrow> FILE \<Rightarrow> nat \<times> FILE" where
  "fwrite_unlocked bs f =
     (let f' = f\<lparr>f_calls := Suc (f_calls f)\<rparr> in
      case f_env f (f_calls f) of
        Accept_all \<Rightarrow> (length bs, f'\<lparr>f_stream := f_stream f @ bs\<rparr>)
      | Accept k e \<Rightarrow> (let n = min k (length bs)
                     in (n, f'\<lparr>f_stream := f_stream f @ take n bs, f_error := f_error f \<or> e\<rparr>)))"

definition ferror :: "FILE \<Rightarrow> int" where
  "ferror f = (if f_error f then 1 else 0)"

definition fflush :: "FILE \<Rightarrow> FILE" where
  "fflush f = f\<lparr>f_flushed := length (f_stream f)\<rparr>"

text \<open>The class; \<open>af_stderr\<close> lists the codes \<open>append\<close> hands to \<open>strerror_tl\<close> for its message.\<close>

record AppendFile =
  af_fp :: FILE
  af_writenBytes :: int
  af_stderr :: "int list"

definition AppendFile_open :: "FILE \<Rightarrow> AppendFile" where
  "AppendFile_open fp = \<lparr>af_fp = fp, af_writenBytes = 0, af_stderr = []\<rparr>"

definition AppendFile_write :: "bytes \<Rightarrow> FILE \<Rightarrow> nat \<times> FILE" where
  "AppendFile_write bs fp = fwrite_unlocked bs fp"

text \<open>The loop of \<open>append\<close>: it stops when everything is written, or when a short count comes with the
  error indicator; a short count without the indicator makes it try again, for ever if need be.\<close>

partial_function (option) append_loop :: "bytes \<Rightarrow> nat \<Rightarrow> FILE \<Rightarrow> (FILE \<times> int list) option" where
  [code]: "append_loop logline written fp =
     (if written = length logline then Some (fp, [])
      else let remain = length logline - written;
               res = AppendFile_write (drop written logline) fp;
               n = fst res; fp' = snd res
           in if n \<noteq> remain \<and> ferror fp' \<noteq> 0 then Some (fp', [ferror fp'])
              else append_loop logline (written + n) fp')"

definition AppendFile_append :: "bytes \<Rightarrow> AppendFile \<Rightarrow> AppendFile option" where
  "AppendFile_append logline a =
     (case append_loop logline 0 (af_fp a) of
        None \<Rightarrow> None
      | Some (fp, report) \<Rightarrow>
          Some (a\<lparr>af_fp := fp, af_writenBytes := af_writenBytes a + int (length logline),
                 af_stderr := af_stderr a @ report\<rparr>))"

definition AppendFile_flush :: "AppendFile \<Rightarrow> AppendFile" where
  "AppendFile_flush a = a\<lparr>af_fp := fflush (af_fp a)\<rparr>"

text \<open>The destructor closes the stream, which flushes it.\<close>

definition AppendFile_close :: "AppendFile \<Rightarrow> FILE" where
  "AppendFile_close a = fflush (af_fp a)"

section \<open>Facts about reading\<close>

lemma io_count_le [simp]:
  "io_count k c n \<le> c" "io_count k c n \<le> n"
  by (auto simp: io_count_def)

lemma io_count_eq_0 [simp]: "io_count k c n = 0 \<longleftrightarrow> c = 0 \<or> n = 0"
  by (auto simp: io_count_def min_def max_def)

lemma fd_read_cases:
  obtains (error) e f' where "fd_read c f = (Inl e, f')" "fd_answers f (fd_calls f) = Io_error e"
      "fd_content f' = fd_content f" "fd_answers f' = fd_answers f"
  | (bytes) n f' where "fd_read c f = (Inr (take n (drop (fd_pos f) (fd_content f))), f')"
      "n \<le> c" "n \<le> length (fd_content f) - fd_pos f"
      "n = 0 \<Longrightarrow> c = 0 \<or> length (fd_content f) \<le> fd_pos f"
      "fd_pos f' = fd_pos f + n"
      "fd_content f' = fd_content f" "fd_answers f' = fd_answers f"
proof (cases "fd_answers f (fd_calls f)")
  case (Io_error e)
  show thesis
    by (rule error[of e "f\<lparr>fd_calls := Suc (fd_calls f)\<rparr>"]) (simp_all add: fd_read_def Io_error)
next
  case (Io_upto k)
  show thesis
    by (rule bytes[of "io_count k c (length (fd_content f) - fd_pos f)"
          "f\<lparr>fd_calls := Suc (fd_calls f),
             fd_pos := fd_pos f + io_count k c (length (fd_content f) - fd_pos f)\<rparr>"])
      (auto simp: fd_read_def Io_upto Let_def)
qed

text \<open>The loop, for every sequence of answers: the string stays a prefix of the file, and it is cut off
  before \<open>maxSize\<close> bytes only at the end of the file or by an error.\<close>

definition no_read_error :: "file_descr \<Rightarrow> bool" where
  "no_read_error f \<longleftrightarrow> (\<forall>i e. fd_answers f i \<noteq> Io_error e)"

lemma rts_loop_content:
  assumes "content = take (fd_pos f) (fd_content f)" "fd_pos f \<le> length (fd_content f)"
    "fd_pos f \<le> maxSize"
    "rts_loop maxSize content err f buf = (err', content', f', buf')"
  shows "content' = take (length content') (fd_content f) \<and> length content' \<le> maxSize \<and>
    ((content' = take maxSize (fd_content f) \<and> err' = err) \<or> (\<exists>i. fd_answers f i = Io_error err'))"
  using assms
proof (induction maxSize content err f buf arbitrary: err' content' f' buf' rule: rts_loop.induct)
  case (1 maxSize content err f buf)
  let ?c = "min (maxSize - length content) rsf_kBufferSize"
  have len: "length content = fd_pos f" using "1.prems" by simp
  show ?case
  proof (cases "length content < maxSize")
    case False
    then have "content' = content" "err' = err" "maxSize = fd_pos f"
      using "1.prems" len by (auto simp: rts_loop.simps)
    then show ?thesis using "1.prems" len by simp
  next
    case True
    note step = "1.IH" [OF True]
    show ?thesis
    proof (cases rule: fd_read_cases[of ?c f])
      case (error e f1)
      then have "content' = content" "err' = e"
        using "1.prems"(4) True by (auto simp: rts_loop.simps)
      then show ?thesis using "1.prems" error(2) by (auto simp: len)
    next
      case (bytes n f1)
      let ?bs = "take n (drop (fd_pos f) (fd_content f))"
      have cpos: "?c \<noteq> 0" using True by (simp add: rsf_kBufferSize_def)
      show ?thesis
      proof (cases ?bs)
        case Nil
        then have "content' = content" "err' = err"
          using "1.prems"(4) True bytes(1) by (auto simp: rts_loop.simps)
        moreover have "length (fd_content f) \<le> fd_pos f" using Nil bytes(4) cpos by auto
        ultimately show ?thesis using "1.prems" by simp
      next
        case (Cons b bs)
        have eq: "content @ b # bs = take (fd_pos f1) (fd_content f1)"
          using "1.prems"(1,2) Cons bytes(5,6) by (metis take_add)
        have le: "fd_pos f1 \<le> length (fd_content f1)" "fd_pos f1 \<le> maxSize"
          using bytes "1.prems"(2,3) len by auto
        have run: "rts_loop maxSize (content @ b # bs) err f1 (write_at 0 (b # bs) buf)
            = (err', content', f', buf')"
          using "1.prems"(4) True bytes(1) Cons by (simp add: rts_loop.simps[of _ content])
        show ?thesis
          using step[OF bytes(1)[symmetric] refl Cons eq le run] bytes(6,7) by simp
      qed
    qed
  qed
qed

text \<open>C37: Reading a small file.  Whatever short reads the kernel answers with, \<open>readFile\<close> on an opened
  file that gives no error returns 0 and exactly the first \<open>maxSize\<close> bytes of the file; the caller's
  earlier string content is gone.  The sizes and times are stored only where the caller asked.\<close>

theorem readFile_content:
  assumes "fd_pos f = 0" "no_read_error f" "0 \<le> maxSize" "maxSize < 2 ^ 31"
    "stat = Inr s" "st_kind s \<noteq> Directory" "0 \<le> st_size s"
  shows "\<exists>r sz mt ct. readFile (Inr f) garbage maxSize want_size want_mtime want_ctime stat content0
      = Returned 0 (take (nat maxSize) (fd_content f)) sz mt ct r
    \<and> (sz \<noteq> None \<longrightarrow> want_size \<and> sz = Some (st_size s)) \<and> (mt \<noteq> None \<longrightarrow> want_mtime \<and> mt = Some (st_mtime s))
    \<and> (ct \<noteq> None \<longrightarrow> want_ctime \<and> ct = Some (st_ctime s))"
proof -
  obtain e c f' b where run:
    "rts_loop (nat maxSize) [] 0 f ((take rsf_kBufferSize garbage)[0 := CHR ''0'']) = (e, c, f', b)"
    by (cases "rts_loop (nat maxSize) [] 0 f ((take rsf_kBufferSize garbage)[0 := CHR ''0''])") auto
  have "c = take (nat maxSize) (fd_content f)" "e = 0"
    using rts_loop_content[OF _ _ _ run] assms(1,2) by (auto simp: no_read_error_def)
  moreover have "size_t_of maxSize = nat maxSize"
    using assms(3,4) by (simp add: size_t_of_def)
  ultimately show ?thesis
    using run assms(3,5,6,7)
    by (cases "st_kind s") (auto simp: readFile_def readToString_def rsf_new_def Let_def)
qed

definition four_byte_reads :: file_descr where
  "four_byte_reads = \<lparr>fd_content = ''log file'', fd_pos = 0, fd_calls = 0,
     fd_answers = (\<lambda>i. Io_upto (if i = 0 then 4 else 2))\<rparr>"

theorem readFile_content_witness:
  "\<exists>r sz mt ct. readFile (Inr four_byte_reads) [] 7 True False False
      (Inr \<lparr>st_kind = Regular, st_size = 8, st_mtime = 1, st_ctime = 2\<rparr>) ''old''
    = Returned 0 ''log fil'' sz mt ct r"
  using readFile_content[of four_byte_reads 7
      "Inr \<lparr>st_kind = Regular, st_size = 8, st_mtime = 1, st_ctime = 2\<rparr>"
      "\<lparr>st_kind = Regular, st_size = 8, st_mtime = 1, st_ctime = 2\<rparr>" "[]" True False False "''old''"]
  by (auto simp: four_byte_reads_def no_read_error_def)

text \<open>A failing open leaves the caller's string as it was and returns the errno; a directory is
  reported as such.\<close>

lemma readFile_not_opened:
  "\<exists>r. readFile (Inl errno) garbage maxSize a b c stat content0 = Returned errno content0 None None None r"
  by (auto simp: readFile_def readToString_def rsf_new_def)

text \<open>The descriptor that was opened is the one closed in the end, whatever happened in between.\<close>

lemma rts_loop_keeps_file:
  "rts_loop maxSize content err f buf = (err', content', f', buf') \<Longrightarrow> fd_content f' = fd_content f"
proof (induction maxSize content err f buf rule: rts_loop.induct)
  case (1 maxSize content err f buf)
  obtain a f1 where rd: "fd_read (min (maxSize - length content) rsf_kBufferSize) f = (a, f1)" by force
  then have f1: "fd_content f1 = fd_content f"
    by (auto simp: fd_read_def Let_def split: io_answer.splits)
  show ?case
  proof (cases "length content < maxSize")
    case False
    then show ?thesis using "1.prems" by (subst (asm) rts_loop.simps) simp
  next
    case True
    consider (e) e where "a = Inl e" | (empty) "a = Inr []" | (some) b bs where "a = Inr (b # bs)"
      by (metis obj_sumE list.exhaust)
    then show ?thesis
    proof cases
      case some
      then have "rts_loop maxSize (content @ b # bs) err f1 (write_at 0 (b # bs) buf) = (err', content', f', buf')"
        using "1.prems" True rd by (subst (asm) rts_loop.simps) simp
      then have "fd_content f' = fd_content f1" using "1.IH"[OF True] rd some by auto
      then show ?thesis using f1 by simp
    qed (use "1.prems" True rd f1 in \<open>subst (asm) rts_loop.simps, simp\<close>)+
  qed
qed

lemma readFile_closes:
  assumes "readFile opened garbage maxSize a b c stat content0 = Returned err content sz mt ct r"
  shows "map_option fd_content (rsf_destroy r) = (case opened of Inl errno \<Rightarrow> None | Inr f \<Rightarrow> Some (fd_content f))"
proof (cases opened)
  case (Inl errno)
  then show ?thesis using assms by (auto simp: readFile_def readToString_def rsf_new_def rsf_destroy_def)
next
  case (Inr f)
  have "\<exists>err0 f' buf. rts_loop (size_t_of maxSize) [] err0 f (rsf_buf (rsf_new garbage opened)) = (err, content, f', buf)
      \<and> rsf_fd r = Some f'"
    using assms Inr
    by (auto simp: readFile_def readToString_def rsf_new_def Let_def
        split: if_splits sum.splits file_kind.splits prod.splits) blast+
  then show ?thesis using Inr by (auto simp: rsf_destroy_def dest: rts_loop_keeps_file)
qed

text \<open>\<open>readToBuffer\<close> keeps its 64 KB buffer at its size and leaves a C string in it: at most 65535 bytes
  and the NUL after them.\<close>

lemma readToBuffer_C_string:
  assumes "rsf_fd r = Some f" "length (rsf_buf r) = rsf_kBufferSize"
    "readToBuffer r = ((err, Some n), r')"
  shows "length (rsf_buf r') = rsf_kBufferSize" "err = rsf_err r"
    "take (nat n) (rsf_buf r') = take (nat n) (fd_content f)" "rsf_buf r' ! nat n = NUL"
    "0 \<le> n" "n < int rsf_kBufferSize"
proof -
  obtain k where k: "fd_answers f (fd_calls f) = Io_upto k"
    using assms(1,3)
    by (cases "fd_answers f (fd_calls f)") (auto simp: readToBuffer_def fd_pread_def Let_def)
  define m where "m = io_count k (rsf_kBufferSize - 1) (length (fd_content f))"
  have m: "m \<le> rsf_kBufferSize - 1" "m \<le> length (fd_content f)" by (auto simp: m_def)
  have pos: "0 < rsf_kBufferSize" by (simp add: rsf_kBufferSize_def)
  have r': "rsf_buf r' = write_at 0 (take m (fd_content f) @ [NUL]) (rsf_buf r)" "err = rsf_err r" "n = int m"
    using assms(1,3) k m by (auto simp: readToBuffer_def fd_pread_def Let_def m_def)
  have "length (take m (fd_content f) @ [NUL]) \<le> length (rsf_buf r)"
    using m assms(2) pos by simp
  then show "length (rsf_buf r') = rsf_kBufferSize" "err = rsf_err r"
    "take (nat n) (rsf_buf r') = take (nat n) (fd_content f)" "rsf_buf r' ! nat n = NUL"
    "0 \<le> n" "n < int rsf_kBufferSize"
    using r' m assms(2) pos by (auto simp: write_at_def nth_append)
qed

section \<open>Facts about appending\<close>

text \<open>The answers POSIX allows without ruling out a retry: a call that takes no byte at all of a
  non-empty text has set the error indicator.\<close>

definition fw_progress :: "FILE \<Rightarrow> bool" where
  "fw_progress f \<longleftrightarrow> (\<forall>i k e. f_env f i = Accept k e \<longrightarrow> e \<or> 0 < k)"

definition good_answers :: "(nat \<Rightarrow> fw_answer) \<Rightarrow> bool" where
  "good_answers env \<longleftrightarrow> (\<forall>i k e. env i = Accept k e \<longrightarrow> \<not> e \<and> 0 < k)"

definition fw_healthy :: "FILE \<Rightarrow> bool" where
  "fw_healthy f \<longleftrightarrow> \<not> f_error f \<and> good_answers (f_env f)"

lemma fw_healthy_progress [intro]: "fw_healthy f \<Longrightarrow> fw_progress f"
  by (auto simp: fw_healthy_def fw_progress_def good_answers_def)

lemma fwrite_unlocked_spec:
  assumes "fwrite_unlocked bs f = (n, f')"
  shows "n \<le> length bs" "f_stream f' = f_stream f @ take n bs" "f_env f' = f_env f"
    "f_name f' = f_name f" "f_flushed f' = f_flushed f"
    "fw_progress f \<Longrightarrow> n < length bs \<Longrightarrow> f_error f' \<or> 0 < n"
    "fw_healthy f \<Longrightarrow> fw_healthy f'"
proof -
  show "n \<le> length bs" "f_stream f' = f_stream f @ take n bs" and env: "f_env f' = f_env f"
    and "f_name f' = f_name f" "f_flushed f' = f_flushed f"
    using assms by (auto simp: fwrite_unlocked_def Let_def split: fw_answer.splits)
  { assume h: "fw_progress f" "n < length bs"
    then obtain k e where a: "f_env f (f_calls f) = Accept k e"
      using assms by (cases "f_env f (f_calls f)") (auto simp: fwrite_unlocked_def)
    then have "e \<or> 0 < k" using h(1) unfolding fw_progress_def by blast
    then show "f_error f' \<or> 0 < n"
      using assms a h(2) by (auto simp: fwrite_unlocked_def Let_def min_def split: if_splits) }
  assume h: "fw_healthy f"
  have "\<not> f_error f'"
  proof (cases "f_env f (f_calls f)")
    case Accept_all
    then show ?thesis using h assms by (auto simp: fwrite_unlocked_def fw_healthy_def)
  next
    case (Accept k e)
    moreover have "\<not> e" using h Accept unfolding fw_healthy_def good_answers_def by blast
    ultimately show ?thesis using h assms by (auto simp: fwrite_unlocked_def fw_healthy_def Let_def)
  qed
  then show "fw_healthy f'" using h by (simp add: fw_healthy_def env)
qed

lemma append_loop_total:
  assumes "fw_progress fp" "written \<le> length logline"
  shows "\<exists>fp' report k. append_loop logline written fp = Some (fp', report)
    \<and> f_stream fp' = f_stream fp @ take k (drop written logline)
    \<and> f_env fp' = f_env fp \<and> f_name fp' = f_name fp \<and> f_flushed fp' = f_flushed fp
    \<and> (fw_healthy fp \<longrightarrow> fw_healthy fp')
    \<and> (report = [] \<and> k = length logline - written
       \<or> report = [1] \<and> k < length logline - written \<and> f_error fp')"
  using assms
proof (induction "length logline - written" arbitrary: written fp rule: less_induct)
  case less
  show ?case
  proof (cases "written = length logline")
    case True
    then show ?thesis by (subst append_loop.simps) simp
  next
    case False
    let ?rest = "drop written logline"
    obtain n f1 where w: "fwrite_unlocked ?rest fp = (n, f1)"
      by (cases "fwrite_unlocked ?rest fp")
    note s = fwrite_unlocked_spec[OF w]
    show ?thesis
    proof (cases "n \<noteq> length logline - written \<and> f_error f1")
      case True
      then have "append_loop logline written fp = Some (f1, [1])"
        using False w by (subst append_loop.simps) (simp add: AppendFile_write_def ferror_def)
      then show ?thesis using s True by (auto intro!: exI[of _ n])
    next
      case cont: False
      then have "0 < n" using s(1) s(6)[OF less.prems(1)] False less.prems(2) by (cases "n = 0") auto
      have step: "append_loop logline written fp = append_loop logline (written + n) f1"
        using cont False w by (subst append_loop.simps) (auto simp: AppendFile_write_def ferror_def)
      have "fw_progress f1" using less.prems(1) s(3) by (simp add: fw_progress_def)
      moreover have "written + n \<le> length logline" using s(1) less.prems(2) by simp
      moreover have "length logline - (written + n) < length logline - written"
        using \<open>0 < n\<close> s(1) False less.prems(2) by simp
      ultimately obtain fp' report k where IH:
        "append_loop logline (written + n) f1 = Some (fp', report)"
        "f_stream fp' = f_stream f1 @ take k (drop (written + n) logline)"
        "f_env fp' = f_env f1" "f_name fp' = f_name f1" "f_flushed fp' = f_flushed f1"
        "fw_healthy f1 \<longrightarrow> fw_healthy fp'"
        "report = [] \<and> k = length logline - (written + n)
         \<or> report = [1] \<and> k < length logline - (written + n) \<and> f_error fp'"
        using less.hyps by blast
      have "f_stream fp' = f_stream fp @ take (n + k) ?rest"
        using IH(2) s(2) by (simp add: take_add drop_drop add.commute[of n written])
      then show ?thesis
        using step IH s \<open>written + n \<le> length logline\<close> by (intro exI[of _ fp'] exI[of _ report] exI[of _ "n + k"]) auto
    qed
  qed
qed

text \<open>C19: \<open>AppendFile::append\<close> returns for every stream whose writes either make progress or set the
  error indicator, short counts included: the whole line is written, or a proper prefix of it, and then
  the error is reported once.  In both cases \<open>writenBytes\<close> grows by the full length of the line, so after
  an error it counts bytes that were never written.\<close>

theorem AppendFile_append_total:
  assumes "fw_progress (af_fp a)"
  shows "\<exists>a' k. AppendFile_append logline a = Some a'
    \<and> f_stream (af_fp a') = f_stream (af_fp a) @ take k logline
    \<and> af_writenBytes a' = af_writenBytes a + int (length logline)
    \<and> (k = length logline \<and> af_stderr a' = af_stderr a
       \<or> k < length logline \<and> af_stderr a' = af_stderr a @ [1] \<and> f_error (af_fp a'))"
  using append_loop_total[OF assms, of 0 logline] by (auto simp: AppendFile_append_def)

definition full_disk :: FILE where
  "full_disk = \<lparr>f_name = ''a.log'', f_stream = ''x'', f_flushed = 0, f_error = False, f_calls = 0,
     f_env = (\<lambda>i. if i = 0 then Accept 2 False else Accept 0 True)\<rparr>"

theorem AppendFile_append_total_witness:
  "\<exists>a'. AppendFile_append ''hello'' (AppendFile_open full_disk) = Some a' \<and> af_writenBytes a' = 5"
proof -
  have "fw_progress (af_fp (AppendFile_open full_disk))"
    by (auto simp: full_disk_def AppendFile_open_def fw_progress_def split: if_splits)
  from AppendFile_append_total[OF this, of "''hello''"] show ?thesis
    by (auto simp: AppendFile_open_def)
qed

text \<open>On the same stream the loop takes two bytes, tries again, and gives up: three of the five bytes it
  has counted are lost.\<close>

lemma full_disk_append:
  "append_loop ''hello'' 0 full_disk =
    Some (full_disk\<lparr>f_stream := ''xhe'', f_calls := 2, f_error := True\<rparr>, [1])"
  by (subst append_loop.simps, subst append_loop.simps)
    (simp add: full_disk_def AppendFile_write_def fwrite_unlocked_def ferror_def)

lemma AppendFile_append_healthy:
  assumes "fw_healthy (af_fp a)"
  shows "\<exists>a'. AppendFile_append logline a = Some a'
    \<and> f_stream (af_fp a') = f_stream (af_fp a) @ logline \<and> fw_healthy (af_fp a')
    \<and> f_name (af_fp a') = f_name (af_fp a) \<and> f_flushed (af_fp a') = f_flushed (af_fp a)
    \<and> f_env (af_fp a') = f_env (af_fp a)
    \<and> af_writenBytes a' = af_writenBytes a + int (length logline) \<and> af_stderr a' = af_stderr a"
  using append_loop_total[OF fw_healthy_progress[OF assms], of 0 logline] assms
  by (auto simp: AppendFile_append_def fw_healthy_def)

lemma append_loop_spins:
  assumes "append_loop l w fp = Some r"
  shows "l \<noteq> [] \<longrightarrow> w = 0 \<longrightarrow> \<not> f_error fp \<longrightarrow> (\<forall>i. f_env fp i = Accept 0 False) \<longrightarrow> False"
proof (rule append_loop.raw_induct[OF _ assms], intro impI)
  fix loop l w fp r
  assume IH: "\<And>l w fp r. loop l w fp = Some r \<Longrightarrow>
      l \<noteq> [] \<longrightarrow> w = 0 \<longrightarrow> \<not> f_error fp \<longrightarrow> (\<forall>i. f_env fp i = Accept 0 False) \<longrightarrow> False"
    and step: "(if w = length l then Some (fp, [])
      else let remain = length l - w; res = AppendFile_write (drop w l) fp; n = fst res; fp' = snd res
           in if n \<noteq> remain \<and> ferror fp' \<noteq> 0 then Some (fp', [ferror fp']) else loop l (w + n) fp') = Some r"
    and h: "l \<noteq> []" "w = 0" "\<not> f_error fp" "\<forall>i. f_env fp i = Accept 0 False"
  have "loop l 0 (fp\<lparr>f_calls := Suc (f_calls fp), f_error := False\<rparr>) = Some r"
    using step h by (simp add: AppendFile_write_def fwrite_unlocked_def ferror_def)
  from IH[OF this] h show False by simp
qed

text \<open>Without that guarantee the loop can spin: a stream that takes nothing and never sets the
  indicator keeps \<open>append\<close> from returning for every non-empty line.\<close>

theorem AppendFile_append_spins:
  assumes "logline \<noteq> []" "\<not> f_error (af_fp a)" "\<And>i. f_env (af_fp a) i = Accept 0 False"
  shows "AppendFile_append logline a = None"
  using append_loop_spins[of logline 0 "af_fp a"] assms
  by (cases "append_loop logline 0 (af_fp a)") (auto simp: AppendFile_append_def)

theorem AppendFile_append_spins_witness:
  "AppendFile_append ''x'' (AppendFile_open \<lparr>f_name = ''a.log'', f_stream = [], f_flushed = 0,
     f_error = False, f_calls = 0, f_env = (\<lambda>i. Accept 0 False)\<rparr>) = None"
  by (rule AppendFile_append_spins) (simp_all add: AppendFile_open_def)

end
