(* ===== verification/ProcessInfo.thy ===== *)
theory ProcessInfo
  imports StringPiece FileUtil
begin

text \<open>What the program asks about its own process (ProcessInfo.h, ProcessInfo.cc): the host name, the
  process name inside /proc/self/stat, the thread count inside /proc/self/status, and the directory
  scans of /proc/self/fd and /proc/self/task.  What the kernel answers (the id of a process, the text of a
  /proc file, the entries of a directory) is an argument; what the code makes of it is defined.\<close>

section \<open>C library\<close>

text \<open>The string a \<open>char*\<close> denotes: the bytes before the first NUL.\<close>

definition until_NUL :: "bytes \<Rightarrow> bytes" where
  "until_NUL mem = takeWhile (\<lambda>c. c \<noteq> NUL) mem"

definition is_digit :: "char \<Rightarrow> bool" where
  "is_digit c \<longleftrightarrow> 48 \<le> (of_char c :: nat) \<and> (of_char c :: nat) \<le> 57"

definition is_space :: "char \<Rightarrow> bool" where
  "is_space c \<longleftrightarrow> c = CHR '' '' \<or> (9 \<le> (of_char c :: nat) \<and> (of_char c :: nat) \<le> 13)"

text \<open>\<open>atoi\<close>: white space, a sign, digits; a value outside \<open>int\<close> is undefined.\<close>

definition atoi :: "bytes \<Rightarrow> int option" where
  "atoi s =
     (let t = dropWhile is_space (until_NUL s) in
      case t of
        [] \<Rightarrow> Some 0
      | c # cs \<Rightarrow>
          if c = CHR ''-'' then chk (- int (dec_value (takeWhile is_digit cs)))
          else if c = CHR ''+'' then chk (int (dec_value (takeWhile is_digit cs)))
          else chk (int (dec_value (takeWhile is_digit t))))"

text \<open>\<open>string::find\<close> for a character and for a text, \<open>string::rfind\<close> for a character; \<open>None\<close> is
  \<open>npos\<close>.\<close>

fun find_char :: "char \<Rightarrow> bytes \<Rightarrow> nat option" where
  "find_char x [] = None"
| "find_char x (c # cs) = (if c = x then Some 0 else map_option Suc (find_char x cs))"

fun rfind_char :: "char \<Rightarrow> bytes \<Rightarrow> nat option" where
  "rfind_char x [] = None"
| "rfind_char x (c # cs) =
     (case rfind_char x cs of Some i \<Rightarrow> Some (Suc i) | None \<Rightarrow> if c = x then Some 0 else None)"

fun find_text :: "bytes \<Rightarrow> bytes \<Rightarrow> nat option" where
  "find_text p [] = (if p = [] then Some 0 else None)"
| "find_text p (c # cs) =
     (if take (length p) (c # cs) = p then Some 0 else map_option Suc (find_text p cs))"

section \<open>The functions\<close>

definition pidString :: "int \<Rightarrow> bytes" where
  "pidString pid = until_NUL (snprintf_mem 32 (fmt_d pid))"

definition username :: "bytes option \<Rightarrow> bytes" where
  "username pw_name = (case pw_name of Some name \<Rightarrow> name | None \<Rightarrow> ''unknownuser'')"

text \<open>\<open>gethostname\<close> gives its return code and the 256 bytes of the buffer.\<close>

definition hostname :: "int \<times> bytes \<Rightarrow> bytes" where
  "hostname answer =
     (case answer of (rc, buf) \<Rightarrow>
        if rc = 0 then until_NUL (buf[255 := NUL]) else ''unknownhost'')"

definition procname :: "bytes \<Rightarrow> StringPiece" where
  "procname stat =
     (case (find_char CHR ''('' stat, rfind_char CHR '')'' stat) of
        (Some lp, Some rp) \<Rightarrow>
          if lp < rp then sp_set_range (c_string stat) (int lp + 1) (wrap32 (int rp - int lp - 1)) StringPiece_empty
          else StringPiece_empty
      | _ \<Rightarrow> StringPiece_empty)"

text \<open>\<open>procname()\<close>, which copies the piece while the string it points into is alive.\<close>

definition procname_self :: "bytes \<Rightarrow> bytes option" where
  "procname_self procStat = sp_as_string (procname procStat)"

text \<open>The three readers of /proc pass a limit of 65536 and take what was read, whatever the error.\<close>

definition proc_file :: "(int + file_descr) \<Rightarrow> bytes \<Rightarrow> bytes" where
  "proc_file opened garbage =
     (case readFile opened garbage 65536 False False False (Inl 0) [] of
        Length_error \<Rightarrow> []
      | Returned err content sz mt ct self \<Rightarrow> content)"

definition procStatus :: "(bytes \<Rightarrow> int + file_descr) \<Rightarrow> bytes \<Rightarrow> bytes" where
  "procStatus open_file garbage = proc_file (open_file ''/proc/self/status'') garbage"

definition procStat :: "(bytes \<Rightarrow> int + file_descr) \<Rightarrow> bytes \<Rightarrow> bytes" where
  "procStat open_file garbage = proc_file (open_file ''/proc/self/stat'') garbage"

definition threadStat :: "(bytes \<Rightarrow> int + file_descr) \<Rightarrow> bytes \<Rightarrow> int \<Rightarrow> bytes" where
  "threadStat open_file garbage tid =
     proc_file (open_file (until_NUL (snprintf_mem 64 (''/proc/self/task/'' @ fmt_d tid @ ''/stat'')))) garbage"

definition exePath :: "int \<Rightarrow> bytes \<Rightarrow> bytes" where
  "exePath n buf = (if 0 < n then take (nat n) buf else [])"

definition numThreads :: "bytes \<Rightarrow> int option" where
  "numThreads status =
     (case find_text ''Threads:'' status of
        None \<Rightarrow> Some 0
      | Some pos \<Rightarrow> atoi (drop (pos + 8) (c_string status)))"

text \<open>The filters: both return 0, so that no entry is collected, and work by their effect on a thread-local
  counter or vector.\<close>

definition fdDirFilter :: "bytes \<Rightarrow> int \<Rightarrow> int \<times> int" where
  "fdDirFilter d_name t_numOpenedFiles =
     (0, if is_digit (c_string d_name ! 0) then t_numOpenedFiles + 1 else t_numOpenedFiles)"

definition taskDirFilter :: "bytes \<Rightarrow> int list \<Rightarrow> (int \<times> int list) option" where
  "taskDirFilter d_name t_pids =
     (if is_digit (c_string d_name ! 0) then map_option (\<lambda>i. (0, t_pids @ [i])) (atoi (c_string d_name))
      else Some (0, t_pids))"

text \<open>\<open>scandir\<close> passes every entry to the filter and counts those it accepts; without any, the list stays null.
  The directory is \<open>None\<close> if it cannot be opened.  \<open>scanDir\<close> asserts that nothing was collected.\<close>

fun scandir_entries :: "(bytes \<Rightarrow> 's \<Rightarrow> (int \<times> 's) option) \<Rightarrow> bytes list \<Rightarrow> 's \<Rightarrow> (int \<times> 's) option" where
  "scandir_entries dir_filter [] s = Some (0, s)"
| "scandir_entries dir_filter (d # ds) s =
     do { (selected, s1) \<leftarrow> dir_filter d s;
          (n, s2) \<leftarrow> scandir_entries dir_filter ds s1;
          Some (if selected \<noteq> 0 then n + 1 else n, s2) }"

definition scanDir :: "bytes list option \<Rightarrow> (bytes \<Rightarrow> 's \<Rightarrow> (int \<times> 's) option) \<Rightarrow> 's \<Rightarrow> (int \<times> 's) option" where
  "scanDir dir dir_filter s =
     (case dir of
        None \<Rightarrow> Some (- 1, s)
      | Some entries \<Rightarrow>
          do { (n, s') \<leftarrow> scandir_entries dir_filter entries s;
               if n = 0 then Some (n, s') else None })"

definition openedFiles :: "bytes list option \<Rightarrow> int option" where
  "openedFiles dir = map_option snd (scanDir dir (\<lambda>d n. Some (fdDirFilter d n)) 0)"

definition maxOpenFiles :: "nat option \<Rightarrow> bytes list option \<Rightarrow> int option" where
  "maxOpenFiles rlim_cur dir =
     (case rlim_cur of None \<Rightarrow> openedFiles dir | Some n \<Rightarrow> Some (wrap32 (int n)))"

definition threads :: "bytes list option \<Rightarrow> int list option" where
  "threads dir = map_option (\<lambda>(n, result). sort result) (scanDir dir taskDirFilter [])"

text \<open>The globals that are computed before \<open>main\<close>, from the clock and two answers of \<open>sysconf\<close> (\<open>long\<close>, cut to \<open>int\<close>), and
  the functions that read them.\<close>

record proc_globals =
  g_startTime :: int
  g_clockTicks :: int
  g_pageSize :: int

definition proc_globals_init :: "int \<Rightarrow> int \<Rightarrow> int \<Rightarrow> proc_globals" where
  "proc_globals_init now clk_tck page_size =
     \<lparr>g_startTime = now, g_clockTicks = wrap32 clk_tck, g_pageSize = wrap32 page_size\<rparr>"

definition startTime :: "proc_globals \<Rightarrow> int" where
  "startTime g = g_startTime g"

definition clockTicksPerSecond :: "proc_globals \<Rightarrow> int" where
  "clockTicksPerSecond g = g_clockTicks g"

definition pageSize :: "proc_globals \<Rightarrow> int" where
  "pageSize g = g_pageSize g"

text \<open>The parameter says whether \<open>NDEBUG\<close> was defined.\<close>

definition isDebugBuild :: "bool \<Rightarrow> bool" where
  "isDebugBuild ndebug = (if ndebug then False else True)"

text \<open>The CPU times.  \<open>'d\<close> is \<open>double\<close>: its zero, its addition and division and the conversion from integers are
  arguments; \<open>tms\<close> is what \<open>times\<close> stored, if it succeeded.\<close>

record 'd CpuTime =
  userSeconds :: 'd
  systemSeconds :: 'd

definition CpuTime_new :: "'d \<Rightarrow> 'd CpuTime" where
  "CpuTime_new zero = \<lparr>userSeconds = zero, systemSeconds = zero\<rparr>"

definition CpuTime_total :: "('d \<Rightarrow> 'd \<Rightarrow> 'd) \<Rightarrow> 'd CpuTime \<Rightarrow> 'd" where
  "CpuTime_total plus_d t = plus_d (userSeconds t) (systemSeconds t)"

definition cpuTime :: "'d \<Rightarrow> ('d \<Rightarrow> 'd \<Rightarrow> 'd) \<Rightarrow> (int \<Rightarrow> 'd) \<Rightarrow> proc_globals \<Rightarrow> (int \<times> int) option \<Rightarrow> 'd CpuTime" where
  "cpuTime zero div_d to_double g tms =
     (case tms of
        None \<Rightarrow> CpuTime_new zero
      | Some (tms_utime, tms_stime) \<Rightarrow>
          (let hz = to_double (clockTicksPerSecond g)
           in (CpuTime_new zero)\<lparr>userSeconds := div_d (to_double tms_utime) hz, systemSeconds := div_d (to_double tms_stime) hz\<rparr>))"

section \<open>Facts\<close>

lemma until_NUL_id [simp]: "NUL \<notin> set s \<Longrightarrow> until_NUL s = s"
  by (auto simp: until_NUL_def)

lemma until_NUL_c_string [simp]: "NUL \<notin> set s \<Longrightarrow> until_NUL (s @ NUL # rest) = s"
  by (induction s) (auto simp: until_NUL_def)

lemma find_char_append: "x \<notin> set a \<Longrightarrow> find_char x (a @ x # b) = Some (length a)"
  by (induction a) auto

lemma rfind_char_None: "x \<notin> set s \<Longrightarrow> rfind_char x s = None"
  by (induction s) auto

lemma rfind_char_append: "x \<notin> set b \<Longrightarrow> rfind_char x (a @ x # b) = Some (length a)"
  by (induction a) (auto simp: rfind_char_None)

lemma hostname_no_NUL: "NUL \<notin> set (hostname a)"
  by (auto simp: hostname_def until_NUL_def split: prod.splits dest: set_takeWhileD)

text \<open>The process name is what stands between the first opening and the last closing parenthesis
  of the stat line, even if the name contains parentheses itself; no byte outside the string is read.\<close>

theorem procname_between:
  assumes "CHR ''('' \<notin> set pid" "CHR '')'' \<notin> set rest" "length name < 2 ^ 31"
  shows "procname_self (pid @ CHR ''('' # name @ CHR '')'' # rest) = Some name"
proof -
  let ?s = "pid @ CHR ''('' # name @ CHR '')'' # rest"
  have "find_char CHR ''('' ?s = Some (length pid)"
    using assms(1) by (rule find_char_append)
  moreover have "rfind_char CHR '')'' ?s = Some (length pid + 1 + length name)"
    using rfind_char_append[OF assms(2), of "pid @ CHR ''('' # name"] by simp
  moreover have "wrap32 (int (length name)) = int (length name)"
    using assms(3) by (intro wrap32_id) auto
  ultimately have "procname ?s = sp_set_range (c_string ?s) (int (length pid) + 1) (int (length name)) StringPiece_empty"
    by (simp add: procname_def)
  then show ?thesis
    by (auto simp: procname_self_def sp_as_string_def sp_read_def sp_set_range_def c_string_def nat_add_distrib)
qed

theorem procname_between_witness:
  "procname_self ''4711 (my (odd) name) S 1 4711'' = Some ''my (odd) name''"
  using procname_between[of "''4711 ''" "'' S 1 4711''" "''my (odd) name''"] by simp

text \<open>Without the parentheses the name is empty.\<close>

lemma procname_none: "CHR ''('' \<notin> set stat \<Longrightarrow> procname_self stat = Some []"
proof -
  assume "CHR ''('' \<notin> set stat"
  then have "find_char CHR ''('' stat = None" by (induction stat) auto
  then show ?thesis
    by (simp add: procname_self_def procname_def sp_as_string_def sp_read_def StringPiece_empty_def)
qed

lemma is_digit_digit_char [simp]: "d < 10 \<Longrightarrow> is_digit (digit_char d)"
  by (simp add: is_digit_def)

lemma is_space_not_digit: "is_space c \<Longrightarrow> \<not> is_digit c"
  by (auto simp: is_space_def is_digit_def)

lemma dec_nat_is_digit: "c \<in> set (dec_nat n) \<Longrightarrow> is_digit c"
  using dec_nat_digits by force

lemma dropWhile_space_digit:
  "\<forall>c \<in> set white. is_space c \<Longrightarrow> is_digit d \<Longrightarrow> dropWhile is_space (white @ d # ds) = d # ds"
  using is_space_not_digit by (induction white) auto

lemma takeWhile_digits:
  "\<forall>c \<in> set ds. is_digit c \<Longrightarrow> rest = [] \<or> \<not> is_digit (hd rest) \<Longrightarrow> takeWhile is_digit (ds @ rest) = ds"
  by (induction ds) (cases rest, auto)

lemma atoi_dec_nat:
  assumes "\<forall>c \<in> set white. is_space c" "NUL \<notin> set rest" "rest = [] \<or> \<not> is_digit (hd rest)"
    "int n < 2 ^ 31"
  shows "atoi (white @ dec_nat n @ rest @ NUL # junk) = Some (int n)"
proof -
  obtain c cs where d: "dec_nat n = c # cs" by (cases "dec_nat n") (simp_all del: dec_nat.simps)
  have dig: "is_digit c" using dec_nat_is_digit[of c n] d by (simp del: dec_nat.simps)
  have "\<not> is_space NUL" by (simp add: is_space_def)
  then have "NUL \<notin> set white" using assms(1) by blast
  then have "NUL \<notin> set (white @ dec_nat n @ rest)"
    unfolding set_append using assms(2) dec_nat_no_NUL[of n] by blast
  then have u: "until_NUL (white @ dec_nat n @ rest @ NUL # junk) = white @ dec_nat n @ rest"
    using until_NUL_c_string[of "white @ dec_nat n @ rest" junk] by (simp only: append_assoc not_False_eq_True)
  have t: "dropWhile is_space (white @ dec_nat n @ rest) = c # (cs @ rest)"
    using dropWhile_space_digit[OF assms(1) dig, of "cs @ rest"] by (simp only: d append_Cons)
  have w: "takeWhile is_digit (c # (cs @ rest)) = dec_nat n"
  proof -
    have "\<forall>c \<in> set (dec_nat n). is_digit c" using dec_nat_is_digit by blast
    from takeWhile_digits[OF this assms(3)] show ?thesis by (simp only: d append_Cons)
  qed
  have c: "c \<noteq> CHR ''-''" "c \<noteq> CHR ''+''" using dig by (auto simp: is_digit_def)
  have "atoi (white @ dec_nat n @ rest @ NUL # junk) = chk (int (dec_value (dec_nat n)))"
    unfolding atoi_def u t Let_def list.case w using c by simp
  then show ?thesis using assms(4) by (simp del: dec_nat.simps)
qed

text \<open>\<open>first_occurrence p a b\<close>: in the text \<open>a @ p @ b\<close> the pattern does not start before the end of \<open>a\<close>.\<close>

definition first_occurrence :: "bytes \<Rightarrow> bytes \<Rightarrow> bytes \<Rightarrow> bool" where
  "first_occurrence p a b \<longleftrightarrow> (\<forall>i < length a. take (length p) (drop i (a @ p @ b)) \<noteq> p)"

lemma find_text_skip:
  assumes "first_occurrence p a b"
  shows "find_text p (a @ p @ b) = Some (length a)"
  using assms
proof (induction a)
  case Nil
  have "take (length p) (p @ b) = p" by simp
  then show ?case by (cases "p @ b") auto
next
  case (Cons c a)
  have "find_text p (a @ p @ b) = Some (length a)"
    by (rule Cons.IH) (use Cons.prems in \<open>force simp: first_occurrence_def\<close>)
  moreover have "take (length p) (c # a @ p @ b) \<noteq> p"
    using Cons.prems by (force simp: first_occurrence_def)
  ultimately show ?case by simp
qed

text \<open>The thread count is the number written after the first \<open>Threads:\<close> of the status file.\<close>

theorem numThreads_reads_count:
  assumes "first_occurrence ''Threads:'' before rest"
    "rest = white @ dec_nat n @ after" "\<And>c. c \<in> set white \<Longrightarrow> is_space c"
    "NUL \<notin> set after" "after = [] \<or> \<not> is_digit (hd after)" "int n < 2 ^ 31"
  shows "numThreads (before @ ''Threads:'' @ rest) = Some (int n)"
proof -
  have "find_text ''Threads:'' (before @ ''Threads:'' @ rest) = Some (length before)"
    using assms(1) by (rule find_text_skip)
  moreover have "drop (length before + 8) (c_string (before @ ''Threads:'' @ rest)) = rest @ [NUL]"
    by (simp add: c_string_def)
  ultimately show ?thesis
    using atoi_dec_nat[of white after n "[]"] assms(2-6) by (simp add: numThreads_def)
qed

theorem numThreads_reads_count_witness:
  "numThreads (''Pid: 7'' @ ''Threads:'' @ '' '' @ dec_nat 12 @ ''!'') = Some 12"
proof -
  have "first_occurrence ''Threads:'' ''Pid: 7'' ('' '' @ dec_nat 12 @ ''!'')"
    unfolding first_occurrence_def by (auto simp: less_Suc_eq)
  from numThreads_reads_count[OF this, of "'' ''" 12 "''!''"] show ?thesis
    by (simp add: is_space_def is_digit_def)
qed

text \<open>The scans: the number of entries whose name starts with a digit, and the sorted list of the
  thread ids.\<close>

lemma scandir_entries_rejecting:
  assumes "\<And>d s r. dir_filter d s = Some r \<Longrightarrow> fst r = 0"
  shows "scandir_entries dir_filter ds s = map_option (\<lambda>s'. (0, s')) (fold_opt (\<lambda>d s. map_option snd (dir_filter d s)) ds s)"
proof (induction ds arbitrary: s)
  case (Cons d ds)
  then show ?case using assms[of d s] by (cases "dir_filter d s") (auto simp: option.map_comp comp_def split: option.splits)
qed simp

text \<open>Both filters reject everything, so the assertion of \<open>scanDir\<close> holds.\<close>

lemma scanDir_rejecting:
  assumes "\<And>d s r. dir_filter d s = Some r \<Longrightarrow> fst r = 0"
  shows "scanDir (Some entries) dir_filter s = map_option (\<lambda>s'. (0, s')) (fold_opt (\<lambda>d s. map_option snd (dir_filter d s)) entries s)"
  by (cases "fold_opt (\<lambda>d s. map_option snd (dir_filter d s)) entries s")
    (simp_all add: scanDir_def scandir_entries_rejecting[of dir_filter, OF assms])

lemma taskDirFilter_rejects: "taskDirFilter d r = Some x \<Longrightarrow> fst x = 0"
  by (auto simp: taskDirFilter_def split: if_splits)

lemma openedFiles_count:
  "openedFiles (Some entries) = Some (int (length (filter (\<lambda>d. is_digit (c_string d ! 0)) entries)))"
proof -
  have "fold_opt (\<lambda>d n. map_option snd (Some (fdDirFilter d n))) entries k =
      Some (k + int (length (filter (\<lambda>d. is_digit (c_string d ! 0)) entries)))" for k
    by (induction entries arbitrary: k) (auto simp: fdDirFilter_def)
  then show ?thesis
    unfolding openedFiles_def by (subst scanDir_rejecting) (auto simp: fdDirFilter_def)
qed

lemma openedFiles_unreadable: "openedFiles None = Some 0" "threads None = Some []"
  by (simp_all add: openedFiles_def threads_def scanDir_def)

lemma threads_sorted: "threads dir = Some ts \<Longrightarrow> sorted ts"
  by (auto simp: threads_def)

lemma printed_int:
  assumes "fits_i32 v"
  shows "until_NUL (snprintf_mem 32 (fmt_d v)) = fmt_d v"
proof -
  have d: "length (dec_nat n) \<le> 10" if "n \<le> 2 ^ 31" for n
    using dec_nat_length_le[of n 9] that by simp
  have "nat v \<le> 2 ^ 31" "nat (- v) \<le> 2 ^ 31" using assms by (auto simp: fits_i32_def)
  from this[THEN d] have "length (fmt_d v) < 32" by (simp add: fmt_d_def)
  moreover have "NUL \<notin> set (fmt_d v)" by (simp add: fmt_d_def dec_nat_no_NUL)
  ultimately show ?thesis by (simp add: snprintf_mem_def)
qed

lemma pidString_text: "fits_i32 pid \<Longrightarrow> pidString pid = fmt_d pid"
  by (simp add: pidString_def printed_int)

lemma taskDirFilter_dec:
  assumes "int n < 2 ^ 31"
  shows "taskDirFilter (dec_nat n) acc = Some (0, acc @ [int n])"
proof -
  have "atoi (c_string (dec_nat n)) = Some (int n)"
    using atoi_dec_nat[of "[]" "[]" n "[]"] assms by (simp add: c_string_def)
  moreover have "is_digit (c_string (dec_nat n) ! 0)"
    using dec_nat_is_digit[of "dec_nat n ! 0" n] by (simp add: c_string_def nth_append)
  ultimately show ?thesis by (simp add: taskDirFilter_def)
qed

lemma threads_of_tids:
  assumes "\<forall>n \<in> set tids. int n < 2 ^ 31"
  shows "threads (Some (map dec_nat tids)) = Some (sort (map int tids))"
proof -
  have "fold_opt (\<lambda>d r. map_option snd (taskDirFilter d r)) (map dec_nat tids) acc = Some (acc @ map int tids)" for acc
    using assms by (induction tids arbitrary: acc) (auto simp: taskDirFilter_dec)
  then show ?thesis by (simp add: threads_def scanDir_rejecting[of taskDirFilter, OF taskDirFilter_rejects])
qed

end
