(* ===== verification/Thread.thy ===== *)
theory Thread
  imports Sync ProcessInfo
begin

text \<open>Threads (CurrentThread.h, CurrentThread.cc, Thread.h, Thread.cc, Exception.h, Exception.cc): the
  thread-local identity every log line starts with, the life of a \<open>Thread\<close> object, what happens to the
  exceptions of its function, and the text of a stack trace.\<close>

section \<open>The current thread\<close>

record thread_locals =
  t_cachedTid :: int
  t_tidString :: bytes
  t_tidStringLength :: int
  t_threadName :: bytes

definition thread_locals_new :: thread_locals where
  "thread_locals_new =
     \<lparr>t_cachedTid = 0, t_tidString = replicate 32 NUL, t_tidStringLength = 6, t_threadName = ''unknown''\<rparr>"

text \<open>\<open>gettid\<close> is the number the kernel gives the calling thread.\<close>

definition cacheTid :: "int \<Rightarrow> thread_locals \<Rightarrow> thread_locals" where
  "cacheTid gettid loc =
     (if t_cachedTid loc = 0
      then loc\<lparr>t_cachedTid := gettid,
              t_tidString := write_at 0 (snprintf_mem 32 (fmt_d_space 5 gettid)) (t_tidString loc),
              t_tidStringLength := int (length (fmt_d_space 5 gettid))\<rparr>
      else loc)"

definition tid :: "int \<Rightarrow> thread_locals \<Rightarrow> int \<times> thread_locals" where
  "tid gettid loc =
     (let loc' = (if t_cachedTid loc = 0 then cacheTid gettid loc else loc) in (t_cachedTid loc', loc'))"

definition isMainThread :: "int \<Rightarrow> int \<Rightarrow> thread_locals \<Rightarrow> bool \<times> thread_locals" where
  "isMainThread getpid gettid loc = (case tid gettid loc of (n, loc') \<Rightarrow> (n = getpid, loc'))"

text \<open>The time specification \<open>sleepUsec\<close> passes to \<open>nanosleep\<close>.\<close>

definition sleepUsec_timespec :: "int \<Rightarrow> int \<times> int" where
  "sleepUsec_timespec usec = (usec sdiv 1000000, usec smod 1000000 * 1000)"

definition ThreadNameInitializer :: "int \<Rightarrow> thread_locals \<Rightarrow> thread_locals" where
  "ThreadNameInitializer gettid loc = snd (tid gettid (loc\<lparr>t_threadName := ''main''\<rparr>))"

definition afterFork :: "int \<Rightarrow> thread_locals \<Rightarrow> thread_locals" where
  "afterFork gettid loc = snd (tid gettid (loc\<lparr>t_cachedTid := 0, t_threadName := ''main''\<rparr>))"

section \<open>Stack traces\<close>

text \<open>One line of \<open>stackTrace\<close>.  With \<open>demangle\<close>, the part between the last \<open>(\<close> and the last \<open>+\<close> is replaced by
  what \<open>__cxa_demangle\<close> (an argument) makes of it, if it makes anything of it.  The \<open>+\<close> is overwritten with
  a NUL during the call, so that the mangled name ends there.\<close>

definition stack_line :: "bool \<Rightarrow> (bytes \<Rightarrow> bytes option) \<Rightarrow> bytes \<Rightarrow> bytes" where
  "stack_line demangle cxa_demangle line =
     (let newline = [CHR 0x0A]; fallback = line @ newline in
      if demangle
      then (case (rfind_char CHR ''('' line, rfind_char CHR ''+'' line) of
              (Some left_par, Some plus_at) \<Rightarrow>
                (case cxa_demangle (until_NUL (drop (left_par + 1) (c_string (line[plus_at := NUL])))) of
                   Some demangled \<Rightarrow> take (left_par + 1) line @ demangled @ drop plus_at line @ newline
                 | None \<Rightarrow> fallback)
            | _ \<Rightarrow> fallback)
      else fallback)"

definition stackTrace :: "bool \<Rightarrow> (bytes \<Rightarrow> bytes option) \<Rightarrow> bytes list option \<Rightarrow> bytes" where
  "stackTrace demangle cxa_demangle strings =
     (case strings of None \<Rightarrow> [] | Some ls \<Rightarrow> concat (map (stack_line demangle cxa_demangle) (drop 1 ls)))"

record Exception =
  message :: bytes
  stack :: bytes

definition Exception_new :: "bytes \<Rightarrow> (bytes \<Rightarrow> bytes option) \<Rightarrow> bytes list option \<Rightarrow> Exception" where
  "Exception_new msg cxa_demangle strings = \<lparr>message = msg, stack = stackTrace False cxa_demangle strings\<rparr>"

definition Exception_what :: "Exception \<Rightarrow> bytes" where
  "Exception_what ex = c_string (message ex)"

definition Exception_stackTrace :: "Exception \<Rightarrow> bytes" where
  "Exception_stackTrace ex = c_string (stack ex)"

section \<open>Thread\<close>

record Thread =
  th_started :: bool
  th_joined :: bool
  th_tid :: int
  th_name :: bytes
  th_latch :: int

text \<open>The constructor with \<open>setDefaultName\<close>: every new thread takes the next number of the atomic counter
  \<open>numCreated_\<close>.\<close>

definition setDefaultName :: "Thread \<Rightarrow> 32 word \<Rightarrow> Thread \<times> 32 word" where
  "setDefaultName th numCreated =
     (case atomic_incrementAndGet numCreated of (num, numCreated') \<Rightarrow>
        (if th_name th = []
         then th\<lparr>th_name := until_NUL (snprintf_mem 32 (''Thread'' @ fmt_d (sint num)))\<rparr> else th, numCreated'))"

definition Thread_new :: "bytes \<Rightarrow> 32 word \<Rightarrow> Thread \<times> 32 word" where
  "Thread_new n numCreated =
     setDefaultName \<lparr>th_started = False, th_joined = False, th_tid = 0, th_name = n, th_latch = 1\<rparr> numCreated"

text \<open>What the thread's function does, and how \<open>runInThread\<close> ends.\<close>

datatype func_outcome = Completes | Throws Exception | Throws_std bytes | Throws_other

datatype thread_exit = Returns | Aborts | Rethrows

definition crash_line :: "Thread \<Rightarrow> bytes" where
  "crash_line th = ''exception caught in Thread '' @ until_NUL (c_string (th_name th)) @ [CHR 0x0A]"

text \<open>\<open>runInThread\<close>: first the part the creator waits for, then the function.\<close>

definition runInThread_begin :: "int \<Rightarrow> Thread \<Rightarrow> thread_locals \<Rightarrow> Thread \<times> thread_locals" where
  "runInThread_begin gettid th loc =
     (case tid gettid loc of (n, loc') \<Rightarrow> (th\<lparr>th_tid := n, th_latch := th_latch th - 1\<rparr>, loc'))"

definition runInThread_rest :: "func_outcome \<Rightarrow> Thread \<Rightarrow> thread_locals \<Rightarrow> thread_locals \<times> bytes \<times> thread_exit" where
  "runInThread_rest out th loc =
     (let running = loc\<lparr>t_threadName := (if th_name th = [] then ''Thread'' else th_name th)\<rparr>;
          crashed = running\<lparr>t_threadName := ''crashed''\<rparr>
      in case out of
           Completes \<Rightarrow> (running\<lparr>t_threadName := ''finished''\<rparr>, [], Returns)
         | Throws ex \<Rightarrow>
             (crashed, crash_line th @ ''reason: '' @ until_NUL (Exception_what ex) @ [CHR 0x0A]
                @ ''stack trace: '' @ until_NUL (Exception_stackTrace ex) @ [CHR 0x0A], Aborts)
         | Throws_std what \<Rightarrow> (crashed, crash_line th @ ''reason: '' @ what @ [CHR 0x0A], Aborts)
         | Throws_other \<Rightarrow> (crashed, ''unknown '' @ crash_line th, Rethrows))"

text \<open>\<open>start\<close>: \<open>create\<close> is what \<open>pthread_create\<close> returned; when it is 0, the new thread runs up to the count
  down of the latch before \<open>start\<close> goes on.\<close>

definition Thread_start :: "int \<Rightarrow> int \<Rightarrow> Thread \<Rightarrow> Thread option" where
  "Thread_start create gettid th =
     (if th_started th then None
      else let th1 = th\<lparr>th_started := True\<rparr> in
        if create \<noteq> 0 then Some (th1\<lparr>th_started := False\<rparr>)
        else let th2 = fst (runInThread_begin gettid th1 thread_locals_new) in
          if 0 < th_latch th2 \<or> \<not> 0 < th_tid th2 then None else Some th2)"

definition Thread_join :: "Thread \<Rightarrow> Thread option" where
  "Thread_join th = (if \<not> th_started th \<or> th_joined th then None else Some (th\<lparr>th_joined := True\<rparr>))"

text \<open>Whether the destructor detaches the thread.\<close>

definition Thread_detaches :: "Thread \<Rightarrow> bool" where
  "Thread_detaches th \<longleftrightarrow> th_started th \<and> \<not> th_joined th"

section \<open>Facts\<close>

text \<open>The cache: after the first call, and until a fork, \<open>tid\<close> is what the kernel said, and the string is its
  decimal notation, right-aligned in five columns.\<close>

definition cached :: "int \<Rightarrow> thread_locals \<Rightarrow> bool" where
  "cached n loc \<longleftrightarrow> t_cachedTid loc = n \<and> take (length (fmt_d_space 5 n)) (t_tidString loc) = fmt_d_space 5 n
     \<and> t_tidStringLength loc = int (length (fmt_d_space 5 n)) \<and> length (t_tidString loc) = 32
     \<and> c_strlen (t_tidString loc) = Some (length (fmt_d_space 5 n))"

lemma length_fmt_d_space_tid:
  assumes "0 < n" "n < 2 ^ 31"
  shows "length (fmt_d_space 5 n) \<le> 10" "5 \<le> length (fmt_d_space 5 n)"
proof -
  have "nat n < 10 ^ 10" using assms by (simp add: nat_less_iff)
  then have "length (dec_nat (nat n)) \<le> 10" using dec_nat_length_le[of "nat n" 9] by simp
  then show "length (fmt_d_space 5 n) \<le> 10" "5 \<le> length (fmt_d_space 5 n)"
    using assms(1) by (simp_all add: fmt_d_space_def fmt_d_def)
qed

lemma cacheTid_cached:
  assumes "0 < n" "n < 2 ^ 31" "t_cachedTid loc = 0" "length (t_tidString loc) = 32"
  shows "cached n (cacheTid n loc)"
proof -
  let ?s = "fmt_d_space 5 n"
  note len = length_fmt_d_space_tid[OF assms(1,2)]
  have no: "NUL \<notin> set ?s" by (simp add: fmt_d_space_def fmt_d_no_NUL)
  have mem: "write_at 0 (snprintf_mem 32 ?s) (t_tidString loc) = ?s @ NUL # drop (Suc (length ?s)) (t_tidString loc)"
    using len(1) by (simp add: write_at_def snprintf_mem_def)
  show ?thesis
    using assms(3,4) len(1) no
    by (simp add: cached_def cacheTid_def mem c_strlen_append_NUL)
qed

lemma tid_cached: "cached n loc \<Longrightarrow> 0 < n \<Longrightarrow> tid g loc = (n, loc)"
  by (simp add: tid_def cached_def)

lemma runInThread_exits:
  "snd (snd (runInThread_rest out th loc)) = Returns \<longleftrightarrow> out = Completes"
  "t_threadName (fst (runInThread_rest out th loc)) = (if out = Completes then ''finished'' else ''crashed'')"
  by (cases out; simp add: runInThread_rest_def Let_def)+

lemma stack_line_demangled:
  assumes "CHR ''('' \<notin> set (name @ CHR ''+'' # rest)" "CHR ''+'' \<notin> set rest" "NUL \<notin> set name"
    "dem name = Some nice"
  shows "stack_line True dem (obj @ CHR ''('' # name @ CHR ''+'' # rest)
    = obj @ CHR ''('' # nice @ CHR ''+'' # rest @ [CHR 0x0A]"
proof -
  let ?l = "obj @ CHR ''('' # name @ CHR ''+'' # rest"
  have p: "rfind_char CHR ''('' ?l = Some (length obj)" using rfind_char_append[OF assms(1), of obj] by simp
  have q: "rfind_char CHR ''+'' ?l = Some (Suc (length obj + length name))"
    using rfind_char_append[OF assms(2), of "obj @ CHR ''('' # name"] by simp
  have u: "?l[Suc (length obj + length name) := NUL] = obj @ CHR ''('' # name @ NUL # rest"
    by (simp add: list_update_append)
  have d: "until_NUL (drop (length obj + 1) (c_string (obj @ CHR ''('' # name @ NUL # rest))) = name"
    using assms(3) by (simp add: c_string_def)
  have e: "take (length obj + 1) ?l = obj @ ''(''" "drop (Suc (length obj + length name)) ?l = CHR ''+'' # rest"
    by simp_all
  show ?thesis
    unfolding stack_line_def Let_def p q option.case prod.case u d assms(4) e by simp
qed

section \<open>The life of a thread object\<close>

text \<open>What the program does with the object before it destroys it, and what that does to the pthread.\<close>

datatype thread_op = OpStart int int | OpJoin

datatype thread_effect = Created | JoinedThread | Detached

fun thread_apply :: "thread_op \<Rightarrow> Thread \<times> thread_effect list \<Rightarrow> (Thread \<times> thread_effect list) option" where
  "thread_apply (OpStart create gettid) (th, es) =
     map_option (\<lambda>th'. (th', if create = 0 then es @ [Created] else es)) (Thread_start create gettid th)"
| "thread_apply OpJoin (th, es) = map_option (\<lambda>th'. (th', es @ [JoinedThread])) (Thread_join th)"

definition thread_life :: "thread_op list \<Rightarrow> bytes \<Rightarrow> 32 word \<Rightarrow> thread_effect list option" where
  "thread_life ops n numCreated =
     map_option (\<lambda>(th, es). es @ (if Thread_detaches th then [Detached] else []))
       (fold_opt thread_apply ops (fst (Thread_new n numCreated), []))"

definition life_inv :: "Thread \<times> thread_effect list \<Rightarrow> bool" where
  "life_inv s \<longleftrightarrow> snd s = (if th_started (fst s) then if th_joined (fst s) then [Created, JoinedThread] else [Created] else [])
     \<and> (th_joined (fst s) \<longrightarrow> th_started (fst s))"

lemma thread_apply_inv: "thread_apply op s = Some s' \<Longrightarrow> life_inv s \<Longrightarrow> life_inv s'"
  by (cases "(op, s)" rule: thread_apply.cases)
    (auto simp: life_inv_def Thread_start_def Thread_join_def Let_def runInThread_begin_def tid_def cacheTid_def
      thread_locals_new_def split: if_splits)

text \<open>Whatever sequence of \<open>start\<close> and \<open>join\<close> the assertions let through before the object is destroyed: a
  pthread is created at most once, and if it is, it is joined or detached, exactly one of the two, exactly
  once.\<close>

theorem thread_joined_xor_detached:
  assumes "thread_life ops n numCreated = Some es"
  shows "es \<in> {[], [Created, JoinedThread], [Created, Detached]}"
proof -
  obtain th es' where r: "fold_opt thread_apply ops (fst (Thread_new n numCreated), []) = Some (th, es')"
    and es: "es = es' @ (if Thread_detaches th then [Detached] else [])"
    using assms by (auto simp: thread_life_def)
  have "life_inv (fst (Thread_new n numCreated), [])"
    by (simp add: life_inv_def Thread_new_def setDefaultName_def atomic_incrementAndGet_def atomic_addAndGet_is_new)
  with r have "life_inv (th, es')"
    by (rule fold_opt_invariant[where I = life_inv]) (rule thread_apply_inv)
  then show ?thesis using es by (auto simp: life_inv_def Thread_detaches_def split: if_splits)
qed

theorem thread_joined_xor_detached_witness:
  "\<exists>es. thread_life [OpStart 11 0, OpStart 0 4711, OpJoin] ''worker'' 0 = Some es
    \<and> es \<in> {[], [Created, JoinedThread], [Created, Detached]}"
proof -
  have "\<exists>es. thread_life [OpStart 11 0, OpStart 0 4711, OpJoin] ''worker'' 0 = Some es"
    by (simp add: thread_life_def Thread_new_def setDefaultName_def atomic_incrementAndGet_def
        atomic_addAndGet_is_new Thread_start_def Thread_join_def Let_def runInThread_begin_def tid_def cacheTid_def
        thread_locals_new_def)
  then obtain es where "thread_life [OpStart 11 0, OpStart 0 4711, OpJoin] ''worker'' 0 = Some es" by blast
  with thread_joined_xor_detached[OF this] show ?thesis by blast
qed

end
