(* ===== verification/Logging.thy ===== *)
theory Logging
  imports LogStream Timestamp TimeZone Thread
begin

text \<open>The logger front end (Logging.h, Logging.cc): levels, the name of the source file, the time stamp with its
  per-thread cache, the line a \<open>LOG_*\<close> statement builds in its \<open>LogStream\<close>, and the hand-over to the output
  function when the statement's temporary \<open>Logger\<close> is destroyed.

  The thread-local variables and the globals are records that are passed along.  What the statement takes
  from outside is an argument: the clock, \<open>gettid\<close>, \<open>errno\<close>, the text of \<open>strerror_r\<close>, and the uninitialised
  memory of the stream and behind the characters that \<open>operator<<(char)\<close> takes the address of.  Undefined
  behaviour and failed assertions are \<open>None\<close>.\<close>

section \<open>Levels\<close>

datatype LogLevel = TRACE | DEBUG | INFO | WARN | ERROR | FATAL

fun level_number :: "LogLevel \<Rightarrow> nat" where
  "level_number TRACE = 0"
| "level_number DEBUG = 1"
| "level_number INFO = 2"
| "level_number WARN = 3"
| "level_number ERROR = 4"
| "level_number FATAL = 5"

lemma level_number_inj: "level_number a = level_number b \<Longrightarrow> a = b"
  by (cases a; cases b) simp_all

instantiation LogLevel :: linorder
begin

definition less_eq_LogLevel :: "LogLevel \<Rightarrow> LogLevel \<Rightarrow> bool" where
  "less_eq_LogLevel a b \<longleftrightarrow> level_number a \<le> level_number b"

definition less_LogLevel :: "LogLevel \<Rightarrow> LogLevel \<Rightarrow> bool" where
  "less_LogLevel a b \<longleftrightarrow> level_number a < level_number b"

instance
  by standard (auto simp: less_eq_LogLevel_def less_LogLevel_def intro: level_number_inj)

end

definition LogLevelName :: "LogLevel \<Rightarrow> string" where
  "LogLevelName level =
     [''TRACE '', ''DEBUG '', ''INFO  '', ''WARN  '', ''ERROR '', ''FATAL ''] ! level_number level"

lemma LogLevelName_simps [simp]:
  "LogLevelName TRACE = ''TRACE ''" "LogLevelName DEBUG = ''DEBUG ''" "LogLevelName INFO = ''INFO  ''"
  "LogLevelName WARN = ''WARN  ''" "LogLevelName ERROR = ''ERROR ''" "LogLevelName FATAL = ''FATAL ''"
  by (simp_all add: LogLevelName_def)

section \<open>Source file names\<close>

record SourceFile =
  sf_data :: bytes
  sf_size :: int

text \<open>From an array of \<open>N\<close> characters, as \<open>__FILE__\<close> is one, and from a pointer.\<close>

definition SourceFile_of_array :: "bytes \<Rightarrow> SourceFile" where
  "SourceFile_of_array arr =
     (case rfind_char CHR ''/'' (until_NUL arr) of
        Some slash \<Rightarrow> \<lparr>sf_data = drop (slash + 1) arr, sf_size = int (length arr) - 1 - int (slash + 1)\<rparr>
      | None \<Rightarrow> \<lparr>sf_data = arr, sf_size = int (length arr) - 1\<rparr>)"

definition SourceFile_of_pointer :: "bytes \<Rightarrow> SourceFile option" where
  "SourceFile_of_pointer filename =
     (let data = (case rfind_char CHR ''/'' (until_NUL filename) of
                    Some slash \<Rightarrow> drop (slash + 1) filename | None \<Rightarrow> filename)
      in map_option (\<lambda>n. \<lparr>sf_data = data, sf_size = int n\<rparr>) (c_strlen data))"

section \<open>Thread-local variables and globals\<close>

record log_locals =
  lg_thread :: thread_locals
  t_time :: bytes
  t_lastSecond :: int

definition log_locals_new :: "thread_locals \<Rightarrow> log_locals" where
  "log_locals_new th = \<lparr>lg_thread = th, t_time = replicate 64 NUL, t_lastSecond = 0\<rparr>"

text \<open>The output functions act on the standard output and on whatever else (\<open>'x\<close>) the program lets them.\<close>

record 'x io =
  io_stdout :: FILE
  io_rest :: 'x

record 'x log_globals =
  g_logLevel :: LogLevel
  g_output :: "bytes \<Rightarrow> int \<Rightarrow> 'x io \<Rightarrow> 'x io option"
  g_flush :: "'x io \<Rightarrow> 'x io"
  g_logTimeZone :: TimeZone

definition defaultOutput :: "bytes \<Rightarrow> int \<Rightarrow> 'x io \<Rightarrow> 'x io option" where
  "defaultOutput msg len o' = Some (o'\<lparr>io_stdout := snd (fwrite_unlocked (take (nat len) msg) (io_stdout o'))\<rparr>)"

definition defaultFlush :: "'x io \<Rightarrow> 'x io" where
  "defaultFlush o' = o'\<lparr>io_stdout := fflush (io_stdout o')\<rparr>"

definition log_globals_new :: "'x log_globals" where
  "log_globals_new =
     \<lparr>g_logLevel = INFO, g_output = defaultOutput, g_flush = defaultFlush, g_logTimeZone = TimeZone_none\<rparr>"

definition logLevel :: "'x log_globals \<Rightarrow> LogLevel" where "logLevel g = g_logLevel g"

definition setLogLevel :: "LogLevel \<Rightarrow> 'x log_globals \<Rightarrow> 'x log_globals" where
  "setLogLevel level g = g\<lparr>g_logLevel := level\<rparr>"

definition setFlush :: "('x io \<Rightarrow> 'x io) \<Rightarrow> 'x log_globals \<Rightarrow> 'x log_globals" where
  "setFlush flush g = g\<lparr>g_flush := flush\<rparr>"

definition setOutput :: "(bytes \<Rightarrow> int \<Rightarrow> 'x io \<Rightarrow> 'x io option) \<Rightarrow> 'x log_globals \<Rightarrow> 'x log_globals" where
  "setOutput out g = g\<lparr>g_output := out\<rparr>"

definition setDefaultOutput :: "'x log_globals \<Rightarrow> 'x log_globals" where
  "setDefaultOutput g = g\<lparr>g_output := defaultOutput\<rparr>"

definition setTimeZone :: "TimeZone \<Rightarrow> 'x log_globals \<Rightarrow> 'x log_globals" where
  "setTimeZone tz g = g\<lparr>g_logTimeZone := tz\<rparr>"

section \<open>The logger\<close>

record Impl =
  im_time :: Timestamp
  im_stream :: log_stream
  im_level :: LogLevel
  im_line :: "32 word"
  im_basename :: SourceFile

text \<open>The broken-down time of a second: in the zone that was set, else UTC.\<close>

definition log_tm :: "TimeZone \<Rightarrow> int \<Rightarrow> tm option" where
  "log_tm tz seconds = (if TimeZone_valid tz then toLocalTime tz seconds else Some (gmtime_r seconds))"

text \<open>The cached text is renewed only when the second has changed.\<close>

definition refresh_time :: "TimeZone \<Rightarrow> int \<Rightarrow> log_locals \<Rightarrow> log_locals option" where
  "refresh_time tz seconds l =
     (if seconds \<noteq> t_lastSecond l
      then map_option (\<lambda>tm_time. l\<lparr>t_time := write_at 0 (snprintf_mem 64 (format_tm tm_time)) (t_time l),
                                   t_lastSecond := seconds\<rparr>) (log_tm tz seconds)
      else Some l)"

definition formatTime :: "TimeZone \<Rightarrow> log_locals \<Rightarrow> Impl \<Rightarrow> (log_locals \<times> Impl) option" where
  "formatTime tz l im =
     (let microSeconds = microSecondsSinceEpoch (im_time im);
          seconds = microSeconds sdiv kMicroSecondsPerSecond;
          microseconds = microSeconds smod kMicroSecondsPerSecond
      in case refresh_time tz seconds l of
           None \<Rightarrow> None
         | Some l' \<Rightarrow>
             (case Fmt_ctor (''.'' @ fmt_d_zero 6 microseconds @ (if TimeZone_valid tz then '' '' else ''Z '')) of
                None \<Rightarrow> None
              | Some us \<Rightarrow>
                  map_option (\<lambda>s. (l', im\<lparr>im_stream := s\<rparr>))
                    (ls_run [InsPiece (t_time l') 17, InsPiece (fmt_buf us) (fmt_length us)] (im_stream im))))"

definition Impl_new ::
  "TimeZone \<Rightarrow> int \<times> int \<Rightarrow> int \<Rightarrow> (int \<Rightarrow> string) \<Rightarrow> bytes \<Rightarrow> LogLevel \<Rightarrow> 32 word \<Rightarrow> SourceFile \<Rightarrow> 32 word
     \<Rightarrow> log_locals \<Rightarrow> (log_locals \<times> Impl) option" where
  "Impl_new tz timeofday gettid strerror_r junk level savedErrno file line l =
     (let im0 = \<lparr>im_time = Timestamp_now timeofday, im_stream = ls_new junk, im_level = level, im_line = line,
                 im_basename = file\<rparr>
      in case formatTime tz l im0 of
           None \<Rightarrow> None
         | Some (l1, im1) \<Rightarrow>
             (let th = snd (tid gettid (lg_thread l1));
                  ops = [InsPiece (t_tidString th) (t_tidStringLength th), InsCstr (Some (c_string '' '')),
                         InsPiece (c_string (LogLevelName level)) 6] @
                        (if savedErrno \<noteq> 0
                         then [InsCstr (Some (c_string (strerror_r (sint savedErrno)))),
                               InsCstr (Some (c_string '' (errno='')), InsInt savedErrno,
                               InsCstr (Some (c_string '') ''))]
                         else [])
              in map_option (\<lambda>s. (l1\<lparr>lg_thread := th\<rparr>, im1\<lparr>im_stream := s\<rparr>)) (ls_run ops (im_stream im1))))"

text \<open>\<open>operator<<\<close> for a source file.\<close>

definition ls_SourceFile :: "SourceFile \<Rightarrow> ls_op" where
  [simp]: "ls_SourceFile v = InsAppend (sf_data v) (sf_size v)"

text \<open>\<open>finish\<close>; the two arguments are the memory behind the characters \<open>':'\<close> and \<open>'\n'\<close>.\<close>

definition finish :: "bytes \<Rightarrow> bytes \<Rightarrow> Impl \<Rightarrow> Impl option" where
  "finish stack1 stack2 im =
     map_option (\<lambda>s. im\<lparr>im_stream := s\<rparr>)
       (ls_run [InsCstr (Some (c_string '' - '')), ls_SourceFile (im_basename im),
                InsChar stack1 CHR '':'', InsInt (im_line im), InsChar stack2 CHR 0x0A] (im_stream im))"

text \<open>The destructor.\<close>

datatype log_end = Goes_on | Aborted

definition Logger_destroy :: "'x log_globals \<Rightarrow> bytes \<Rightarrow> bytes \<Rightarrow> Impl \<Rightarrow> 'x io \<Rightarrow> (log_end \<times> 'x io) option" where
  "Logger_destroy g stack1 stack2 im o' =
     (case finish stack1 stack2 im of
        None \<Rightarrow> None
      | Some im' \<Rightarrow>
          (let b = buffer (im_stream im') in
           case g_output g (fb_data b) (int (fb_length b)) o' of
             None \<Rightarrow> None
           | Some o1 \<Rightarrow> if im_level im' = FATAL then Some (Aborted, g_flush g o1) else Some (Goes_on, o1)))"

section \<open>The macros\<close>

datatype log_macro =
  LOG_TRACE | LOG_DEBUG | LOG_INFO | LOG_WARN | LOG_ERROR | LOG_FATAL | LOG_SYSERR | LOG_SYSFATAL

fun macro_guard :: "log_macro \<Rightarrow> LogLevel \<Rightarrow> bool" where
  "macro_guard LOG_TRACE level = (level \<le> TRACE)"
| "macro_guard LOG_DEBUG level = (level \<le> DEBUG)"
| "macro_guard LOG_INFO level = (level \<le> INFO)"
| "macro_guard _ level = True"

text \<open>The constructor each macro calls: the level, whether \<open>errno\<close> is saved, whether the function's name goes
  in front of the message.\<close>

fun macro_level :: "log_macro \<Rightarrow> LogLevel" where
  "macro_level LOG_TRACE = TRACE"
| "macro_level LOG_DEBUG = DEBUG"
| "macro_level LOG_INFO = INFO"
| "macro_level LOG_WARN = WARN"
| "macro_level LOG_ERROR = ERROR"
| "macro_level LOG_FATAL = FATAL"
| "macro_level LOG_SYSERR = ERROR"
| "macro_level LOG_SYSFATAL = FATAL"

fun macro_saves_errno :: "log_macro \<Rightarrow> bool" where
  "macro_saves_errno LOG_SYSERR = True"
| "macro_saves_errno LOG_SYSFATAL = True"
| "macro_saves_errno _ = False"

fun macro_func :: "log_macro \<Rightarrow> bool" where
  "macro_func LOG_TRACE = True"
| "macro_func LOG_DEBUG = True"
| "macro_func _ = False"

text \<open>What surrounds a statement: the clock, \<open>gettid\<close>, \<open>errno\<close>, \<open>strerror_r\<close>, the text of \<open>__FILE__\<close>,
  \<open>__LINE__\<close> and \<open>__func__\<close>, and the uninitialised memory.\<close>

record log_site =
  ls_clock :: "int \<times> int"
  ls_gettid :: int
  ls_errno :: "32 word"
  ls_strerror :: "int \<Rightarrow> string"
  ls_file :: string
  ls_line :: "32 word"
  ls_func :: string
  ls_junk :: bytes
  ls_stack0 :: bytes
  ls_stack1 :: bytes
  ls_stack2 :: bytes

definition Logger_new :: "log_macro \<Rightarrow> TimeZone \<Rightarrow> log_site \<Rightarrow> log_locals \<Rightarrow> (log_locals \<times> Impl) option" where
  "Logger_new mac tz site l =
     (case Impl_new tz (ls_clock site) (ls_gettid site) (ls_strerror site) (ls_junk site) (macro_level mac)
             (if macro_saves_errno mac then ls_errno site else 0) (SourceFile_of_array (c_string (ls_file site)))
             (ls_line site) l of
        None \<Rightarrow> None
      | Some (l1, im) \<Rightarrow>
          (if macro_func mac
           then map_option (\<lambda>s. (l1, im\<lparr>im_stream := s\<rparr>))
                  (ls_run [InsCstr (Some (c_string (ls_func site))), InsChar (ls_stack0 site) CHR '' ''] (im_stream im))
           else Some (l1, im)))"

text \<open>A whole statement \<open>LOG_X << x << y << ...;\<close>, with the insertions \<open>ops\<close>.\<close>

definition log_statement ::
  "'x log_globals \<Rightarrow> log_macro \<Rightarrow> log_site \<Rightarrow> ls_op list \<Rightarrow> log_locals \<times> 'x io
     \<Rightarrow> (log_end \<times> log_locals \<times> 'x io) option" where
  "log_statement g mac site ops st =
     (if \<not> macro_guard mac (logLevel g) then Some (Goes_on, st)
      else case Logger_new mac (g_logTimeZone g) site (fst st) of
        None \<Rightarrow> None
      | Some (l1, im) \<Rightarrow>
          (case ls_run ops (im_stream im) of
             None \<Rightarrow> None
           | Some s \<Rightarrow>
               map_option (\<lambda>(e, o'). (e, l1, o'))
                 (Logger_destroy g (ls_stack1 site) (ls_stack2 site) (im\<lparr>im_stream := s\<rparr>) (snd st))))"

section \<open>A statement as one chain of insertions\<close>

definition us_text :: "TimeZone \<Rightarrow> Timestamp \<Rightarrow> string" where
  "us_text tz time =
     ''.'' @ fmt_d_zero 6 (microSecondsSinceEpoch time smod kMicroSecondsPerSecond)
       @ (if TimeZone_valid tz then '' '' else ''Z '')"

definition site_time :: "log_site \<Rightarrow> Timestamp" where
  "site_time site = Timestamp_now (ls_clock site)"

definition site_second :: "log_site \<Rightarrow> int" where
  "site_second site = microSecondsSinceEpoch (site_time site) sdiv kMicroSecondsPerSecond"

definition errno_ops :: "log_macro \<Rightarrow> log_site \<Rightarrow> ls_op list" where
  "errno_ops mac site =
     (if macro_saves_errno mac \<and> ls_errno site \<noteq> 0
      then [InsCstr (Some (c_string (ls_strerror site (sint (ls_errno site))))),
            InsCstr (Some (c_string '' (errno='')), InsInt (ls_errno site), InsCstr (Some (c_string '') ''))]
      else [])"

definition func_ops :: "log_macro \<Rightarrow> log_site \<Rightarrow> ls_op list" where
  "func_ops mac site =
     (if macro_func mac then [InsCstr (Some (c_string (ls_func site))), InsChar (ls_stack0 site) CHR '' ''] else [])"

definition finish_ops :: "SourceFile \<Rightarrow> log_site \<Rightarrow> ls_op list" where
  "finish_ops sf site =
     [InsCstr (Some (c_string '' - '')), InsAppend (sf_data sf) (sf_size sf), InsChar (ls_stack1 site) CHR '':'',
      InsInt (ls_line site), InsChar (ls_stack2 site) CHR 0x0A]"

definition header_ops :: "log_macro \<Rightarrow> TimeZone \<Rightarrow> log_site \<Rightarrow> bytes \<Rightarrow> thread_locals \<Rightarrow> ls_op list" where
  "header_ops mac tz site tm_text th =
     InsPiece tm_text 17
     # InsPiece (snprintf_mem 32 (us_text tz (site_time site))) (int (length (us_text tz (site_time site))))
     # InsPiece (t_tidString th) (t_tidStringLength th)
     # InsCstr (Some (c_string '' ''))
     # InsPiece (c_string (LogLevelName (macro_level mac))) 6
     # errno_ops mac site @ func_ops mac site"

abbreviation site_sf :: "log_site \<Rightarrow> SourceFile" where
  "site_sf site \<equiv> SourceFile_of_array (c_string (ls_file site))"

abbreviation site_thread :: "log_site \<Rightarrow> log_locals \<Rightarrow> thread_locals" where
  "site_thread site l \<equiv> snd (tid (ls_gettid site) (lg_thread l))"

lemma formatTime_eq:
  assumes "refresh_time tz (microSecondsSinceEpoch (im_time im) sdiv kMicroSecondsPerSecond) l = Some l1"
    and "length (us_text tz (im_time im)) < 32"
  shows "formatTime tz l im = map_option (\<lambda>s. (l1, im\<lparr>im_stream := s\<rparr>))
    (ls_run [InsPiece (t_time l1) 17,
       InsPiece (snprintf_mem 32 (us_text tz (im_time im))) (int (length (us_text tz (im_time im))))] (im_stream im))"
  using assms unfolding formatTime_def Let_def us_text_def [symmetric] by (simp add: Fmt_ctor_def)

lemma Logger_new_eq:
  assumes "refresh_time tz (site_second site) l = Some l1" and "length (us_text tz (site_time site)) < 32"
  shows "Logger_new mac tz site l =
    map_option (\<lambda>s. (l1\<lparr>lg_thread := site_thread site l1\<rparr>,
        \<lparr>im_time = site_time site, im_stream = s, im_level = macro_level mac, im_line = ls_line site,
         im_basename = site_sf site\<rparr>))
      (ls_run (header_ops mac tz site (t_time l1) (site_thread site l1)) (ls_new (ls_junk site)))"
  unfolding Logger_new_def Impl_new_def Let_def
  by (subst formatTime_eq [of _ _ _ l1])
    (use assms in \<open>auto simp: site_second_def site_time_def header_ops_def errno_ops_def func_ops_def fold_opt_append
        split: option.splits\<close>)

lemma log_statement_eq:
  assumes "macro_guard mac (logLevel g)" and "refresh_time (g_logTimeZone g) (site_second site) l = Some l1"
    and "length (us_text (g_logTimeZone g) (site_time site)) < 32"
    and "ls_run (header_ops mac (g_logTimeZone g) site (t_time l1) (site_thread site l1) @ ops
           @ finish_ops (site_sf site) site) (ls_new (ls_junk site)) = Some s"
  shows "log_statement g mac site ops (l, o') =
    map_option (\<lambda>o1. (if macro_level mac = FATAL then Aborted else Goes_on,
        l1\<lparr>lg_thread := site_thread site l1\<rparr>, if macro_level mac = FATAL then g_flush g o1 else o1))
      (g_output g (fb_data (buffer s)) (int (fb_length (buffer s))) o')"
  using assms(1,4)
  by (auto simp: log_statement_def Logger_new_eq [OF assms(2,3)] fold_opt_append Logger_destroy_def finish_def
      finish_ops_def Let_def split: option.splits if_splits)

section \<open>What the insertions of a statement write\<close>

text \<open>\<open>chain ops t n\<close>: the insertions meet their obligations, write the text \<open>t\<close> and need at most \<open>n\<close> bytes.\<close>

definition chain :: "ls_op list \<Rightarrow> string \<Rightarrow> nat \<Rightarrow> bool" where
  "chain ops t n \<longleftrightarrow> (\<forall>i\<in>set ops. op_ok i) \<and> concat (map op_text ops) = t \<and> sum_list (map op_need ops) \<le> n"

lemma chain_Nil: "chain [] [] 0"
  by (simp add: chain_def)

lemma chain_append: "chain a t n \<Longrightarrow> chain b u m \<Longrightarrow> chain (a @ b) (t @ u) (n + m)"
  by (auto simp: chain_def)

lemma chain_Cons: "chain [i] t n \<Longrightarrow> chain b u m \<Longrightarrow> chain (i # b) (t @ u) (n + m)"
  using chain_append [of "[i]"] by simp

lemma chain_piece:
  assumes "c_strlen m = Some n" and "0 \<le> k" and "k \<le> int n" and "k < 2 ^ 64" and "n \<le> r"
  shows "chain [InsPiece m k] (take (nat k) m) (Suc r)" and "chain [InsAppend m k] (take (nat k) m) (Suc r)"
  using assms by (simp_all add: chain_def op_ok_def op_need_def nat_le_iff)

lemma chain_text:
  assumes "NUL \<notin> set t" and "length t \<le> n"
  shows "chain [InsCstr (Some (c_string t))] t (Suc n)"
  using assms by (simp add: chain_def op_ok_def op_need_def c_string_def c_strlen_append_NUL)

lemma chain_char:
  assumes "c \<noteq> NUL" and "c_strlen stk = Some n"
  shows "chain [InsChar stk c] [c] (Suc (Suc n))"
  using assms by (simp add: chain_def op_ok_def op_need_def)

lemma chain_int: "chain [InsInt v] (fmt_d (sint v)) 32"
  by (simp add: chain_def op_ok_def op_need_def kMaxNumericSize_def)

lemma chain_run:
  assumes "chain ops t n" and "length junk < 2 ^ 31" and "n \<le> length junk"
  shows "\<exists>s. ls_run ops (ls_new junk) = Some s \<and> ls_wf s \<and> fb_length (buffer s) = length t
    \<and> take (length t) (fb_data (buffer s)) = t \<and> length (fb_data (buffer s)) = length junk"
proof -
  have "ls_wf (ls_new junk)" "ls_room (ls_new junk) = length junk" "ls_text (ls_new junk) = []"
      "fb_end (buffer (ls_new junk)) = length junk"
    using assms(2) by (simp_all add: ls_wf_def ls_new_def fb_new_def fb_wf_def ls_room_def fb_end_def ls_text_def
        fb_toString_def fb_length_def)
  with ls_run_appends [of "ls_new junk" ops] assms(1,3) obtain s where s: "ls_run ops (ls_new junk) = Some s" "ls_wf s"
      "fb_end (buffer s) = length junk" "ls_text s = t"
    by (auto simp: chain_def)
  then have "length t = fb_cur (buffer s)" using length_fb_toString [of "buffer s"] by (simp add: ls_wf_def ls_text_def)
  with s show ?thesis by (auto simp: ls_text_def fb_toString_def fb_length_def fb_end_def)
qed

lemma length_op_text:
  assumes "op_ok i"
  shows "length (op_text i) \<le> op_need i"
proof (cases "op_memory i")
  case None
  from ls_apply_number [OF None assms] obtain mem where mem: "length (op_text i) \<le> length mem"
      "length mem \<le> kMaxNumericSize" "take (length (op_text i)) mem = op_text i"
      "ls_apply i = ls_lift (\<lambda>b. if int kMaxNumericSize \<le> fb_avail b
        then fb_poke mem (length (op_text i)) b else Some b)"
    by blast
  from mem(1,2) None show ?thesis by (simp add: op_need_def)
next
  case (Some ml)
  then obtain m len where ml: "op_memory i = Some (m, len)" by (cases ml) auto
  with assms obtain n where n: "c_strlen m = Some n" "len \<le> n"
    by (auto simp: op_ok_def split: option.splits)
  have "op_text i = take len m" using ml by (cases i) auto
  with ml n show ?thesis by (simp add: op_need_def)
qed

lemma length_texts_le:
  assumes "\<forall>i\<in>set xs. op_ok i"
  shows "length (concat (map op_text xs)) \<le> sum_list (map op_need xs)"
  using assms
proof (induction xs)
  case Nil
  then show ?case by simp
next
  case (Cons i xs)
  then have "length (op_text i) \<le> op_need i" using length_op_text [of i] by simp
  with Cons show ?case by simp
qed

lemma length_chain: "chain ops t n \<Longrightarrow> length t \<le> n"
  using length_texts_le [of ops] by (auto simp: chain_def)

text \<open>\<open>strcpy\<close> copies what is in memory behind a character, up to the first NUL, behind the line in the buffer.\<close>

lemma ls_char_rest:
  assumes "ls_wf s" and "c_strlen r = Some k" and "k + 2 \<le> ls_room s" and "c \<noteq> NUL" and "ls_char r c s = Some s'"
  shows "take (Suc k) (drop (fb_length (buffer s')) (fb_data (buffer s'))) = take k r @ [NUL]"
proof -
  let ?b = "buffer s" and ?ys = "take (Suc k) (c # r) @ [NUL]"
  have wf: "fb_wf ?b" and room: "fb_cur ?b + k + 2 \<le> length (fb_data ?b)"
    using assms(1,3) by (simp_all add: ls_wf_def ls_room_def fb_end_def)
  have ys: "length ?ys = k + 2" "c_strlen (c # r) = Some (Suc k)" using c_strlen_SomeD(1) [OF assms(2)] assms(2,4) by simp_all
  have "fb_append (c # r) 1 ?b = Some (fb_add 1 (?b\<lparr>fb_data := write_at (fb_cur ?b) ?ys (fb_data ?b)\<rparr>))"
    using wf room by (intro fb_append_runs [OF _ _ ys(2)]) simp_all
  then have "buffer s' = fb_add 1 (?b\<lparr>fb_data := write_at (fb_cur ?b) ?ys (fb_data ?b)\<rparr>)"
    using assms(5) by (auto simp: ls_char_def ls_lift_def)
  moreover have "drop (Suc (fb_cur ?b)) (write_at (fb_cur ?b) ?ys (fb_data ?b))
      = drop 1 (drop (fb_cur ?b) (write_at (fb_cur ?b) ?ys (fb_data ?b)))" by simp
  ultimately show ?thesis using room ys(1) c_strlen_SomeD(1) [OF assms(2)]
    by (simp add: fb_add_def fb_length_def drop_write_at del: drop_drop)
qed

lemma chain_run_rest:
  assumes "chain (xs @ [InsChar r c]) t n" and "c_strlen r = Some k" and "c \<noteq> NUL" and "length junk < 2 ^ 31" and "n \<le> length junk"
    and "ls_run (xs @ [InsChar r c]) (ls_new junk) = Some s"
  shows "take (Suc k) (drop (fb_length (buffer s)) (fb_data (buffer s))) = take k r @ [NUL]"
proof -
  let ?u = "concat (map op_text xs)"
  have need: "op_need (InsChar r c) = k + 2" using assms(2,3) by (simp add: op_need_def)
  have wf: "ls_wf (ls_new junk)" and rm: "ls_room (ls_new junk) = length junk"
    using assms(4) by (simp_all add: ls_wf_def ls_new_def fb_new_def fb_wf_def ls_room_def fb_end_def)
  have ok: "\<forall>i\<in>set xs. op_ok i" and needs: "sum_list (map op_need xs) + (k + 2) \<le> length junk"
    using assms(1,5) need by (simp_all add: chain_def)
  have "sum_list (map op_need xs) \<le> ls_room (ls_new junk)" using needs rm by simp
  from ls_run_appends [OF wf ok this] obtain s1 where
    s1: "ls_run xs (ls_new junk) = Some s1" "ls_wf s1" "ls_room s1 = length junk - length ?u"
    by (auto simp: rm)
  have "length ?u \<le> sum_list (map op_need xs)" using ok by (rule length_texts_le)
  then have "k + 2 \<le> ls_room s1" using s1(3) needs by simp
  moreover have "ls_char r c s1 = Some s" using assms(6) s1(1) by (auto simp: fold_opt_append split: option.splits)
  ultimately show ?thesis using ls_char_rest [OF s1(2) assms(2) _ assms(3)] by blast
qed

text \<open>So the memory of the stream is a C string that goes on behind a line without NUL by what followed the last
  character.\<close>

lemma c_strlen_behind:
  assumes "take n mem = line" and "length line = n" and "NUL \<notin> set line" and "c_strlen r = Some k"
    and "take (Suc k) (drop n mem) = take k r @ [NUL]"
  shows "c_strlen mem = Some (n + k)"
proof -
  have "mem = take n mem @ take (Suc k) (drop n mem) @ drop (Suc k) (drop n mem)" by (metis append_take_drop_id)
  then have m: "mem = (line @ take k r) @ NUL # drop (Suc k) (drop n mem)"
    unfolding assms(1,5) append_assoc append_Cons append_Nil .
  have "NUL \<notin> set (line @ take k r)" using assms(3) c_strlen_SomeD(3) [OF assms(4)] by simp
  from c_strlen_append_NUL [OF this] have "c_strlen mem = Some (length (line @ take k r))" by (subst m)
  then show ?thesis using c_strlen_SomeD(1) [OF assms(4)] assms(2) by simp
qed

subsection \<open>The name of the source file\<close>

definition basename_of :: "string \<Rightarrow> string" where
  "basename_of path = rev (takeWhile (\<lambda>c. c \<noteq> CHR ''/'') (rev path))"

lemma basename_of_slash: "CHR ''/'' \<notin> set b \<Longrightarrow> basename_of (a @ CHR ''/'' # b) = b"
  unfolding basename_of_def by (subst rev_append, simp) (subst takeWhile_append2, auto)

lemma basename_of_plain: "CHR ''/'' \<notin> set b \<Longrightarrow> basename_of b = b"
  unfolding basename_of_def by (subst takeWhile_eq_all_conv [THEN iffD2]) auto

lemma until_NUL_of_c_string: "NUL \<notin> set f \<Longrightarrow> until_NUL (c_string f) = f"
  unfolding until_NUL_def c_string_def by (subst takeWhile_append2) auto

lemma length_basename_of: "length (basename_of f) \<le> length f"
  unfolding basename_of_def by (metis length_rev length_takeWhile_le)

lemma set_basename_of: "set (basename_of f) \<subseteq> set f"
  unfolding basename_of_def by (auto dest: set_takeWhileD)

lemma SourceFile_of_array_basename:
  assumes "NUL \<notin> set f"
  shows "SourceFile_of_array (c_string f) = \<lparr>sf_data = c_string (basename_of f), sf_size = int (length (basename_of f))\<rparr>"
proof (cases "CHR ''/'' \<in> set f")
  case True
  then obtain a b where f: "f = a @ CHR ''/'' # b" "CHR ''/'' \<notin> set b" by (metis split_list_last)
  then show ?thesis
    using assms until_NUL_of_c_string [OF assms] rfind_char_append [OF f(2), of a]
    by (simp add: SourceFile_of_array_def basename_of_slash c_string_def)
next
  case False
  then show ?thesis
    using until_NUL_of_c_string [OF assms]
    by (simp add: SourceFile_of_array_def rfind_char_None basename_of_plain c_string_def)
qed

subsection \<open>The cached time and the thread id\<close>

text \<open>The cache invariant: the text is that of the second it was made for, in the zone that is set.\<close>

definition cache_ok :: "TimeZone \<Rightarrow> log_locals \<Rightarrow> bool" where
  "cache_ok tz l \<longleftrightarrow> length (t_time l) = 64 \<and>
     (t_lastSecond l \<noteq> 0 \<longrightarrow> (\<exists>g. log_tm tz (t_lastSecond l) = Some g \<and> tm_printable g
        \<and> take 18 (t_time l) = format_tm g @ [NUL]))"

definition locals_ok :: "TimeZone \<Rightarrow> int \<Rightarrow> log_locals \<Rightarrow> bool" where
  "locals_ok tz n l \<longleftrightarrow> cache_ok tz l \<and>
     (cached n (lg_thread l) \<or> t_cachedTid (lg_thread l) = 0 \<and> length (t_tidString (lg_thread l)) = 32)"

lemma locals_ok_new: "locals_ok tz n (log_locals_new thread_locals_new)"
  by (simp add: locals_ok_def cache_ok_def log_locals_new_def thread_locals_new_def)

lemma refresh_time_ok:
  assumes "cache_ok tz l" and "log_tm tz sec = Some g" and "tm_printable g" and "sec \<noteq> 0"
  shows "\<exists>l1. refresh_time tz sec l = Some l1 \<and> cache_ok tz l1 \<and> t_lastSecond l1 = sec
    \<and> lg_thread l1 = lg_thread l \<and> take 18 (t_time l1) = format_tm g @ [NUL]"
proof (cases "t_lastSecond l = sec")
  case True
  with assms show ?thesis by (auto simp: refresh_time_def cache_ok_def)
next
  case False
  have "take 18 (write_at 0 (snprintf_mem 64 (format_tm g)) (t_time l)) = format_tm g @ [NUL]"
    using length_format_tm [OF assms(3)] by (simp add: snprintf_mem_def write_at_def)
  moreover have "length (write_at 0 (snprintf_mem 64 (format_tm g)) (t_time l)) = 64"
    using length_format_tm [OF assms(3)] assms(1) by (simp add: snprintf_mem_def write_at_def cache_ok_def)
  ultimately show ?thesis using False assms by (simp add: refresh_time_def cache_ok_def)
qed

lemma chain_time:
  assumes "take 18 m = format_tm g @ [NUL]" and "tm_printable g"
  shows "chain [InsPiece m 17] (format_tm g) 18"
proof -
  have m: "m = format_tm g @ NUL # drop 18 m" using assms(1) by (metis append.assoc append_Cons append_Nil append_take_drop_id)
  have n: "c_strlen m = Some 17"
    by (subst m) (simp add: c_strlen_append_NUL format_tm_no_NUL length_format_tm [OF assms(2)])
  have "take 17 m = format_tm g" by (subst m) (simp add: length_format_tm [OF assms(2)])
  with chain_piece(1) [OF n, of 17 17] show ?thesis by simp
qed

lemma chain_us:
  assumes "length u < 32" and "NUL \<notin> set u"
  shows "chain [InsPiece (snprintf_mem 32 u) (int (length u))] u (Suc (length u))"
proof -
  have "c_strlen (snprintf_mem 32 u) = Some (length u)" "take (length u) (snprintf_mem 32 u) = u"
    using assms by (simp_all add: snprintf_mem_def c_strlen_append_NUL)
  with chain_piece(1) [of "snprintf_mem 32 u" "length u" "int (length u)" "length u"] assms(1) show ?thesis by simp
qed

lemma us_text_length:
  assumes "ls_clock site = (sec, usec)" and "0 \<le> sec" and "0 \<le> usec" and "usec < 1000000"
  shows "site_second site = sec"
    and "us_text tz (site_time site) = ''.'' @ fmt_d_zero 6 usec @ (if TimeZone_valid tz then '' '' else ''Z '')"
    and "length (us_text tz (site_time site)) \<le> 9" and "NUL \<notin> set (us_text tz (site_time site))"
proof -
  have t: "microSecondsSinceEpoch (site_time site) = sec * 1000000 + usec"
    by (simp add: site_time_def assms(1) Timestamp_now_def kMicroSecondsPerSecond_def)
  have dm: "(sec * 1000000 + usec) sdiv 1000000 = sec" "(sec * 1000000 + usec) smod 1000000 = usec"
    using assms(2-4) by (simp_all add: sdiv_nonneg smod_nonneg)
  show "site_second site = sec"
    by (simp add: site_second_def t kMicroSecondsPerSecond_def dm)
  show u: "us_text tz (site_time site) = ''.'' @ fmt_d_zero 6 usec @ (if TimeZone_valid tz then '' '' else ''Z '')"
    by (simp add: us_text_def t kMicroSecondsPerSecond_def dm)
  have "length (fmt_d_zero 6 usec) = 6" using assms by (intro length_fmt_d_zero) simp_all
  then show "length (us_text tz (site_time site)) \<le> 9" "NUL \<notin> set (us_text tz (site_time site))"
    by (simp_all add: u fmt_d_zero_no_NUL)
qed

lemma site_thread_cached:
  assumes "locals_ok tz n l" and "0 < n" and "n < 2 ^ 31" and "ls_gettid site = n"
  shows "cached n (site_thread site l)"
  using assms cacheTid_cached [OF assms(2,3)]
  by (cases "t_cachedTid (lg_thread l) = 0") (auto simp: locals_ok_def tid_def Let_def cached_def)

lemma chain_tid:
  assumes "cached n th" and "0 < n" and "n < 2 ^ 31"
  shows "chain [InsPiece (t_tidString th) (t_tidStringLength th)] (fmt_d_space 5 n) 11"
  using chain_piece(1) [of "t_tidString th" "length (fmt_d_space 5 n)" "int (length (fmt_d_space 5 n))" 10]
    length_fmt_d_space_tid [OF assms(2,3)] assms(1)
  by (simp add: cached_def)

section \<open>The line of a statement\<close>

text \<open>What a call site owes: a time after the epoch that the zone can convert to a four-digit year, C strings,
  an array of the buffer's size, and memory behind its characters that holds a NUL somewhere.\<close>

definition site_ok :: "TimeZone \<Rightarrow> log_site \<Rightarrow> bool" where
  "site_ok tz site \<longleftrightarrow>
     0 < fst (ls_clock site) \<and> 0 \<le> snd (ls_clock site) \<and> snd (ls_clock site) < 1000000
     \<and> (\<exists>g. log_tm tz (fst (ls_clock site)) = Some g \<and> tm_printable g)
     \<and> 0 < ls_gettid site \<and> ls_gettid site < 2 ^ 31
     \<and> NUL \<notin> set (ls_file site) \<and> NUL \<notin> set (ls_func site) \<and> NUL \<notin> set (ls_strerror site (sint (ls_errno site)))
     \<and> length (ls_junk site) = kSmallBuffer
     \<and> NUL \<in> set (ls_stack0 site) \<and> NUL \<in> set (ls_stack1 site) \<and> NUL \<in> set (ls_stack2 site)"

definition site_need :: "log_site \<Rightarrow> nat" where
  "site_need site = length (ls_file site) + length (ls_func site) + length (ls_strerror site (sint (ls_errno site)))
     + length (ls_stack0 site) + length (ls_stack1 site) + length (ls_stack2 site) + 140"

text \<open>The line: time, thread, level, the error if there is one, the function, the message, file and line.\<close>

definition log_head :: "log_macro \<Rightarrow> tm \<Rightarrow> TimeZone \<Rightarrow> log_site \<Rightarrow> string" where
  "log_head mac t tz site =
     format_tm t @ (''.'' @ fmt_d_zero 6 (snd (ls_clock site)) @ (if TimeZone_valid tz then '' '' else ''Z ''))
     @ fmt_d_space 5 (ls_gettid site) @ '' '' @ LogLevelName (macro_level mac)
     @ (if macro_saves_errno mac \<and> ls_errno site \<noteq> 0
        then ls_strerror site (sint (ls_errno site)) @ '' (errno='' @ fmt_d (sint (ls_errno site)) @ '') '' else [])
     @ (if macro_func mac then ls_func site @ '' '' else [])"

definition log_tail :: "log_site \<Rightarrow> string" where
  "log_tail site = '' - '' @ basename_of (ls_file site) @ '':'' @ fmt_d (sint (ls_line site)) @ [CHR 0x0A]"

definition log_line :: "log_macro \<Rightarrow> tm \<Rightarrow> TimeZone \<Rightarrow> log_site \<Rightarrow> ls_op list \<Rightarrow> string" where
  "log_line mac t tz site ops = log_head mac t tz site @ concat (map op_text ops) @ log_tail site"

text \<open>The time the line should carry.\<close>

definition site_tm :: "TimeZone \<Rightarrow> log_site \<Rightarrow> tm" where
  "site_tm tz site = the (log_tm tz (fst (ls_clock site)))"

lemma chain_mono: "chain ops t n \<Longrightarrow> n \<le> m \<Longrightarrow> chain ops t m"
  by (simp add: chain_def)

lemma chain_char_in:
  assumes "c \<noteq> NUL" and "NUL \<in> set stk"
  shows "chain [InsChar stk c] [c] (Suc (length stk))"
proof -
  obtain n where n: "c_strlen stk = Some n" using assms(2) c_strlen_None_iff [of stk] by auto
  with c_strlen_SomeD(1) [OF n] chain_mono [OF chain_char [OF assms(1) n]] show ?thesis by simp
qed

lemma chain_errno:
  assumes "site_ok tz site"
  shows "chain (errno_ops mac site)
    (if macro_saves_errno mac \<and> ls_errno site \<noteq> 0
     then ls_strerror site (sint (ls_errno site)) @ '' (errno='' @ fmt_d (sint (ls_errno site)) @ '') '' else [])
    (length (ls_strerror site (sint (ls_errno site))) + 45)"
proof -
  have "chain [InsCstr (Some (c_string (ls_strerror site (sint (ls_errno site)))))]
      (ls_strerror site (sint (ls_errno site))) (Suc (length (ls_strerror site (sint (ls_errno site)))))"
    using assms by (intro chain_text) (simp_all add: site_ok_def)
  moreover have "chain [InsCstr (Some (c_string '' (errno=''))] '' (errno='' (Suc 8)"
    "chain [InsCstr (Some (c_string '') ''))] '') '' (Suc 2)"
    by (rule chain_text; simp)+
  ultimately have "chain [InsCstr (Some (c_string (ls_strerror site (sint (ls_errno site))))),
      InsCstr (Some (c_string '' (errno='')), InsInt (ls_errno site), InsCstr (Some (c_string '') ''))]
      (ls_strerror site (sint (ls_errno site)) @ '' (errno='' @ fmt_d (sint (ls_errno site)) @ '') '')
      (Suc (length (ls_strerror site (sint (ls_errno site)))) + (Suc 8 + (32 + Suc 2)))"
    by (intro chain_Cons [OF _ chain_Cons [OF _ chain_Cons]] chain_int)
  then show ?thesis by (auto simp: errno_ops_def chain_Nil intro: chain_mono chain_mono [OF chain_Nil])
qed

lemma chain_func:
  assumes "site_ok tz site"
  shows "chain (func_ops mac site) (if macro_func mac then ls_func site @ '' '' else [])
    (length (ls_func site) + length (ls_stack0 site) + 2)"
proof -
  have "chain [InsCstr (Some (c_string (ls_func site))), InsChar (ls_stack0 site) CHR '' '']
      (ls_func site @ '' '') (Suc (length (ls_func site)) + Suc (length (ls_stack0 site)))"
    using assms by (intro chain_Cons chain_text chain_char_in) (simp_all add: site_ok_def)
  then show ?thesis by (auto simp: func_ops_def intro: chain_mono chain_mono [OF chain_Nil])
qed

lemma chain_finish:
  assumes "site_ok tz site" and "length (ls_file site) < 2 ^ 31"
  shows "chain (finish_ops (site_sf site) site) (log_tail site)
    (length (ls_file site) + length (ls_stack1 site) + length (ls_stack2 site) + 39)"
proof -
  let ?b = "basename_of (ls_file site)"
  have nf: "NUL \<notin> set (ls_file site)" using assms(1) by (simp add: site_ok_def)
  have "c_strlen (c_string ?b) = Some (length ?b)"
    using nf set_basename_of [of "ls_file site"] by (auto simp: c_string_def intro!: c_strlen_append_NUL)
  then have "chain [InsAppend (c_string ?b) (int (length ?b))] (take (nat (int (length ?b))) (c_string ?b))
      (Suc (length (ls_file site)))"
    using length_basename_of [of "ls_file site"] assms(2) by (intro chain_piece(2) [of _ "length ?b"]) simp_all
  moreover have "take (nat (int (length ?b))) (c_string ?b) = ?b" by (simp add: c_string_def)
  ultimately have named: "chain [InsAppend (sf_data (site_sf site)) (sf_size (site_sf site))] ?b (Suc (length (ls_file site)))"
    by (simp add: SourceFile_of_array_basename [OF nf])
  have sep: "chain [InsCstr (Some (c_string '' - ''))] '' - '' (Suc 3)" by (rule chain_text) simp_all
  have chars: "chain [InsChar (ls_stack1 site) CHR '':''] '':'' (Suc (length (ls_stack1 site)))"
      "chain [InsChar (ls_stack2 site) CHR 0x0A] [CHR 0x0A] (Suc (length (ls_stack2 site)))"
    using assms(1) by (intro chain_char_in; simp add: site_ok_def)+
  have "chain (finish_ops (site_sf site) site)
      ('' - '' @ ?b @ '':'' @ fmt_d (sint (ls_line site)) @ [CHR 0x0A])
      (Suc 3 + (Suc (length (ls_file site)) + (Suc (length (ls_stack1 site)) + (32 + Suc (length (ls_stack2 site))))))"
    unfolding finish_ops_def
    by (rule chain_Cons [OF sep chain_Cons [OF named chain_Cons [OF chars(1) chain_Cons [OF chain_int chars(2)]]]])
  then show ?thesis unfolding log_tail_def by (rule chain_mono) simp
qed

lemma chain_header:
  assumes site: "site_ok tz site"
    and tm: "take 18 tm_text = format_tm t @ [NUL]" "tm_printable t" and th: "cached (ls_gettid site) th"
  shows "chain (header_ops mac tz site tm_text th) (log_head mac t tz site)
    (length (ls_strerror site (sint (ls_errno site))) + length (ls_func site) + length (ls_stack0 site) + 95)"
proof -
  obtain sec usec where clock: "ls_clock site = (sec, usec)" by (cases "ls_clock site")
  have c: "0 \<le> sec" "0 \<le> usec" "usec < 1000000" "0 < ls_gettid site" "ls_gettid site < 2 ^ 31"
    using site by (simp_all add: site_ok_def clock)
  note u = us_text_length(2-4) [OF clock c(1-3), of tz]
  have us: "chain [InsPiece (snprintf_mem 32 (us_text tz (site_time site))) (int (length (us_text tz (site_time site))))]
      (''.'' @ fmt_d_zero 6 usec @ (if TimeZone_valid tz then '' '' else ''Z '')) 10"
    using chain_us [of "us_text tz (site_time site)"] u(2,3) unfolding u(1) by (auto intro: chain_mono)
  have sp: "chain [InsCstr (Some (c_string '' ''))] '' '' (Suc 1)" by (rule chain_text) simp_all
  have lev: "chain [InsPiece (c_string (LogLevelName (macro_level mac))) 6] (LogLevelName (macro_level mac)) (Suc 6)"
    using chain_piece(1) [of "c_string (LogLevelName (macro_level mac))" 6 6 6]
    by (cases "macro_level mac") (simp_all add: c_string_def)
  have "chain (header_ops mac tz site tm_text th) (log_head mac t tz site)
    (18 + (10 + (11 + (Suc 1 + (Suc 6 + ((length (ls_strerror site (sint (ls_errno site))) + 45)
      + (length (ls_func site) + length (ls_stack0 site) + 2)))))))"
    unfolding header_ops_def log_head_def clock snd_conv
    by (rule chain_Cons [OF chain_time [OF tm] chain_Cons [OF us chain_Cons [OF chain_tid [OF th c(4,5)]
          chain_Cons [OF sp chain_Cons [OF lev chain_append [OF chain_errno [OF site] chain_func [OF site]]]]]]])
  then show ?thesis by (rule chain_mono) simp
qed

text \<open>The state of a thread whose cached text is that of the time \<open>t\<close>.\<close>

definition time_ready :: "TimeZone \<Rightarrow> log_site \<Rightarrow> tm \<Rightarrow> log_locals \<Rightarrow> log_locals \<Rightarrow> bool" where
  "time_ready tz site t l l1 \<longleftrightarrow> refresh_time tz (site_second site) l = Some l1
     \<and> take 18 (t_time l1) = format_tm t @ [NUL] \<and> tm_printable t \<and> cached (ls_gettid site) (site_thread site l1)"

lemma log_statement_chain:
  assumes guard: "macro_guard mac (logLevel g)" and site: "site_ok (g_logTimeZone g) site"
    and t: "time_ready (g_logTimeZone g) site t l l1"
    and ops: "\<forall>i\<in>set ops. op_ok i" and room: "sum_list (map op_need ops) + site_need site \<le> kSmallBuffer"
  shows "\<exists>mem. length mem = kSmallBuffer
     \<and> length (log_line mac t (g_logTimeZone g) site ops) \<le> sum_list (map op_need ops) + site_need site
     \<and> take (length (log_line mac t (g_logTimeZone g) site ops)) mem = log_line mac t (g_logTimeZone g) site ops
     \<and> (\<forall>k. c_strlen (ls_stack2 site) = Some k \<longrightarrow>
          take (Suc k) (drop (length (log_line mac t (g_logTimeZone g) site ops)) mem) = take k (ls_stack2 site) @ [NUL])
     \<and> log_statement g mac site ops (l, o') =
         map_option (\<lambda>o1. (if macro_level mac = FATAL then Aborted else Goes_on,
             l1\<lparr>lg_thread := site_thread site l1\<rparr>, if macro_level mac = FATAL then g_flush g o1 else o1))
           (g_output g mem (int (length (log_line mac t (g_logTimeZone g) site ops))) o')"
proof -
  let ?tz = "g_logTimeZone g"
  have c: "0 \<le> fst (ls_clock site)" "0 \<le> snd (ls_clock site)" "snd (ls_clock site) < 1000000"
    using site by (simp_all add: site_ok_def)
  note r = t [unfolded time_ready_def]
  let ?header = "header_ops mac ?tz site (t_time l1) (site_thread site l1)" and ?line = "log_line mac t ?tz site ops"
  have msg: "chain ops (concat (map op_text ops)) (sum_list (map op_need ops))" using ops by (simp add: chain_def)
  have "length (ls_file site) < 2 ^ 31" using room by (simp add: site_need_def kSmallBuffer_def)
  note parts = chain_append [OF chain_header [OF site, of "t_time l1" t] chain_append [OF msg chain_finish [OF site this]]]
  have needs: "chain (?header @ ops @ finish_ops (site_sf site) site) ?line (sum_list (map op_need ops) + site_need site)"
    unfolding log_line_def by (rule chain_mono [OF parts]) (use r in \<open>simp_all add: site_need_def\<close>)
  have short: "length ?line \<le> sum_list (map op_need ops) + site_need site"
    by (rule length_chain [OF needs])
  have whole: "chain (?header @ ops @ finish_ops (site_sf site) site) ?line kSmallBuffer"
    by (rule chain_mono [OF needs room])
  have junk: "length (ls_junk site) = kSmallBuffer" using site by (simp add: site_ok_def)
  from chain_run [OF whole, of "ls_junk site"] obtain s where
    s: "ls_run (?header @ ops @ finish_ops (site_sf site) site) (ls_new (ls_junk site)) = Some s"
      "fb_length (buffer s) = length ?line" "take (length ?line) (fb_data (buffer s)) = ?line"
      "length (fb_data (buffer s)) = kSmallBuffer"
    unfolding junk by (auto simp: kSmallBuffer_def)
  have u: "length (us_text ?tz (site_time site)) < 32"
    using us_text_length(3) [OF surjective_pairing c, of ?tz] by simp
  have "take (Suc k) (drop (length ?line) (fb_data (buffer s))) = take k (ls_stack2 site) @ [NUL]"
    if e: "c_strlen (ls_stack2 site) = Some k" for k
  proof -
    define xs where "xs = ?header @ ops @ butlast (finish_ops (site_sf site) site)"
    have "?header @ ops @ finish_ops (site_sf site) site = xs @ [InsChar (ls_stack2 site) CHR 0x0A]"
      by (simp add: xs_def finish_ops_def)
    with chain_run_rest [of xs "ls_stack2 site" "CHR 0x0A" ?line kSmallBuffer k "ls_junk site" s] e whole s(1,2) show ?thesis
      by (simp add: junk) (simp add: kSmallBuffer_def)
  qed
  then show ?thesis
    using log_statement_eq [OF guard _ u s(1), of l o'] s(2-4) r short by (intro exI [of _ "fb_data (buffer s)"]) auto
qed

lemma time_ready_fresh:
  assumes site: "site_ok tz site" and l: "locals_ok tz (ls_gettid site) l"
  shows "\<exists>l1. time_ready tz site (site_tm tz site) l l1 \<and> locals_ok tz (ls_gettid site) (l1\<lparr>lg_thread := site_thread site l1\<rparr>)"
proof -
  have c: "0 < fst (ls_clock site)" "0 \<le> fst (ls_clock site)" "0 \<le> snd (ls_clock site)" "snd (ls_clock site) < 1000000"
    "0 < ls_gettid site" "ls_gettid site < 2 ^ 31"
    using site by (simp_all add: site_ok_def)
  have t: "log_tm tz (fst (ls_clock site)) = Some (site_tm tz site)" "tm_printable (site_tm tz site)"
    using site by (auto simp: site_ok_def site_tm_def)
  have cache: "cache_ok tz l" using l by (simp add: locals_ok_def)
  from refresh_time_ok [OF cache t] c(1) obtain l1 where l1: "refresh_time tz (fst (ls_clock site)) l = Some l1"
      "cache_ok tz l1" "lg_thread l1 = lg_thread l" "take 18 (t_time l1) = format_tm (site_tm tz site) @ [NUL]" by auto
  have "cached (ls_gettid site) (site_thread site l1)"
    using site_thread_cached [OF l c(5,6) refl] by (simp add: l1(3))
  with l1 t us_text_length(1) [OF surjective_pairing c(2-4)] show ?thesis
    by (auto simp: time_ready_def locals_ok_def cache_ok_def)
qed

lemma log_statement_hands_over:
  assumes "macro_guard mac (logLevel g)" and "site_ok (g_logTimeZone g) site"
    and "locals_ok (g_logTimeZone g) (ls_gettid site) l"
    and "\<forall>i\<in>set ops. op_ok i" and "sum_list (map op_need ops) + site_need site \<le> kSmallBuffer"
  shows "\<exists>mem l'. locals_ok (g_logTimeZone g) (ls_gettid site) l'
     \<and> take (length (log_line mac (site_tm (g_logTimeZone g) site) (g_logTimeZone g) site ops)) mem
         = log_line mac (site_tm (g_logTimeZone g) site) (g_logTimeZone g) site ops
     \<and> log_statement g mac site ops (l, o') =
         map_option (\<lambda>o1. if macro_level mac = FATAL then (Aborted, l', g_flush g o1) else (Goes_on, l', o1))
           (g_output g mem (int (length (log_line mac (site_tm (g_logTimeZone g) site) (g_logTimeZone g) site ops))) o')"
proof -
  from time_ready_fresh [OF assms(2,3)] obtain l1 where
    l1: "time_ready (g_logTimeZone g) site (site_tm (g_logTimeZone g) site) l l1"
      "locals_ok (g_logTimeZone g) (ls_gettid site) (l1\<lparr>lg_thread := site_thread site l1\<rparr>)" by blast
  from log_statement_chain [OF assms(1,2) l1(1) assms(4,5), of o'] l1(2) show ?thesis
    by (cases "macro_level mac = FATAL") auto
qed

text \<open>C7: What a log statement does.  If its level passes the macro's guard and everything fits into the stream's
  4000 bytes, the output function receives exactly one line: date and time with microseconds, the thread id,
  the level, with \<open>LOG_SYSERR\<close>/\<open>LOG_SYSFATAL\<close> the text and the number of \<open>errno\<close>, with \<open>LOG_TRACE\<close>/\<open>LOG_DEBUG\<close>
  the function, then all insertions in order, and the base name of the file with the line number.  A fatal
  statement then flushes and aborts; every other one goes on, with thread-local caches that are valid for
  the next statement.\<close>

theorem log_statement_line:
  assumes "macro_guard mac (logLevel g)" and "site_ok (g_logTimeZone g) site"
    and "locals_ok (g_logTimeZone g) (ls_gettid site) l"
    and "\<forall>i\<in>set ops. op_ok i" and "sum_list (map op_need ops) + site_need site \<le> kSmallBuffer"
  shows "\<exists>mem l'. locals_ok (g_logTimeZone g) (ls_gettid site) l'
     \<and> take (length (log_line mac (site_tm (g_logTimeZone g) site) (g_logTimeZone g) site ops)) mem
         = log_line mac (site_tm (g_logTimeZone g) site) (g_logTimeZone g) site ops
     \<and> log_statement g mac site ops (l, o') =
         map_option (\<lambda>o1. if macro_level mac = FATAL then (Aborted, l', g_flush g o1) else (Goes_on, l', o1))
           (g_output g mem (int (length (log_line mac (site_tm (g_logTimeZone g) site) (g_logTimeZone g) site ops))) o')"
  by (rule log_statement_hands_over [OF assms])

text \<open>A call site to try things on: 2021-05-14 08:59:42 UTC, thread 4711, line 27 of \<open>/src/main.cc\<close>.\<close>

definition demo_site :: "string \<Rightarrow> log_site" where
  "demo_site f =
     \<lparr>ls_clock = (1620982782, 123), ls_gettid = 4711, ls_errno = 2, ls_strerror = (\<lambda>_. ''No such file''),
      ls_file = ''/src/main.cc'', ls_line = 27, ls_func = f, ls_junk = replicate kSmallBuffer NUL,
      ls_stack0 = [NUL], ls_stack1 = [NUL], ls_stack2 = [NUL]\<rparr>"

definition demo_io :: "'x \<Rightarrow> 'x io" where
  "demo_io r =
     \<lparr>io_stdout = \<lparr>f_name = ''stdout'', f_stream = [], f_flushed = 0, f_error = False, f_calls = 0, f_env = (\<lambda>_. Accept_all)\<rparr>,
      io_rest = r\<rparr>"

lemma demo_output:
  "\<exists>o1. defaultOutput mem (int n) (demo_io r) = Some o1 \<and> f_stream (io_stdout o1) = take n mem \<and> io_rest o1 = r"
  by (simp add: defaultOutput_def demo_io_def fwrite_unlocked_def Let_def)

lemma demo_tm: "format_tm (gmtime_r 1620982782) = ''20210514 08:59:42''" "tm_printable (gmtime_r 1620982782)"
  by code_simp+

lemma demo_numbers:
  "fmt_d_zero 6 123 = ''000123''" "fmt_d_space 5 4711 = '' 4711''" "fmt_d 27 = ''27''" "fmt_d 2 = ''2''" "fmt_d 7 = ''7''"
proof -
  have "dec_nat 123 = ''123''"
    by (simp add: dec_nat.simps digit_char_def char_of_def bit_Suc_0_iff)
  then show "fmt_d_zero 6 123 = ''000123''" by (simp add: fmt_d_zero_def fmt_d_def numeral_3_eq_3)
qed (simp_all add: fmt_d_space_def fmt_d_def dec_nat.simps digit_char_def char_of_def bit_Suc_0_iff)

lemma demo_basename: "basename_of ''/src/main.cc'' = ''main.cc''"
  by (simp add: basename_of_def)

lemma log_tm_none [simp]: "log_tm TimeZone_none t = Some (gmtime_r t)" "\<not> TimeZone_valid TimeZone_none"
  by (simp_all add: log_tm_def TimeZone_valid_def TimeZone_none_def)

lemma demo_site_ok: "NUL \<notin> set f \<Longrightarrow> site_ok TimeZone_none (demo_site f)"
  by (simp add: site_ok_def demo_site_def demo_tm)

lemma site_tm_none: "site_tm TimeZone_none site = gmtime_r (fst (ls_clock site))"
  by (simp add: site_tm_def)

lemmas log_line_defs = log_line_def log_head_def log_tail_def

lemma demo_line:
  "log_line LOG_SYSERR (gmtime_r 1620982782) TimeZone_none (demo_site ''f'') [InsString ''open '', InsInt 7]
   = ''20210514 08:59:42.000123Z  4711 ERROR No such file (errno=2) open 7 - main.cc:27'' @ [CHR 0x0A]"
  by (simp add: log_line_defs demo_site_def demo_tm demo_numbers demo_basename c_string_def)

theorem log_statement_line_witness:
  "\<exists>l' o1. log_statement log_globals_new LOG_SYSERR (demo_site ''f'') [InsString ''open '', InsInt 7]
         (log_locals_new thread_locals_new, demo_io ()) = Some (Goes_on, l', o1)
     \<and> f_stream (io_stdout o1)
         = ''20210514 08:59:42.000123Z  4711 ERROR No such file (errno=2) open 7 - main.cc:27'' @ [CHR 0x0A]"
proof -
  let ?ops = "[InsString ''open '', InsInt 7]"
  let ?line = "''20210514 08:59:42.000123Z  4711 ERROR No such file (errno=2) open 7 - main.cc:27'' @ [CHR 0x0A]"
  have g: "g_logTimeZone log_globals_new = TimeZone_none" "logLevel log_globals_new = INFO"
      "g_output log_globals_new = defaultOutput"
    by (simp_all add: log_globals_new_def logLevel_def)
  have ops: "\<forall>i\<in>set ?ops. op_ok i" by (simp add: op_ok_def c_string_def)
  have need: "sum_list (map op_need ?ops) + site_need (demo_site ''f'') \<le> kSmallBuffer"
    by (simp add: op_need_def c_string_def site_need_def demo_site_def kSmallBuffer_def kMaxNumericSize_def)
  have tm: "site_tm TimeZone_none (demo_site ''f'') = gmtime_r 1620982782" by (simp add: site_tm_none demo_site_def)
  have len: "length (log_line LOG_SYSERR (gmtime_r 1620982782) TimeZone_none (demo_site ''f'') ?ops) = 81"
    unfolding demo_line by simp
  have "macro_guard LOG_SYSERR INFO" "macro_level LOG_SYSERR \<noteq> FATAL" by simp_all
  with log_statement_line [of LOG_SYSERR "log_globals_new" "demo_site ''f''" "log_locals_new thread_locals_new" ?ops "demo_io ()",
      unfolded g tm len, unfolded demo_line, OF _ demo_site_ok locals_ok_new ops need]
  obtain mem l' where r: "take 81 mem
        = ''20210514 08:59:42.000123Z  4711 ERROR No such file (errno=2) open 7 - main.cc:27'' @ [CHR 0x0A]"
      "log_statement log_globals_new LOG_SYSERR (demo_site ''f'') ?ops (log_locals_new thread_locals_new, demo_io ())
         = map_option (\<lambda>o1. (Goes_on, l', o1)) (defaultOutput mem (int 81) (demo_io ()))"
    by (simp del: take_Cons_numeral) blast
  then show ?thesis using demo_output [of mem 81 "()"] by (auto simp del: take_Cons_numeral)
qed

section \<open>What goes wrong\<close>

text \<open>C38: A change of the time zone is not noticed by a thread that has already logged in the current second:
  the next line of that thread in this second carries the broken-down time of the old zone with the
  suffix of the new one.  \<open>setTimeZone\<close> does not touch the per-thread cache, which only a new second renews.\<close>

theorem setTimeZone_stale:
  assumes "macro_guard mac (logLevel g)" and "site_ok tz site" and "locals_ok (g_logTimeZone g) (ls_gettid site) l"
    and "t_lastSecond l = fst (ls_clock site)"
    and "\<forall>i\<in>set ops. op_ok i" and "sum_list (map op_need ops) + site_need site \<le> kSmallBuffer"
  shows "\<exists>mem l'. take (length (log_line mac (site_tm (g_logTimeZone g) site) tz site ops)) mem
         = log_line mac (site_tm (g_logTimeZone g) site) tz site ops
     \<and> log_statement (setTimeZone tz g) mac site ops (l, o') =
         map_option (\<lambda>o1. if macro_level mac = FATAL then (Aborted, l', g_flush g o1) else (Goes_on, l', o1))
           (g_output g mem (int (length (log_line mac (site_tm (g_logTimeZone g) site) tz site ops))) o')"
proof -
  let ?g = "setTimeZone tz g" and ?t = "site_tm (g_logTimeZone g) site"
  have f: "logLevel ?g = logLevel g" "g_logTimeZone ?g = tz" "g_output ?g = g_output g" "g_flush ?g = g_flush g"
    by (simp_all add: setTimeZone_def logLevel_def)
  have c: "0 < fst (ls_clock site)" "0 \<le> fst (ls_clock site)" "0 \<le> snd (ls_clock site)" "snd (ls_clock site) < 1000000"
    "0 < ls_gettid site" "ls_gettid site < 2 ^ 31"
    using assms(2) by (simp_all add: site_ok_def)
  have "cache_ok (g_logTimeZone g) l" using assms(3) by (simp add: locals_ok_def)
  then have t: "tm_printable ?t" "take 18 (t_time l) = format_tm ?t @ [NUL]"
    using assms(4) c(1) by (auto simp: cache_ok_def site_tm_def)
  have "refresh_time tz (site_second site) l = Some l"
    using assms(4) us_text_length(1) [OF surjective_pairing c(2-4)] by (simp add: refresh_time_def)
  moreover have "cached (ls_gettid site) (site_thread site l)" by (rule site_thread_cached [OF assms(3) c(5,6) refl])
  ultimately have "time_ready tz site ?t l l" using t by (simp add: time_ready_def)
  from log_statement_chain [of mac ?g site ?t l l ops o'] this assms(1,2,5,6) show ?thesis
    unfolding f by (cases "macro_level mac = FATAL") auto
qed

text \<open>The locals of thread 4711 after a first line in the second of \<open>demo_site\<close>, in UTC.\<close>

definition demo_locals :: log_locals where
  "demo_locals = \<lparr>lg_thread = thread_locals_new, t_time = format_tm (gmtime_r 1620982782) @ replicate 47 NUL,
     t_lastSecond = 1620982782\<rparr>"

lemma demo_locals_ok: "locals_ok TimeZone_none n demo_locals"
  by (simp add: locals_ok_def cache_ok_def demo_locals_def demo_tm(2) length_format_tm thread_locals_new_def)

lemma demo_china:
  "case log_tm (TimeZone_fixed 28800 ''CST'') 1620982782 of
     Some t \<Rightarrow> tm_printable t \<and> format_tm t = ''20210514 16:59:42'' | None \<Rightarrow> False"
  by code_simp

lemma demo_site_ok_china:
  assumes "NUL \<notin> set f"
  shows "site_ok (TimeZone_fixed 28800 ''CST'') (demo_site f)"
proof -
  obtain t where "log_tm (TimeZone_fixed 28800 ''CST'') 1620982782 = Some t" "tm_printable t"
    using demo_china by (auto split: option.splits)
  with assms show ?thesis by (simp add: site_ok_def demo_site_def)
qed

lemma demo_stale_line:
  "log_line LOG_WARN (gmtime_r 1620982782) (TimeZone_fixed 28800 ''CST'') (demo_site ''f'') [InsString ''hi'']
   = ''20210514 08:59:42.000123  4711 WARN  hi - main.cc:27'' @ [CHR 0x0A]"
  by (simp add: log_line_defs demo_site_def demo_tm demo_numbers demo_basename c_string_def TimeZone_valid_def
      TimeZone_fixed_def)

theorem setTimeZone_stale_witness:
  "format_tm (site_tm (TimeZone_fixed 28800 ''CST'') (demo_site ''f'')) = ''20210514 16:59:42''
   \<and> (\<exists>l' o1. log_statement (setTimeZone (TimeZone_fixed 28800 ''CST'') log_globals_new) LOG_WARN (demo_site ''f'')
          [InsString ''hi''] (demo_locals, demo_io ()) = Some (Goes_on, l', o1)
     \<and> f_stream (io_stdout o1) = ''20210514 08:59:42.000123  4711 WARN  hi - main.cc:27'' @ [CHR 0x0A])"
proof -
  let ?ops = "[InsString ''hi'']" and ?tz = "TimeZone_fixed 28800 ''CST''"
  have g: "g_logTimeZone log_globals_new = TimeZone_none" "logLevel log_globals_new = INFO"
      "g_output log_globals_new = defaultOutput"
    by (simp_all add: log_globals_new_def logLevel_def)
  have ops: "\<forall>i\<in>set ?ops. op_ok i" by (simp add: op_ok_def c_string_def)
  have need: "sum_list (map op_need ?ops) + site_need (demo_site ''f'') \<le> kSmallBuffer"
    by (simp add: op_need_def c_string_def site_need_def demo_site_def kSmallBuffer_def kMaxNumericSize_def)
  have tm: "site_tm TimeZone_none (demo_site ''f'') = gmtime_r 1620982782" by (simp add: site_tm_none demo_site_def)
  have len: "length (log_line LOG_WARN (gmtime_r 1620982782) ?tz (demo_site ''f'') ?ops) = 53"
    unfolding demo_stale_line by simp
  have "macro_guard LOG_WARN INFO" "macro_level LOG_WARN \<noteq> FATAL" "t_lastSecond demo_locals = fst (ls_clock (demo_site ''f''))"
    by (simp_all add: demo_locals_def demo_site_def)
  with setTimeZone_stale [of LOG_WARN "log_globals_new" ?tz "demo_site ''f''" "demo_locals" ?ops "demo_io ()",
      unfolded g tm len, unfolded demo_stale_line, OF _ demo_site_ok_china demo_locals_ok _ ops need]
  obtain mem l' where "take 53 mem = ''20210514 08:59:42.000123  4711 WARN  hi - main.cc:27'' @ [CHR 0x0A]"
      "log_statement (setTimeZone ?tz log_globals_new) LOG_WARN (demo_site ''f'') ?ops (demo_locals, demo_io ())
         = map_option (\<lambda>o1. (Goes_on, l', o1)) (defaultOutput mem (int 53) (demo_io ()))"
    by (simp del: take_Cons_numeral) blast
  then have "\<exists>l' o1. log_statement (setTimeZone ?tz log_globals_new) LOG_WARN (demo_site ''f'') ?ops (demo_locals, demo_io ())
         = Some (Goes_on, l', o1)
     \<and> f_stream (io_stdout o1) = ''20210514 08:59:42.000123  4711 WARN  hi - main.cc:27'' @ [CHR 0x0A]"
    using demo_output [of mem 53 "()"] by (auto simp del: take_Cons_numeral)
  moreover have "format_tm (site_tm ?tz (demo_site ''f'')) = ''20210514 16:59:42''"
    using demo_china by (auto simp: site_tm_def demo_site_def split: option.splits)
  ultimately show ?thesis by blast
qed

section \<open>Lines that do not fit\<close>

lemma ls_full:
  assumes "ls_wf s" and "ls_room s \<le> 1"
  shows "0 < n \<Longrightarrow> ls_lift (fb_append m n) s = Some s" and "ls_int v s = Some s"
  using assms
  by (auto simp: ls_lift_def ls_wf_def ls_room_def fb_end_def fb_append_full ls_int_def formatInteger_def fb_avail_def
      kMaxNumericSize_def)

lemma finish_full:
  assumes "ls_wf s" and "ls_room s \<le> 1" and "NUL \<notin> set (ls_file site)" and "basename_of (ls_file site) \<noteq> []"
    and "length (ls_file site) < 2 ^ 31"
  shows "ls_run (finish_ops (site_sf site) site) s = Some s"
proof -
  have "ls_cstr (Some (c_string '' - '')) s = Some s"
    using ls_full(1) [OF assms(1,2)] by (simp add: ls_cstr_def c_string_def)
  moreover have "0 < length (basename_of (ls_file site))" "length (basename_of (ls_file site)) < 2 ^ 31"
    using assms(4,5) length_basename_of [of "ls_file site"] by simp_all
  then have "ls_append (sf_data (site_sf site)) (sf_size (site_sf site)) s = Some s"
    using ls_full(1) [OF assms(1,2)] by (simp add: SourceFile_of_array_basename [OF assms(3)] ls_append_def)
  moreover have "ls_char stk c s = Some s" for stk c
    using ls_full(1) [OF assms(1,2)] by (simp add: ls_char_def)
  ultimately show ?thesis using ls_full(2) [OF assms(1,2)] by (simp add: finish_ops_def)
qed

text \<open>C40: A message that fills the stream's buffer takes the end of its line with it.  If the inserted string leaves
  one byte of the 4000, the statement still succeeds, but the source position and the newline are dropped
  without a trace, so that the next line of the log is glued to this one.\<close>

theorem log_line_unterminated:
  assumes "macro_guard mac (logLevel g)" and "site_ok (g_logTimeZone g) site"
    and "locals_ok (g_logTimeZone g) (ls_gettid site) l"
    and "site_need site \<le> kSmallBuffer" and "NUL \<notin> set msg" and "basename_of (ls_file site) \<noteq> []"
    and "length (log_head mac (site_tm (g_logTimeZone g) site) (g_logTimeZone g) site @ msg) = kSmallBuffer - 1"
  shows "\<exists>mem l'. take (kSmallBuffer - 1) mem = log_head mac (site_tm (g_logTimeZone g) site) (g_logTimeZone g) site @ msg
     \<and> log_statement g mac site [InsString msg] (l, o') =
         map_option (\<lambda>o1. (if macro_level mac = FATAL then Aborted else Goes_on, l',
             if macro_level mac = FATAL then g_flush g o1 else o1)) (g_output g mem (int (kSmallBuffer - 1)) o')"
proof -
  let ?tz = "g_logTimeZone g"
  let ?t = "site_tm ?tz site"
  let ?head = "log_head mac ?t ?tz site"
  obtain l1 where l1: "time_ready ?tz site ?t l l1" using time_ready_fresh [OF assms(2,3)] by blast
  note r = l1 [unfolded time_ready_def]
  let ?ops = "header_ops mac ?tz site (t_time l1) (site_thread site l1)" and ?s0 = "ls_new (ls_junk site)"
  have h: "chain ?ops ?head (length (ls_strerror site (sint (ls_errno site))) + length (ls_func site) + length (ls_stack0 site) + 95)"
    using chain_header [OF assms(2)] r by blast
  have k: "length (ls_junk site) = kSmallBuffer" "kSmallBuffer < 2 ^ 31" using assms(2) by (simp_all add: site_ok_def kSmallBuffer_def)
  have s0: "ls_wf ?s0" "ls_room ?s0 = kSmallBuffer" "ls_text ?s0 = []"
    using k by (simp_all add: ls_wf_def ls_new_def fb_new_def fb_wf_def ls_room_def fb_end_def ls_text_def
        fb_toString_def fb_length_def)
  from ls_run_appends [OF s0(1), of ?ops] h assms(4) obtain s1 where s1: "ls_run ?ops ?s0 = Some s1" "ls_wf s1"
      "ls_text s1 = ?head" "ls_room s1 = kSmallBuffer - length ?head"
    by (auto simp: chain_def s0 site_need_def)
  have len: "length ?head + length msg = kSmallBuffer - 1" "length msg < 2 ^ 64"
    using assms(7) by (simp_all add: kSmallBuffer_def)
  have room: "Suc (length msg) \<le> ls_room s1" using len(1) s1(4) by (simp add: kSmallBuffer_def)
  have i: "op_ok (InsString msg)" "op_need (InsString msg) = Suc (length msg)" "op_text (InsString msg) = msg"
    using assms(5) by (simp_all add: op_ok_def op_need_def c_string_def c_strlen_append_NUL)
  from ls_apply_appends [OF s1(2) i(1), unfolded i(2,3) s1(3)] room obtain s2 where
    s2: "ls_apply (InsString msg) s1 = Some s2" "ls_wf s2" "ls_text s2 = ?head @ msg" "ls_room s2 = ls_room s1 - length msg"
    by blast
  have f: "ls_run (finish_ops (site_sf site) site) s2 = Some s2"
  proof (rule finish_full [OF s2(2)])
    show "ls_room s2 \<le> 1" using len(1) s1(4) s2(4) by (simp add: kSmallBuffer_def)
    show "NUL \<notin> set (ls_file site)" "basename_of (ls_file site) \<noteq> []" using assms(2,6) by (simp_all add: site_ok_def)
    show "length (ls_file site) < 2 ^ 31" using assms(4) by (simp add: site_need_def kSmallBuffer_def)
  qed
  have whole: "ls_run (?ops @ [InsString msg] @ finish_ops (site_sf site) site) ?s0 = Some s2"
    using s1(1) s2(1) f by (simp add: fold_opt_append)
  have out: "fb_length (buffer s2) = kSmallBuffer - 1" "take (kSmallBuffer - 1) (fb_data (buffer s2)) = ?head @ msg"
    using s2(2,3) assms(7) length_fb_toString [of "buffer s2"]
    by (auto simp: ls_wf_def ls_text_def fb_toString_def fb_length_def)
  have c: "0 \<le> fst (ls_clock site)" "0 \<le> snd (ls_clock site)" "snd (ls_clock site) < 1000000"
    using assms(2) by (simp_all add: site_ok_def)
  have u: "length (us_text ?tz (site_time site)) < 32"
    using us_text_length(3) [OF surjective_pairing c, of ?tz] by simp
  show ?thesis
    using log_statement_eq [OF assms(1) _ u whole, of l o'] r out by (intro exI [of _ "fb_data (buffer s2)"]) auto
qed

theorem log_line_unterminated_witness:
  "\<exists>l' o1. log_statement log_globals_new LOG_WARN (demo_site ''f'') [InsString (replicate 3961 CHR ''x'')]
          (log_locals_new thread_locals_new, demo_io ()) = Some (Goes_on, l', o1)
     \<and> f_stream (io_stdout o1) = ''20210514 08:59:42.000123Z  4711 WARN  '' @ replicate 3961 CHR ''x''"
proof -
  let ?msg = "replicate 3961 CHR ''x''"
  have g: "g_logTimeZone log_globals_new = TimeZone_none" "logLevel log_globals_new = INFO"
      "g_output log_globals_new = defaultOutput"
    by (simp_all add: log_globals_new_def logLevel_def)
  have tm: "site_tm TimeZone_none (demo_site ''f'') = gmtime_r 1620982782" by (simp add: site_tm_none demo_site_def)
  have head: "log_head LOG_WARN (gmtime_r 1620982782) TimeZone_none (demo_site ''f'') = ''20210514 08:59:42.000123Z  4711 WARN  ''"
    by (simp add: log_head_def demo_site_def demo_tm demo_numbers)
  have k: "kSmallBuffer - 1 = 3999" "int 3999 = 3999" by (simp_all add: kSmallBuffer_def)
  have len: "length (''20210514 08:59:42.000123Z  4711 WARN  '' @ ?msg) = 3999" by simp
  have "macro_guard LOG_WARN INFO" "macro_level LOG_WARN \<noteq> FATAL" by simp_all
  moreover have "site_need (demo_site ''f'') \<le> kSmallBuffer" by (simp add: site_need_def demo_site_def kSmallBuffer_def)
  moreover have "NUL \<notin> set ?msg" by simp
  moreover have "basename_of (ls_file (demo_site ''f'')) \<noteq> []" by (simp add: demo_site_def demo_basename)
  moreover have "NUL \<notin> set ''f''" by simp
  note log_line_unterminated [of LOG_WARN "log_globals_new" "demo_site ''f''" "log_locals_new thread_locals_new" ?msg "demo_io ()",
      unfolded g tm head k, OF _ demo_site_ok [OF this] locals_ok_new _ _ _ len]
  ultimately obtain mem l' where
    "take 3999 mem = ''20210514 08:59:42.000123Z  4711 WARN  '' @ ?msg"
    "log_statement log_globals_new LOG_WARN (demo_site ''f'') [InsString ?msg] (log_locals_new thread_locals_new, demo_io ())
      = map_option (\<lambda>o1. (Goes_on, l', o1)) (defaultOutput mem (int 3999) (demo_io ()))"
    by (simp del: take_Cons_numeral) blast
  then show ?thesis using demo_output [of mem 3999 "()"] by (auto simp del: take_Cons_numeral)
qed

end
