(* ===== verification/LogFile.thy ===== *)
theory LogFile
  imports ProcessInfo Timestamp
begin

text \<open>The rolling log file (LogFile.h, LogFile.cc): one \<open>AppendFile\<close> at a time, a new one when the size
  limit is passed or the day changes, a flush when the last one is long ago.

  The world a log file lives in is a record: the readings the clock will give, the answer of
  \<open>gethostname\<close>, the process id, how each future \<open>fopen\<close> turns out, and the files closed so far.  All
  operations pass the object and the world along and are \<open>None\<close> where the program aborts (a failed
  assertion), follows a null pointer or never returns.  The section on the sink states what the rest of
  the program needs from a log file as a locale, and the log file satisfies it.\<close>

section \<open>The class\<close>

record world =
  w_clock :: "nat \<Rightarrow> int"
  w_ticks :: nat
  w_hostname :: "int \<times> bytes"
  w_pid :: int
  w_fopen :: "nat \<Rightarrow> (nat \<Rightarrow> fw_answer) option"
  w_opens :: nat
  w_closed :: "FILE list"

definition time_now :: "world \<Rightarrow> int \<times> world" where
  "time_now w = (w_clock w (w_ticks w), w\<lparr>w_ticks := Suc (w_ticks w)\<rparr>)"

text \<open>\<open>strftime\<close> with the format \<open>%Y%m%d-%H%M%S.\<close>.\<close>

definition strftime_stamp :: "tm \<Rightarrow> bytes" where
  "strftime_stamp t =
     fmt_d (tm_year t + 1900) @ fmt_d_zero 2 (tm_mon t + 1) @ fmt_d_zero 2 (tm_mday t) @ ''-''
       @ fmt_d_zero 2 (tm_hour t) @ fmt_d_zero 2 (tm_min t) @ fmt_d_zero 2 (tm_sec t) @ ''.''"

definition getLogFileName :: "bytes \<Rightarrow> world \<Rightarrow> bytes \<times> int \<times> world" where
  "getLogFileName basename w =
     (let (now, w') = time_now w;
          tm = gmtime_r now;
          pidbuf = until_NUL (snprintf_mem 32 (''.'' @ fmt_d (w_pid w)))
      in (basename @ strftime_stamp tm @ hostname (w_hostname w) @ pidbuf @ ''.log'', now, w'))"

definition kRollPerSeconds :: int where
  "kRollPerSeconds = 60 * 60 * 24"

record LogFile =
  lf_basename :: bytes
  lf_rollSize :: int
  lf_flushInterval :: int
  lf_checkEveryN :: int
  lf_count :: int
  lf_mutex :: "bool option"
  lf_startOfPeriod :: int
  lf_lastRoll :: int
  lf_lastFlush :: int
  lf_file :: "AppendFile option"

text \<open>Opening a file: the stream starts with nothing written and the answers the world has for it.\<close>

definition fopen_log :: "bytes \<Rightarrow> world \<Rightarrow> (AppendFile \<times> world) option" where
  "fopen_log filename w =
     (case w_fopen w (w_opens w) of
        None \<Rightarrow> None
      | Some env \<Rightarrow>
          Some (AppendFile_open \<lparr>f_name = filename, f_stream = [], f_flushed = 0, f_error = False,
                  f_calls = 0, f_env = env\<rparr>, w\<lparr>w_opens := Suc (w_opens w)\<rparr>))"

definition rollFile :: "LogFile \<Rightarrow> world \<Rightarrow> (bool \<times> LogFile \<times> world) option" where
  "rollFile l w =
     (let (filename, now, w1) = getLogFileName (lf_basename l) w;
          start = now sdiv kRollPerSeconds * kRollPerSeconds
      in if lf_lastRoll l < now
         then (case fopen_log filename w1 of
                 None \<Rightarrow> None
               | Some (f, w2) \<Rightarrow>
                   Some (True,
                     l\<lparr>lf_lastRoll := now, lf_lastFlush := now, lf_startOfPeriod := start, lf_file := Some f\<rparr>,
                     w2\<lparr>w_closed := w_closed w2 @
                        (case lf_file l of None \<Rightarrow> [] | Some old \<Rightarrow> [AppendFile_close old])\<rparr>))
         else Some (False, l, w1))"

text \<open>The constructor; \<open>lf_mutex\<close> is \<open>None\<close> without the mutex, otherwise whether it is held.\<close>

definition LogFile_new :: "bytes \<Rightarrow> int \<Rightarrow> bool \<Rightarrow> int \<Rightarrow> int \<Rightarrow> world \<Rightarrow> (LogFile \<times> world) option" where
  "LogFile_new basename rollSize threadSafe flushInterval checkEveryN w =
     map_option snd (rollFile
       \<lparr>lf_basename = basename, lf_rollSize = rollSize, lf_flushInterval = flushInterval,
        lf_checkEveryN = checkEveryN, lf_count = 0, lf_mutex = (if threadSafe then Some False else None),
        lf_startOfPeriod = 0, lf_lastRoll = 0, lf_lastFlush = 0, lf_file = None\<rparr> w)"

definition isNeedRollFile :: "LogFile \<Rightarrow> world \<Rightarrow> (bool \<times> LogFile \<times> world) option" where
  "isNeedRollFile l w =
     (case lf_file l of
        None \<Rightarrow> None
      | Some f \<Rightarrow>
          if lf_rollSize l < af_writenBytes f then Some (True, l, w)
          else let l1 = l\<lparr>lf_count := lf_count l + 1\<rparr> in
            if lf_checkEveryN l1 \<le> lf_count l1
            then let l2 = l1\<lparr>lf_count := 0\<rparr>;
                     (now, w1) = time_now w;
                     curPeriod = now sdiv kRollPerSeconds * kRollPerSeconds
                 in if curPeriod \<noteq> lf_startOfPeriod l2 then Some (True, l2, w1)
                    else if lf_flushInterval l2 < now - lf_lastFlush l2
                    then Some (False, l2\<lparr>lf_lastFlush := now, lf_file := Some (AppendFile_flush f)\<rparr>, w1)
                    else Some (False, l2, w1)
            else Some (False, l1, w))"

definition append_unlock :: "bytes \<Rightarrow> LogFile \<Rightarrow> world \<Rightarrow> (LogFile \<times> world) option" where
  "append_unlock logline l w =
     do { f \<leftarrow> lf_file l;
          f' \<leftarrow> AppendFile_append logline f;
          (need, l', w') \<leftarrow> isNeedRollFile (l\<lparr>lf_file := Some f'\<rparr>) w;
          if need then map_option snd (rollFile l' w') else Some (l', w') }"

text \<open>An operation under the mutex, if there is one; taking a mutex one already holds never returns.\<close>

definition with_mutex ::
  "(LogFile \<Rightarrow> world \<Rightarrow> (LogFile \<times> world) option) \<Rightarrow> LogFile \<Rightarrow> world \<Rightarrow> (LogFile \<times> world) option" where
  "with_mutex body l w =
     (case lf_mutex l of
        None \<Rightarrow> body l w
      | Some True \<Rightarrow> None
      | Some False \<Rightarrow>
          map_option (\<lambda>(l', w'). (l'\<lparr>lf_mutex := Some False\<rparr>, w')) (body (l\<lparr>lf_mutex := Some True\<rparr>) w))"

definition LogFile_append :: "bytes \<Rightarrow> LogFile \<times> world \<Rightarrow> (LogFile \<times> world) option" where
  "LogFile_append logline s = with_mutex (append_unlock logline) (fst s) (snd s)"

definition flush_unlock :: "LogFile \<Rightarrow> world \<Rightarrow> (LogFile \<times> world) option" where
  "flush_unlock l w = map_option (\<lambda>f. (l\<lparr>lf_file := Some (AppendFile_flush f)\<rparr>, w)) (lf_file l)"

definition LogFile_flush :: "LogFile \<times> world \<Rightarrow> (LogFile \<times> world) option" where
  "LogFile_flush s = with_mutex flush_unlock (fst s) (snd s)"

text \<open>The destructor: the members are destroyed in the reverse order of their declaration, so the file is closed
  before the destructor of the mutex asserts that nobody holds it.\<close>

definition LogFile_destroy :: "LogFile \<times> world \<Rightarrow> world option" where
  "LogFile_destroy s =
     (let w = snd s; w' = w\<lparr>w_closed := w_closed w @
            (case lf_file (fst s) of None \<Rightarrow> [] | Some f \<Rightarrow> [AppendFile_close f])\<rparr>
      in if lf_mutex (fst s) = Some True then None else Some w')"

section \<open>What has been written\<close>

definition lf_output :: "LogFile \<times> world \<Rightarrow> bytes" where
  "lf_output s = concat (map f_stream (w_closed (snd s))) @
     (case lf_file (fst s) of None \<Rightarrow> [] | Some f \<Rightarrow> f_stream (af_fp f))"

text \<open>The part of it that has left the process: closed files entirely, of the open one what has been
  flushed.\<close>

definition lf_durable :: "LogFile \<times> world \<Rightarrow> bytes" where
  "lf_durable s = concat (map f_stream (w_closed (snd s))) @
     (case lf_file (fst s) of None \<Rightarrow> [] | Some f \<Rightarrow> take (f_flushed (af_fp f)) (f_stream (af_fp f)))"

text \<open>A log file in working order: a file is open, no write has failed or will fail, and every later
  \<open>fopen\<close> succeeds.\<close>

definition w_healthy :: "world \<Rightarrow> bool" where
  "w_healthy w \<longleftrightarrow> (\<forall>n. \<exists>env. w_fopen w n = Some env \<and> good_answers env)"

definition lf_ok :: "LogFile \<times> world \<Rightarrow> bool" where
  "lf_ok s \<longleftrightarrow> w_healthy (snd s) \<and> lf_mutex (fst s) \<noteq> Some True
     \<and> (\<exists>f. lf_file (fst s) = Some f \<and> fw_healthy (af_fp f) \<and> af_writenBytes f = int (length (f_stream (af_fp f)))
         \<and> f_flushed (af_fp f) \<le> length (f_stream (af_fp f)))"

text \<open>The configuration never changes.\<close>

definition lf_config :: "LogFile \<Rightarrow> bytes \<times> int \<times> int \<times> int" where
  "lf_config l = (lf_basename l, lf_rollSize l, lf_flushInterval l, lf_checkEveryN l)"

definition lf_files :: "LogFile \<times> world \<Rightarrow> FILE list" where
  "lf_files s = w_closed (snd s) @ (case lf_file (fst s) of None \<Rightarrow> [] | Some f \<Rightarrow> [af_fp f])"

lemma lf_output_files: "lf_output s = concat (map f_stream (lf_files s))"
  by (simp add: lf_output_def lf_files_def split: option.splits)

lemma AppendFile_open_simps [simp]:
  "af_fp (AppendFile_open f) = f" "af_writenBytes (AppendFile_open f) = 0" "af_stderr (AppendFile_open f) = []"
  by (simp_all add: AppendFile_open_def)

lemma AppendFile_close_simps [simp]:
  "f_stream (AppendFile_close a) = f_stream (af_fp a)" "f_name (AppendFile_close a) = f_name (af_fp a)"
  by (simp_all add: AppendFile_close_def fflush_def)

lemma AppendFile_flush_simps [simp]:
  "f_stream (af_fp (AppendFile_flush a)) = f_stream (af_fp a)"
  "f_name (af_fp (AppendFile_flush a)) = f_name (af_fp a)"
  "f_flushed (af_fp (AppendFile_flush a)) = length (f_stream (af_fp a))"
  "af_writenBytes (AppendFile_flush a) = af_writenBytes a"
  "fw_healthy (af_fp (AppendFile_flush a)) = fw_healthy (af_fp a)"
  by (simp_all add: AppendFile_flush_def fflush_def fw_healthy_def)

text \<open>Rolling in a healthy world: nothing happens unless the clock has moved past the last roll.\<close>

lemma rollFile_stays:
  assumes "w_clock w (w_ticks w) \<le> lf_lastRoll l"
  shows "rollFile l w = Some (False, l, w\<lparr>w_ticks := Suc (w_ticks w)\<rparr>)"
  using assms by (simp add: rollFile_def getLogFileName_def time_now_def Let_def)

definition log_name :: "bytes \<Rightarrow> int \<Rightarrow> world \<Rightarrow> bytes" where
  "log_name basename now w =
     basename @ strftime_stamp (gmtime_r now) @ hostname (w_hostname w)
       @ until_NUL (snprintf_mem 32 (''.'' @ fmt_d (w_pid w))) @ ''.log''"

lemma rollFile_rolls:
  assumes "lf_lastRoll l < w_clock w (w_ticks w)" "w_healthy w"
  shows "\<exists>f w'. rollFile l w = Some (True,
      l\<lparr>lf_lastRoll := w_clock w (w_ticks w), lf_lastFlush := w_clock w (w_ticks w),
        lf_startOfPeriod := w_clock w (w_ticks w) sdiv kRollPerSeconds * kRollPerSeconds, lf_file := Some f\<rparr>, w')
    \<and> w_closed w' = w_closed w @ (case lf_file l of None \<Rightarrow> [] | Some old \<Rightarrow> [AppendFile_close old])
    \<and> w_clock w' = w_clock w \<and> w_ticks w' = Suc (w_ticks w) \<and> w_healthy w'
    \<and> w_hostname w' = w_hostname w \<and> w_pid w' = w_pid w
    \<and> f_stream (af_fp f) = [] \<and> f_flushed (af_fp f) = 0 \<and> af_writenBytes f = 0 \<and> fw_healthy (af_fp f)
    \<and> f_name (af_fp f) = log_name (lf_basename l) (w_clock w (w_ticks w)) w"
proof -
  obtain env where "w_fopen w (w_opens w) = Some env" "good_answers env"
    using assms(2) unfolding w_healthy_def by blast
  note env = this
  let ?f = "AppendFile_open \<lparr>f_name = log_name (lf_basename l) (w_clock w (w_ticks w)) w, f_stream = [],
      f_flushed = 0, f_error = False, f_calls = 0, f_env = env\<rparr>"
  show ?thesis
    by (rule exI[of _ ?f])
      (use assms env in \<open>simp add: rollFile_def getLogFileName_def time_now_def fopen_log_def Let_def
        fw_healthy_def w_healthy_def log_name_def\<close>)
qed

text \<open>\<open>lf_ready\<close> is \<open>lf_ok\<close> without the mutex, as it holds inside the critical section.\<close>

definition lf_ready :: "LogFile \<Rightarrow> world \<Rightarrow> bool" where
  "lf_ready l w \<longleftrightarrow> w_healthy w \<and> (\<exists>f. lf_file l = Some f \<and> fw_healthy (af_fp f)
     \<and> af_writenBytes f = int (length (f_stream (af_fp f))) \<and> f_flushed (af_fp f) \<le> length (f_stream (af_fp f)))"

lemma lf_ok_ready: "lf_ok (l, w) \<longleftrightarrow> lf_ready l w \<and> lf_mutex l \<noteq> Some True"
  by (auto simp: lf_ok_def lf_ready_def)

text \<open>The names and contents of all files so far, oldest first.\<close>

definition lf_log :: "LogFile \<Rightarrow> world \<Rightarrow> (bytes \<times> bytes) list" where
  "lf_log l w = map (\<lambda>f. (f_name f, f_stream f)) (lf_files (l, w))"

lemma lf_output_log: "lf_output (l, w) = concat (map snd (lf_log l w))"
  by (simp add: lf_output_files lf_log_def comp_def)

text \<open>What an operation may do to the world it runs in.\<close>

definition world_moves :: "world \<Rightarrow> world \<Rightarrow> bool" where
  "world_moves w w' \<longleftrightarrow> w_clock w' = w_clock w \<and> w_ticks w \<le> w_ticks w' \<and> w_hostname w' = w_hostname w
     \<and> w_pid w' = w_pid w \<and> (w_healthy w \<longrightarrow> w_healthy w')"

lemma world_moves_refl [simp]: "world_moves w w"
  by (simp add: world_moves_def)

lemma world_moves_trans: "world_moves w w' \<Longrightarrow> world_moves w' w'' \<Longrightarrow> world_moves w w''"
  by (auto simp: world_moves_def)

lemma isNeedRollFile_ready:
  assumes "lf_ready l w"
  shows "\<exists>need l' w'. isNeedRollFile l w = Some (need, l', w') \<and> lf_ready l' w' \<and> lf_log l' w' = lf_log l w
    \<and> w_closed w' = w_closed w \<and> lf_mutex l' = lf_mutex l \<and> lf_config l' = lf_config l
    \<and> lf_lastRoll l' = lf_lastRoll l \<and> world_moves w w'
    \<and> (\<not> need \<longrightarrow> int (length (snd (last (lf_log l w)))) \<le> lf_rollSize l)"
proof -
  obtain f where f: "lf_file l = Some f" "fw_healthy (af_fp f)"
    "af_writenBytes f = int (length (f_stream (af_fp f)))" "f_flushed (af_fp f) \<le> length (f_stream (af_fp f))"
    and w: "w_healthy w"
    using assms by (auto simp: lf_ready_def)
  have w': "w_healthy (w\<lparr>w_ticks := n\<rparr>)" for n using w by (simp add: w_healthy_def)
  have last: "snd (last (lf_log l w)) = f_stream (af_fp f)"
    using f by (simp add: lf_log_def lf_files_def)
  show ?thesis
    unfolding last
    using f w w'
    by (auto simp: isNeedRollFile_def Let_def time_now_def lf_ready_def lf_log_def lf_files_def lf_config_def
        world_moves_def)
qed

lemma rollFile_ready:
  assumes "lf_ready l w"
  shows "\<exists>rolled l' w'. rollFile l w = Some (rolled, l', w') \<and> lf_ready l' w'
    \<and> lf_mutex l' = lf_mutex l \<and> lf_config l' = lf_config l \<and> world_moves w w'
    \<and> (rolled \<longleftrightarrow> lf_lastRoll l < w_clock w (w_ticks w))
    \<and> w_ticks w' = Suc (w_ticks w)
    \<and> (if rolled then lf_lastRoll l' = w_clock w (w_ticks w)
          \<and> lf_log l' w' = lf_log l w @ [(log_name (lf_basename l) (lf_lastRoll l') w, [])]
       else lf_lastRoll l' = lf_lastRoll l \<and> lf_log l' w' = lf_log l w)"
proof (cases "lf_lastRoll l < w_clock w (w_ticks w)")
  case True
  have w: "w_healthy w" using assms by (simp add: lf_ready_def)
  obtain f where f: "lf_file l = Some f" using assms by (auto simp: lf_ready_def)
  from rollFile_rolls[OF True w] show ?thesis
    using True f
    by (auto simp: lf_ready_def lf_config_def world_moves_def lf_log_def lf_files_def)
next
  case False
  then show ?thesis
    using rollFile_stays[of w l] assms
    by (auto simp: lf_ready_def lf_config_def world_moves_def lf_log_def lf_files_def w_healthy_def)
qed

text \<open>The file list after one append: the line goes to the end of the last file, and a new empty file
  may follow.\<close>

definition log_append :: "bytes \<Rightarrow> (bytes \<times> bytes) list \<Rightarrow> (bytes \<times> bytes) list" where
  "log_append line fs = butlast fs @ [(fst (last fs), snd (last fs) @ line)]"

lemma concat_log_append:
  "fs \<noteq> [] \<Longrightarrow> concat (map snd (log_append line fs)) = concat (map snd fs) @ line"
  by (cases fs rule: rev_cases) (auto simp: log_append_def)

lemma lf_log_mutex [simp]: "lf_log (l\<lparr>lf_mutex := m\<rparr>) w = lf_log l w"
  by (simp add: lf_log_def lf_files_def)

lemma lf_ready_mutex [simp]: "lf_ready (l\<lparr>lf_mutex := m\<rparr>) w = lf_ready l w"
  by (simp add: lf_ready_def)

lemma lf_config_mutex [simp]: "lf_config (l\<lparr>lf_mutex := m\<rparr>) = lf_config l"
  by (simp add: lf_config_def)

definition append_effect :: "bytes \<Rightarrow> LogFile \<Rightarrow> world \<Rightarrow> LogFile \<Rightarrow> world \<Rightarrow> bool" where
  "append_effect line l w l' w' \<longleftrightarrow> (\<exists>w0 rolled. lf_config l' = lf_config l \<and> world_moves w w0 \<and> world_moves w0 w'
    \<and> (if rolled then lf_lastRoll l < lf_lastRoll l' \<and> lf_lastRoll l' = w_clock w (w_ticks w0) \<and> w_ticks w0 < w_ticks w'
          \<and> lf_log l' w' = log_append line (lf_log l w) @ [(log_name (lf_basename l) (lf_lastRoll l') w, [])]
       else lf_lastRoll l' = lf_lastRoll l \<and> lf_log l' w' = log_append line (lf_log l w)
          \<and> (int (length (snd (last (lf_log l' w')))) \<le> lf_rollSize l
             \<or> w_clock w (w_ticks w0) \<le> lf_lastRoll l \<and> w_ticks w0 < w_ticks w')))"

lemma append_effect_mutex [simp]:
  "append_effect line (l\<lparr>lf_mutex := m\<rparr>) w l' w' = append_effect line l w l' w'"
  "append_effect line l w (l'\<lparr>lf_mutex := m\<rparr>) w' = append_effect line l w l' w'"
  by (simp_all add: append_effect_def)

lemma append_unlock_ready:
  assumes "lf_ready l w"
  shows "\<exists>l' w'. append_unlock line l w = Some (l', w') \<and> lf_ready l' w' \<and> lf_mutex l' = lf_mutex l
    \<and> append_effect line l w l' w'"
proof -
  obtain f where f: "lf_file l = Some f" "fw_healthy (af_fp f)"
    "af_writenBytes f = int (length (f_stream (af_fp f)))" "f_flushed (af_fp f) \<le> length (f_stream (af_fp f))"
    and w: "w_healthy w"
    using assms by (auto simp: lf_ready_def)
  obtain f' where f': "AppendFile_append line f = Some f'" "f_stream (af_fp f') = f_stream (af_fp f) @ line"
    "fw_healthy (af_fp f')" "f_name (af_fp f') = f_name (af_fp f)" "f_flushed (af_fp f') = f_flushed (af_fp f)"
    "af_writenBytes f' = af_writenBytes f + int (length line)"
    using AppendFile_append_healthy[OF f(2)] by blast
  let ?l = "l\<lparr>lf_file := Some f'\<rparr>"
  have "lf_ready ?l w" using f f' w by (simp add: lf_ready_def)
  from isNeedRollFile_ready[OF this] obtain need l1 w1 where
    n: "isNeedRollFile ?l w = Some (need, l1, w1)" "lf_ready l1 w1" "lf_log l1 w1 = lf_log ?l w"
      "lf_mutex l1 = lf_mutex l" "lf_config l1 = lf_config l" "lf_lastRoll l1 = lf_lastRoll l" "world_moves w w1"
      "\<not> need \<longrightarrow> int (length (snd (last (lf_log ?l w)))) \<le> lf_rollSize l"
    by (auto simp: lf_config_def)
  have log: "lf_log ?l w = log_append line (lf_log l w)"
    using f(1) f' by (simp add: lf_log_def lf_files_def log_append_def)
  show ?thesis
  proof (cases need)
    case False
    then have "append_unlock line l w = Some (l1, w1)" using f f' n by (simp add: append_unlock_def)
    moreover have "append_effect line l w l1 w1"
      unfolding append_effect_def using n False log by (intro exI[of _ w] exI[of _ False]) auto
    ultimately show ?thesis using n by blast
  next
    case True
    from rollFile_ready[OF n(2)] obtain rolled l2 w2 where
      r: "rollFile l1 w1 = Some (rolled, l2, w2)" "lf_ready l2 w2" "lf_mutex l2 = lf_mutex l1"
        "lf_config l2 = lf_config l1" "world_moves w1 w2" "rolled \<longleftrightarrow> lf_lastRoll l1 < w_clock w1 (w_ticks w1)"
        "w_ticks w2 = Suc (w_ticks w1)"
        "if rolled then lf_lastRoll l2 = w_clock w1 (w_ticks w1)
          \<and> lf_log l2 w2 = lf_log l1 w1 @ [(log_name (lf_basename l1) (lf_lastRoll l2) w1, [])]
         else lf_lastRoll l2 = lf_lastRoll l1 \<and> lf_log l2 w2 = lf_log l1 w1"
      by blast
    have a: "append_unlock line l w = Some (l2, w2)" using True f f' n r by (simp add: append_unlock_def)
    have same: "w_clock w1 = w_clock w" "log_name (lf_basename l1) t w1 = log_name (lf_basename l) t w" for t
      using n(5,7) by (simp_all add: world_moves_def log_name_def lf_config_def)
    have "append_effect line l w l2 w2"
      unfolding append_effect_def using n r log same
      by (intro exI[of _ w1] exI[of _ rolled]) (auto split: if_splits)
    then show ?thesis using a n r by auto
  qed
qed

lemma with_mutex_ready:
  assumes "lf_mutex l \<noteq> Some True"
    and "body (l\<lparr>lf_mutex := (if lf_mutex l = None then None else Some True)\<rparr>) w = Some (l', w')"
    and "lf_mutex l' = (if lf_mutex l = None then None else Some True)"
  shows "with_mutex body l w = Some (l'\<lparr>lf_mutex := lf_mutex l\<rparr>, w')"
proof (cases "lf_mutex l")
  case None
  then have id: "l\<lparr>lf_mutex := None\<rparr> = l" "l'\<lparr>lf_mutex := None\<rparr> = l'" using assms(3) by simp_all
  have "body l w = Some (l', w')" using assms(2) by (simp add: None id)
  then show ?thesis by (simp add: with_mutex_def None id)
next
  case (Some b)
  then show ?thesis using assms by (cases b) (simp_all add: with_mutex_def)
qed

lemma LogFile_append_log:
  assumes "lf_ok (l, w)"
  shows "\<exists>l' w'. LogFile_append line (l, w) = Some (l', w') \<and> lf_ok (l', w') \<and> append_effect line l w l' w'"
proof -
  let ?m = "if lf_mutex l = None then None else Some True"
  have "lf_ready (l\<lparr>lf_mutex := ?m\<rparr>) w" using assms by (simp add: lf_ok_ready)
  from append_unlock_ready[OF this, of line] obtain l' w' where
    a: "append_unlock line (l\<lparr>lf_mutex := ?m\<rparr>) w = Some (l', w')" "lf_ready l' w'" "lf_mutex l' = ?m"
      "append_effect line l w l' w'"
    unfolding append_effect_mutex by auto
  have "LogFile_append line (l, w) = Some (l'\<lparr>lf_mutex := lf_mutex l\<rparr>, w')"
    using with_mutex_ready[of l "append_unlock line" w l' w'] a assms
    by (simp add: LogFile_append_def lf_ok_ready)
  then show ?thesis
    using a assms by (intro exI[of _ "l'\<lparr>lf_mutex := lf_mutex l\<rparr>"] exI[of _ w']) (simp add: lf_ok_ready)
qed

lemma lf_log_nonempty: "lf_ok (l, w) \<Longrightarrow> lf_log l w \<noteq> []"
  by (auto simp: lf_ok_def lf_log_def lf_files_def)

lemma LogFile_append_ok:
  assumes "lf_ok s"
  shows "\<exists>s'. LogFile_append line s = Some s' \<and> lf_ok s' \<and> lf_output s' = lf_output s @ line"
proof -
  obtain l w where s: "s = (l, w)" by (cases s)
  from LogFile_append_log[OF assms[unfolded s], of line] show ?thesis
    using lf_log_nonempty[of l w] assms concat_log_append[of "lf_log l w" line]
    by (auto simp: s lf_output_log append_effect_def split: if_splits)
qed

lemma LogFile_flush_ok:
  assumes "lf_ok s"
  shows "\<exists>s'. LogFile_flush s = Some s' \<and> lf_ok s' \<and> lf_output s' = lf_output s \<and> lf_durable s' = lf_output s"
proof -
  obtain l w where s: "s = (l, w)" by (cases s)
  obtain f where f: "lf_file l = Some f" using assms by (auto simp: s lf_ok_def)
  have m: "lf_mutex l \<noteq> Some True" using assms by (simp add: s lf_ok_ready)
  have "LogFile_flush s = Some (l\<lparr>lf_file := Some (AppendFile_flush f), lf_mutex := lf_mutex l\<rparr>, w)"
    using with_mutex_ready[OF m, of flush_unlock w
        "l\<lparr>lf_mutex := (if lf_mutex l = None then None else Some True), lf_file := Some (AppendFile_flush f)\<rparr>" w] f
    by (simp add: LogFile_flush_def flush_unlock_def s)
  then show ?thesis
    using assms f by (auto simp: s lf_ok_def lf_output_def lf_durable_def)
qed

section \<open>The sink the rest of the program writes to\<close>

text \<open>What a log sink promises its client: while it is in order, \<open>put\<close> returns and appends exactly the
  given bytes, and \<open>sync\<close> returns and leaves nothing behind.\<close>

locale log_sink =
  fixes ok :: "'s \<Rightarrow> bool"
    and written :: "'s \<Rightarrow> bytes"
    and durable :: "'s \<Rightarrow> bytes"
    and put :: "bytes \<Rightarrow> 's \<Rightarrow> 's option"
    and sync :: "'s \<Rightarrow> 's option"
  assumes put_ok: "ok s \<Longrightarrow> \<exists>s'. put m s = Some s' \<and> ok s' \<and> written s' = written s @ m"
    and sync_ok: "ok s \<Longrightarrow> \<exists>s'. sync s = Some s' \<and> ok s' \<and> written s' = written s \<and> durable s' = written s"
begin

lemma put_all:
  "ok s \<Longrightarrow> \<exists>s'. fold_opt put ms s = Some s' \<and> ok s' \<and> written s' = written s @ concat ms"
proof (induction ms arbitrary: s)
  case Nil
  then show ?case by simp
next
  case (Cons m ms)
  obtain s1 where s1: "put m s = Some s1" "ok s1" "written s1 = written s @ m"
    using put_ok[OF Cons.prems] by blast
  from Cons.IH[OF s1(2)] show ?case using s1 by auto
qed

lemma put_all_sync:
  assumes "ok s"
  shows "\<exists>s1 s2. fold_opt put ms s = Some s1 \<and> sync s1 = Some s2 \<and> ok s2
    \<and> written s2 = written s @ concat ms \<and> durable s2 = written s2"
proof -
  obtain s1 where s1: "fold_opt put ms s = Some s1" "ok s1" "written s1 = written s @ concat ms"
    using put_all[OF assms] by blast
  from sync_ok[OF s1(2)] show ?thesis using s1 by auto
qed

end

interpretation lf: log_sink lf_ok lf_output lf_durable LogFile_append LogFile_flush
  by unfold_locales (use LogFile_append_ok LogFile_flush_ok in blast)+

section \<open>Properties of the log file\<close>

text \<open>After the destructor everything that was ever appended has left the process.\<close>

lemma LogFile_destroy_durable:
  assumes "lf_ok s"
  shows "\<exists>w f. LogFile_destroy s = Some w \<and> concat (map f_stream (w_closed w)) = lf_output s
    \<and> last (w_closed w) = f \<and> f_flushed f = length (f_stream f)"
  using assms
  by (auto simp: lf_ok_def LogFile_destroy_def lf_output_def AppendFile_close_def fflush_def Let_def)

text \<open>A small world for the examples: a clock that moves one second per reading, streams that take
  three bytes at a time, 2021-05-18 10:00:00 as the first reading.\<close>

definition demo_world :: world where
  "demo_world = \<lparr>w_clock = (\<lambda>n. 1621332000 + int n), w_ticks = 0, w_hostname = (0, ''host'' @ [NUL]), w_pid = 42,
     w_fopen = (\<lambda>n. Some (\<lambda>i. Accept 3 False)), w_opens = 0, w_closed = []\<rparr>"

lemma demo_world_simps [simp]:
  "w_clock demo_world n = 1621332000 + int n" "w_ticks demo_world = 0" "w_closed demo_world = []"
  by (simp_all add: demo_world_def)

lemma demo_world_healthy [simp]: "w_healthy demo_world"
  by (auto simp: demo_world_def w_healthy_def good_answers_def)

lemma LogFile_new_ok:
  assumes "w_healthy w" "0 < w_clock w (w_ticks w)" "w_closed w = []"
  shows "\<exists>l w'. LogFile_new basename rollSize threadSafe flushInterval checkEveryN w = Some (l, w') \<and> lf_ok (l, w')
    \<and> lf_config l = (basename, rollSize, flushInterval, checkEveryN) \<and> lf_lastRoll l = w_clock w (w_ticks w)
    \<and> w_ticks w' = Suc (w_ticks w)
    \<and> lf_log l w' = [(log_name basename (w_clock w (w_ticks w)) w, [])] \<and> world_moves w w'"
proof -
  let ?l = "\<lparr>lf_basename = basename, lf_rollSize = rollSize, lf_flushInterval = flushInterval,
        lf_checkEveryN = checkEveryN, lf_count = 0, lf_mutex = (if threadSafe then Some False else None),
        lf_startOfPeriod = 0, lf_lastRoll = 0, lf_lastFlush = 0, lf_file = None\<rparr>"
  have "lf_lastRoll ?l < w_clock w (w_ticks w)" using assms(2) by simp
  from rollFile_rolls[OF this assms(1)] show ?thesis
    using assms by (auto simp: LogFile_new_def lf_ok_def lf_config_def lf_log_def lf_files_def world_moves_def)
qed

text \<open>A sequence of operations by the program's threads, one after the other as the mutex orders them.\<close>

datatype lf_op = LfAppend bytes | LfFlush

fun lf_apply :: "lf_op \<Rightarrow> LogFile \<times> world \<Rightarrow> (LogFile \<times> world) option" where
  "lf_apply (LfAppend line) s = LogFile_append line s"
| "lf_apply LfFlush s = LogFile_flush s"

fun lf_lines :: "lf_op list \<Rightarrow> bytes list" where
  "lf_lines [] = []"
| "lf_lines (LfAppend line # ops) = line # lf_lines ops"
| "lf_lines (LfFlush # ops) = lf_lines ops"

lemma LogFile_flush_log:
  assumes "lf_ok (l, w)" "LogFile_flush (l, w) = Some (l', w')"
  shows "lf_ok (l', w')" "lf_log l' w' = lf_log l w" "lf_config l' = lf_config l" "lf_lastRoll l' = lf_lastRoll l"
    "w' = w"
  using assms
  by (auto simp: lf_ok_def LogFile_flush_def with_mutex_def flush_unlock_def lf_log_def lf_files_def lf_config_def
      split: option.splits bool.splits)

text \<open>\<open>grouped gs fs\<close>: the contents of the files are the messages of the groups, each file one group.\<close>

lemma log_append_grouped:
  assumes "map snd fs = map concat gs" "fs \<noteq> []"
  shows "map snd (log_append line fs) = map concat (butlast gs @ [last gs @ [line]])"
proof -
  have gs: "gs \<noteq> []" using assms by auto
  have "map snd (butlast fs) = map concat (butlast gs)"
    using assms(1) by (metis map_butlast)
  moreover have "snd (last fs) = concat (last gs)"
    using assms gs by (metis last_map)
  ultimately show ?thesis by (simp add: log_append_def)
qed

lemma lf_run_grouped:
  assumes "lf_ok (l, w)" "map snd (lf_log l w) = map concat gs"
  shows "\<exists>l' w' gs'. fold_opt lf_apply ops (l, w) = Some (l', w') \<and> lf_ok (l', w')
    \<and> map snd (lf_log l' w') = map concat gs' \<and> concat gs' = concat gs @ lf_lines ops"
  using assms
proof (induction ops arbitrary: l w gs rule: lf_lines.induct)
  case 1
  then show ?case by (auto intro!: exI[of _ gs])
next
  case (2 line ops)
  note ne = lf_log_nonempty[OF "2.prems"(1)]
  obtain l1 w1 where s: "LogFile_append line (l, w) = Some (l1, w1)" "lf_ok (l1, w1)"
    and e: "append_effect line l w l1 w1"
    using LogFile_append_log[OF "2.prems"(1)] by blast
  have gs: "gs \<noteq> []" using "2.prems"(2) ne by auto
  then have cg: "concat (butlast gs @ [last gs @ [line]]) = concat gs @ [line]"
    by (cases gs rule: rev_cases) auto
  from e consider "lf_log l1 w1 = log_append line (lf_log l w)"
    | n where "lf_log l1 w1 = log_append line (lf_log l w) @ [(n, [])]"
    unfolding append_effect_def by (metis (no_types))
  then obtain gs1 where "map snd (lf_log l1 w1) = map concat gs1" "concat gs1 = concat gs @ [line]"
  proof cases
    case 1
    then show ?thesis using that[of "butlast gs @ [last gs @ [line]]"] log_append_grouped[OF "2.prems"(2) ne] cg by simp
  next
    case (2 n)
    then show ?thesis
      using that[of "butlast gs @ [last gs @ [line], []]"] log_append_grouped[OF "2.prems"(2) ne] cg by simp
  qed
  from "2.IH"[OF s(2) this(1)] this(2) s(1) show ?case by auto
next
  case (3 ops)
  obtain s1 where s1: "LogFile_flush (l, w) = Some s1" using LogFile_flush_ok[OF "3.prems"(1)] by blast
  obtain l1 w1 where "s1 = (l1, w1)" by (cases s1)
  note f = LogFile_flush_log[OF "3.prems"(1) s1[unfolded this]]
  from "3.IH"[OF f(1)] f(2) "3.prems"(2) s1 \<open>s1 = (l1, w1)\<close> show ?case by auto
qed

text \<open>C14: No line is lost, reordered or split over two files: after any sequence of appends and flushes
  on a new log file in a healthy world, the files, oldest first, hold consecutive groups of whole lines,
  and all groups together are the lines in the order they were appended.\<close>

theorem LogFile_lines_whole:
  assumes "w_healthy w" "0 < w_clock w (w_ticks w)" "w_closed w = []"
  shows "\<exists>s groups. Option.bind (LogFile_new basename rollSize threadSafe flushInterval checkEveryN w) (fold_opt lf_apply ops) = Some s
    \<and> map f_stream (lf_files s) = map concat groups \<and> concat groups = lf_lines ops"
proof -
  obtain l w1 where n: "LogFile_new basename rollSize threadSafe flushInterval checkEveryN w = Some (l, w1)"
    "lf_ok (l, w1)" "map snd (lf_log l w1) = map concat [[]]"
    using LogFile_new_ok[OF assms, of basename rollSize threadSafe flushInterval checkEveryN] by auto
  from lf_run_grouped[OF n(2,3), of ops] n(1) show ?thesis
    by (auto simp: lf_log_def comp_def)
qed

lemma LogFile_lines_files:
  assumes "w_healthy w" "0 < w_clock w (w_ticks w)" "w_closed w = []"
    "Option.bind (LogFile_new basename rollSize threadSafe flushInterval checkEveryN w) (fold_opt lf_apply ops) = Some s"
  shows "lf_files s \<noteq> []"
proof -
  obtain l w1 where n: "LogFile_new basename rollSize threadSafe flushInterval checkEveryN w = Some (l, w1)"
    "lf_ok (l, w1)" "map snd (lf_log l w1) = map concat [[]]"
    using LogFile_new_ok[OF assms(1-3), of basename rollSize threadSafe flushInterval checkEveryN] by auto
  from lf_run_grouped[OF n(2,3), of ops] n(1) assms(4) have "lf_ok s" by auto
  then show ?thesis by (auto simp: lf_ok_def lf_files_def)
qed

theorem LogFile_lines_whole_witness:
  "\<exists>s groups. Option.bind (LogFile_new ''log'' 4 True 3 1024 demo_world)
      (fold_opt lf_apply [LfAppend ''hello'', LfAppend ''world'', LfFlush]) = Some s
    \<and> map f_stream (lf_files s) = map concat groups \<and> concat groups = [''hello'', ''world'']"
  using LogFile_lines_whole[of demo_world "''log''" 4 True 3 1024 "[LfAppend ''hello'', LfAppend ''world'', LfFlush]"]
  by simp


lemma LogFile_flush_Some: "lf_ok (l, w) \<Longrightarrow> \<exists>l' w'. LogFile_flush (l, w) = Some (l', w')"
  using LogFile_flush_ok[of "(l, w)"] by auto

text \<open>The readings of the clock from the \<open>r\<close>-th to the one before the \<open>t\<close>-th that are not past the \<open>r\<close>-th: the
  \<open>r\<close>-th itself, and those within the same second.\<close>

definition stuck_readings :: "(nat \<Rightarrow> int) \<Rightarrow> nat \<Rightarrow> nat \<Rightarrow> nat" where
  "stuck_readings clk r t = length (filter (\<lambda>n. clk n \<le> clk r) [r ..< t])"

lemma stuck_readings_pos: "r < t \<Longrightarrow> 1 \<le> stuck_readings clk r t"
  by (simp add: stuck_readings_def upt_conv_Cons)

lemma stuck_readings_split: "r \<le> t \<Longrightarrow> t \<le> u \<Longrightarrow>
    stuck_readings clk r u = stuck_readings clk r t + length (filter (\<lambda>n. clk n \<le> clk r) [t ..< u])"
proof -
  assume "r \<le> t" "t \<le> u"
  then have "[r ..< u] = [r ..< t] @ [t ..< u]" using upt_add_eq_append[of r t "u - t"] by simp
  then show ?thesis unfolding stuck_readings_def by (simp only: filter_append length_append)
qed

lemma stuck_readings_mono: "r \<le> t \<Longrightarrow> t \<le> u \<Longrightarrow> stuck_readings clk r t \<le> stuck_readings clk r u"
  using stuck_readings_split[of r t u clk] by simp

lemma stuck_readings_more:
  assumes "r \<le> t" "t \<le> n" "n < u" "clk n \<le> clk r"
  shows "stuck_readings clk r t + 1 \<le> stuck_readings clk r u"
proof -
  have "n \<in> set (filter (\<lambda>n. clk n \<le> clk r) [t ..< u])" using assms by simp
  then have "1 \<le> length (filter (\<lambda>n. clk n \<le> clk r) [t ..< u])" by (metis One_nat_def Suc_leI length_pos_if_in_set)
  with stuck_readings_split[of r t u clk] assms show ?thesis by simp
qed

text \<open>With a clock that moves on at each reading only the first one counts.\<close>

lemma stuck_readings_advancing:
  assumes "\<And>n. clk n < clk (Suc n)" "r < t"
  shows "stuck_readings clk r t = 1"
proof -
  have "clk r < clk n" if "r < n" for n using lift_Suc_mono_less[of clk] assms(1) that by blast
  then have "filter (\<lambda>n. clk n \<le> clk r) [Suc r ..< t] = []" by (auto simp: filter_empty_conv not_le)
  then show ?thesis using assms(2) by (simp add: stuck_readings_def upt_conv_Cons)
qed

text \<open>The bound on one file of the log of \<open>w0\<close>, which was started at the \<open>r\<close>-th reading: for each reading of the
  clock that is not past its second, one line of at most \<open>M\<close> bytes above the limit.\<close>

definition file_sized :: "world \<Rightarrow> bytes \<Rightarrow> int \<Rightarrow> nat \<Rightarrow> nat \<Rightarrow> bytes \<times> bytes \<Rightarrow> bool" where
  "file_sized w0 name R M t f \<longleftrightarrow>
     (\<exists>r<t. fst f = log_name name (w_clock w0 r) w0 \<and> int (length (snd f)) \<le> R + int M * int (stuck_readings (w_clock w0) r t))"

text \<open>The open file has room for one line more.\<close>

definition lf_sized :: "world \<Rightarrow> bytes \<Rightarrow> int \<Rightarrow> nat \<Rightarrow> LogFile \<times> world \<Rightarrow> bool" where
  "lf_sized w0 name R M s \<longleftrightarrow> lf_ok s \<and> lf_rollSize (fst s) = R \<and> lf_basename (fst s) = name \<and> world_moves w0 (snd s)
    \<and> (\<forall>f \<in> set (lf_log (fst s) (snd s)). file_sized w0 name R M (w_ticks (snd s)) f)
    \<and> (\<exists>r < w_ticks (snd s). lf_lastRoll (fst s) = w_clock w0 r
        \<and> fst (last (lf_log (fst s) (snd s))) = log_name name (w_clock w0 r) w0
        \<and> int (length (snd (last (lf_log (fst s) (snd s))))) + int M
            \<le> R + int M * int (stuck_readings (w_clock w0) r (w_ticks (snd s))))"

lemma file_sized_mono:
  assumes "file_sized w0 name R M t f" "t \<le> u"
  shows "file_sized w0 name R M u f"
proof -
  obtain r where r: "r < t" "fst f = log_name name (w_clock w0 r) w0"
    "int (length (snd f)) \<le> R + int M * int (stuck_readings (w_clock w0) r t)"
    using assms(1) by (auto simp: file_sized_def)
  have "stuck_readings (w_clock w0) r t \<le> stuck_readings (w_clock w0) r u" using stuck_readings_mono r(1) assms(2) by simp
  then have "int M * int (stuck_readings (w_clock w0) r t) \<le> int M * int (stuck_readings (w_clock w0) r u)"
    by (intro mult_left_mono) simp_all
  with r assms(2) show ?thesis by (auto simp: file_sized_def intro!: exI[of _ r])
qed

lemma lf_sized_start:
  assumes "lf_ok (l, w)" "lf_rollSize l = R" "lf_basename l = name" "world_moves w0 w" "r < w_ticks w"
    "lf_lastRoll l = w_clock w0 r" "lf_log l w = fs @ [(log_name name (w_clock w0 r) w0, [])]" "0 \<le> R"
    "\<forall>f \<in> set fs. file_sized w0 name R M (w_ticks w) f"
  shows "lf_sized w0 name R M (l, w)"
proof -
  have "int M * 1 \<le> int M * int (stuck_readings (w_clock w0) r (w_ticks w))"
    using stuck_readings_pos[OF assms(5), of "w_clock w0"] by (intro mult_left_mono) simp_all
  then show ?thesis using assms by (auto simp: lf_sized_def file_sized_def intro!: exI[of _ r])
qed

lemma lf_sized_append:
  assumes i: "lf_sized w0 name R M (l, w)" and "0 \<le> R" "length line \<le> M"
  shows "\<exists>s'. LogFile_append line (l, w) = Some s' \<and> lf_sized w0 name R M s'"
proof -
  obtain r where i': "lf_ok (l, w)" "lf_rollSize l = R" "lf_basename l = name" "world_moves w0 w"
    "\<forall>f \<in> set (lf_log l w). file_sized w0 name R M (w_ticks w) f" "r < w_ticks w" "lf_lastRoll l = w_clock w0 r"
    "fst (last (lf_log l w)) = log_name name (w_clock w0 r) w0"
    "int (length (snd (last (lf_log l w)))) + int M \<le> R + int M * int (stuck_readings (w_clock w0) r (w_ticks w))"
    using i by (auto simp: lf_sized_def)
  obtain l1 w1 where a: "LogFile_append line (l, w) = Some (l1, w1)" "lf_ok (l1, w1)" "append_effect line l w l1 w1"
    using LogFile_append_log[OF i'(1)] by blast
  then obtain wr rolled where e: "lf_config l1 = lf_config l" "world_moves w wr" "world_moves wr w1"
    "if rolled then lf_lastRoll l < lf_lastRoll l1 \<and> lf_lastRoll l1 = w_clock w (w_ticks wr) \<and> w_ticks wr < w_ticks w1
        \<and> lf_log l1 w1 = log_append line (lf_log l w) @ [(log_name (lf_basename l) (lf_lastRoll l1) w, [])]
     else lf_lastRoll l1 = lf_lastRoll l \<and> lf_log l1 w1 = log_append line (lf_log l w)
        \<and> (int (length (snd (last (lf_log l1 w1)))) \<le> lf_rollSize l
           \<or> w_clock w (w_ticks wr) \<le> lf_lastRoll l \<and> w_ticks wr < w_ticks w1)"
    unfolding append_effect_def by blast
  have t: "w_ticks w \<le> w_ticks wr" "w_ticks wr \<le> w_ticks w1" "w_clock w = w_clock w0" "lf_rollSize l1 = R" "lf_basename l1 = name"
    "world_moves w0 w1" "log_name name n w = log_name name n w0" for n
    using e i' world_moves_trans[of w0 w] world_moves_trans[of w0 wr]
    by (auto simp: world_moves_def lf_config_def log_name_def)
  let ?last = "last (log_append line (lf_log l w))"
  have last: "fst ?last = log_name name (w_clock w0 r) w0"
    "int (length (snd ?last)) \<le> R + int M * int (stuck_readings (w_clock w0) r (w_ticks w))"
    using i'(8,9) assms(3) by (simp_all add: log_append_def)
  have "file_sized w0 name R M (w_ticks w) ?last" using last i'(6) by (auto simp: file_sized_def)
  then have files: "\<forall>f \<in> set (log_append line (lf_log l w)). file_sized w0 name R M (w_ticks w1) f"
    using i'(5) file_sized_mono[OF _ order_trans[OF t(1,2)]] by (auto simp: log_append_def dest: in_set_butlastD)
  have "lf_sized w0 name R M (l1, w1)"
  proof (cases rolled)
    case True
    then show ?thesis
      using lf_sized_start[OF a(2) t(4,5,6), of "w_ticks wr" "log_append line (lf_log l w)" M] e(4) t(3,7) files assms(2) i'(3)
      by auto
  next
    case False
    then have f: "lf_lastRoll l1 = w_clock w0 r" "lf_log l1 w1 = log_append line (lf_log l w)"
      "int (length (snd ?last)) \<le> R \<or> w_clock w0 (w_ticks wr) \<le> w_clock w0 r \<and> w_ticks wr < w_ticks w1"
      using e(4) i'(2,7) t(3) by auto
    have "int (length (snd ?last)) + int M \<le> R + int M * int (stuck_readings (w_clock w0) r (w_ticks w1))"
      using f(3)
    proof
      assume le: "int (length (snd ?last)) \<le> R"
      have "int M * 1 \<le> int M * int (stuck_readings (w_clock w0) r (w_ticks w1))"
        using stuck_readings_pos[of r "w_ticks w1" "w_clock w0"] i'(6) t(1,2) by (intro mult_left_mono) simp_all
      with le show ?thesis by simp
    next
      assume "w_clock w0 (w_ticks wr) \<le> w_clock w0 r \<and> w_ticks wr < w_ticks w1"
      then have "stuck_readings (w_clock w0) r (w_ticks w) + 1 \<le> stuck_readings (w_clock w0) r (w_ticks w1)"
        using stuck_readings_more[of r "w_ticks w" "w_ticks wr" "w_ticks w1" "w_clock w0"] i'(6) t(1) by simp
      then have "int M * int (stuck_readings (w_clock w0) r (w_ticks w) + 1) \<le> int M * int (stuck_readings (w_clock w0) r (w_ticks w1))"
        by (intro mult_left_mono) simp_all
      with last(2) show ?thesis by (simp add: distrib_left)
    qed
    then show ?thesis using f a(2) t i' last files
      by (auto simp: lf_sized_def intro!: exI[of _ r])
  qed
  then show ?thesis using a(1) by auto
qed

lemma lf_sized_flush:
  assumes "lf_sized w0 name R M (l, w)"
  shows "\<exists>s'. LogFile_flush (l, w) = Some s' \<and> lf_sized w0 name R M s'"
proof -
  have ok: "lf_ok (l, w)" using assms by (simp add: lf_sized_def)
  obtain l1 w1 where f: "LogFile_flush (l, w) = Some (l1, w1)" using LogFile_flush_Some[OF ok] by blast
  from LogFile_flush_log[OF ok f] show ?thesis using assms f by (auto simp: lf_sized_def lf_config_def)
qed

lemma lf_sized_run:
  assumes "lf_sized w0 name R M s" "0 \<le> R" "\<forall>line \<in> set (lf_lines ops). length line \<le> M"
  shows "\<exists>s'. fold_opt lf_apply ops s = Some s' \<and> lf_sized w0 name R M s'"
  using assms
proof (induction ops arbitrary: s rule: lf_lines.induct)
  case 1
  then show ?case by simp
next
  case (2 line ops)
  obtain s1 where "LogFile_append line s = Some s1" "lf_sized w0 name R M s1"
    using lf_sized_append[of w0 name R M "fst s" "snd s" line] "2.prems" by auto
  with "2.IH"[of s1] "2.prems" show ?case by simp
next
  case (3 ops)
  obtain s1 where "LogFile_flush s = Some s1" "lf_sized w0 name R M s1"
    using lf_sized_flush[of w0 name R M "fst s" "snd s"] "3.prems" by auto
  with "3.IH"[of s1] "3.prems" show ?case by simp
qed

lemma lf_sized_files:
  assumes "lf_sized w0 name R M s"
  shows "\<forall>f \<in> set (lf_files s). file_sized w0 name R M (w_ticks (snd s)) (f_name f, f_stream f)"
  using assms by (cases s) (auto simp: lf_sized_def lf_log_def)

lemma lf_sized_new:
  assumes "w_healthy w" "0 < w_clock w (w_ticks w)" "w_closed w = []" "0 \<le> rollSize"
  shows "\<exists>s. LogFile_new basename rollSize threadSafe flushInterval checkEveryN w = Some s \<and> lf_sized w basename rollSize M s"
proof -
  obtain l w1 where n: "LogFile_new basename rollSize threadSafe flushInterval checkEveryN w = Some (l, w1)"
    "lf_ok (l, w1)" "lf_config l = (basename, rollSize, flushInterval, checkEveryN)"
    "lf_lastRoll l = w_clock w (w_ticks w)" "lf_log l w1 = [(log_name basename (w_clock w (w_ticks w)) w, [])]"
    "world_moves w w1" "w_ticks w1 = Suc (w_ticks w)"
    using LogFile_new_ok[OF assms(1-3), of basename rollSize threadSafe flushInterval checkEveryN] by blast
  then have "lf_sized w basename rollSize M (l, w1)"
    using lf_sized_start[of l w1 rollSize basename w "w_ticks w" "[]" M] assms(4) by (simp add: lf_config_def)
  with n(1) show ?thesis by blast
qed

text \<open>C11: How large the files become, whatever the clock shows.  A file whose name carries the second of the \<open>r\<close>-th
  reading exceeds the size limit by no more than one line for each reading of the clock, from the \<open>r\<close>-th on,
  that is not past this second.  So with a clock that has moved on by the next reading it is one line, and while
  the clock stands, a file grows by at most one line per reading above its limit.  The open file stays one line below.\<close>

theorem LogFile_size_bound:
  assumes "w_healthy w" "0 < w_clock w (w_ticks w)" "w_closed w = []"
    "0 \<le> rollSize" "\<forall>line \<in> set (lf_lines ops). length line \<le> M"
  shows "\<exists>s. Option.bind (LogFile_new basename rollSize threadSafe flushInterval checkEveryN w) (fold_opt lf_apply ops) = Some s
    \<and> (\<forall>f \<in> set (lf_files s). \<exists>r < w_ticks (snd s). f_name f = log_name basename (w_clock w r) w
        \<and> int (length (f_stream f)) \<le> rollSize + int M * int (stuck_readings (w_clock w) r (w_ticks (snd s))))
    \<and> (\<exists>r < w_ticks (snd s). f_name (last (lf_files s)) = log_name basename (w_clock w r) w
        \<and> int (length (f_stream (last (lf_files s)))) + int M
            \<le> rollSize + int M * int (stuck_readings (w_clock w) r (w_ticks (snd s))))"
proof -
  obtain s0 where n: "LogFile_new basename rollSize threadSafe flushInterval checkEveryN w = Some s0"
    "lf_sized w basename rollSize M s0"
    using lf_sized_new[OF assms(1-4), of basename threadSafe flushInterval checkEveryN M] by blast
  from lf_sized_run[OF n(2) assms(4,5)] obtain s where
    s: "fold_opt lf_apply ops s0 = Some s" "lf_sized w basename rollSize M s" by blast
  then have "lf_files s \<noteq> []" by (auto simp: lf_sized_def lf_ok_def lf_files_def)
  then have "\<exists>r < w_ticks (snd s). f_name (last (lf_files s)) = log_name basename (w_clock w r) w
        \<and> int (length (f_stream (last (lf_files s)))) + int M
            \<le> rollSize + int M * int (stuck_readings (w_clock w) r (w_ticks (snd s)))"
    using s(2) by (cases s) (auto simp: lf_sized_def lf_log_def last_map)
  with s n(1) lf_sized_files[OF s(2)] show ?thesis by (auto simp: file_sized_def)
qed

theorem LogFile_size_bound_witness:
  "\<exists>s f r. Option.bind (LogFile_new ''log'' 4 False 3 1024 (demo_world\<lparr>w_clock := \<lambda>n. 5\<rparr>))
      (fold_opt lf_apply [LfAppend ''hello'', LfAppend ''abc'', LfAppend ''de'']) = Some s
    \<and> lf_files s \<noteq> [] \<and> f = last (lf_files s)
    \<and> int (length (f_stream f)) + 5 \<le> 4 + 5 * int (stuck_readings (\<lambda>n. 5) r (w_ticks (snd s)))"
proof -
  let ?w = "demo_world\<lparr>w_clock := \<lambda>n. 5\<rparr>"
  have h: "w_healthy ?w" using demo_world_healthy by (simp add: w_healthy_def)
  have c: "0 < w_clock ?w (w_ticks ?w)" "w_closed ?w = []" by simp_all
  have l: "\<forall>line \<in> set (lf_lines [LfAppend ''hello'', LfAppend ''abc'', LfAppend ''de'']). length line \<le> 5" by simp
  from LogFile_size_bound[OF h c _ l, of 4 "''log''" False 3 1024] obtain s r where
    s: "Option.bind (LogFile_new ''log'' 4 False 3 1024 ?w)
      (fold_opt lf_apply [LfAppend ''hello'', LfAppend ''abc'', LfAppend ''de'']) = Some s"
    "int (length (f_stream (last (lf_files s)))) + 5 \<le> 4 + 5 * int (stuck_readings (w_clock ?w) r (w_ticks (snd s)))"
    by auto
  moreover have "lf_files s \<noteq> []"
    using LogFile_lines_files[OF h c s(1)] .
  ultimately show ?thesis by auto
qed

text \<open>The size limit is not kept within one second: as long as the clock does not pass the time of the
  last roll, no append starts a new file, whatever the sizes; everything goes into the file that is
  open.\<close>

theorem LogFile_same_second:
  assumes "lf_ok s" "\<And>n. w_clock (snd s) n \<le> lf_lastRoll (fst s)"
  shows "\<exists>s'. fold_opt LogFile_append lines s = Some s' \<and> lf_log (fst s') (snd s') =
    (if lines = [] then lf_log (fst s) (snd s) else log_append (concat lines) (lf_log (fst s) (snd s)))"
  using assms
proof (induction lines arbitrary: s)
  case Nil
  then show ?case by simp
next
  case (Cons line lines)
  obtain l w where s: "s = (l, w)" by (cases s)
  obtain l1 w1 where a: "LogFile_append line (l, w) = Some (l1, w1)" "lf_ok (l1, w1)" "append_effect line l w l1 w1"
    using LogFile_append_log[of l w line] Cons.prems(1) s by blast
  have e: "lf_log l1 w1 = log_append line (lf_log l w)" "lf_lastRoll l1 = lf_lastRoll l" "w_clock w1 = w_clock w"
    using a(3) Cons.prems(2)[unfolded s] unfolding append_effect_def world_moves_def
    by (auto split: if_splits simp: not_less[symmetric])
  have "log_append (concat lines) (log_append line fs) = log_append (line @ concat lines) fs" for fs
    by (simp add: log_append_def)
  then show ?case
    using Cons.IH[of "(l1, w1)"] a e Cons.prems(2) s by auto
qed

theorem LogFile_same_second_witness:
  "\<exists>s'. fold_opt LogFile_append [''hello'', ''world'']
      (\<lparr>lf_basename = ''log'', lf_rollSize = 4, lf_flushInterval = 3, lf_checkEveryN = 1024, lf_count = 0,
        lf_mutex = None, lf_startOfPeriod = 0, lf_lastRoll = 5, lf_lastFlush = 5,
        lf_file = Some (AppendFile_open \<lparr>f_name = ''a'', f_stream = [], f_flushed = 0, f_error = False,
          f_calls = 0, f_env = (\<lambda>i. Accept_all)\<rparr>)\<rparr>, demo_world\<lparr>w_clock := \<lambda>n. 5\<rparr>) = Some s'
    \<and> lf_log (fst s') (snd s') = [(''a'', ''helloworld'')]"
proof -
  let ?s = "(\<lparr>lf_basename = ''log'', lf_rollSize = 4, lf_flushInterval = 3, lf_checkEveryN = 1024, lf_count = 0,
        lf_mutex = None, lf_startOfPeriod = 0, lf_lastRoll = 5, lf_lastFlush = 5,
        lf_file = Some (AppendFile_open \<lparr>f_name = ''a'', f_stream = [], f_flushed = 0, f_error = False,
          f_calls = 0, f_env = (\<lambda>i. Accept_all)\<rparr>)\<rparr>, demo_world\<lparr>w_clock := \<lambda>n. 5\<rparr>)"
  have "w_healthy (demo_world\<lparr>w_clock := \<lambda>n. 5\<rparr>)"
    using demo_world_healthy by (simp add: w_healthy_def)
  then have "lf_ok ?s" by (simp add: lf_ok_def fw_healthy_def good_answers_def)
  from LogFile_same_second[OF this, of "[''hello'', ''world'']"] show ?thesis
    by (simp add: lf_log_def lf_files_def log_append_def)
qed

text \<open>When exactly an append starts a new file.  \<open>new_day\<close> compares with the day the file was started.\<close>

definition new_day :: "LogFile \<Rightarrow> int \<Rightarrow> bool" where
  "new_day l now \<longleftrightarrow> now sdiv kRollPerSeconds * kRollPerSeconds \<noteq> lf_startOfPeriod l"

lemma fopen_log_closed: "fopen_log n w = Some (f, w') \<Longrightarrow> w_closed w' = w_closed w"
  by (auto simp: fopen_log_def split: option.splits)

lemma rollFile_closed_iff:
  assumes "rollFile l w = Some (b, l', w')" "lf_file l \<noteq> None"
  shows "length (w_closed w') = length (w_closed w) + (if lf_lastRoll l < w_clock w (w_ticks w) then 1 else 0)"
  using assms
  by (auto simp: rollFile_def getLogFileName_def time_now_def Let_def split: option.splits if_splits
      dest!: fopen_log_closed)

lemma isNeedRollFile_cases:
  assumes "lf_file l = Some f" "isNeedRollFile l w = Some (need, l', w')"
  shows "lf_file l' \<noteq> None" "w_closed w' = w_closed w" "lf_lastRoll l' = lf_lastRoll l" "w_clock w' = w_clock w"
    and "need \<longleftrightarrow> lf_rollSize l < af_writenBytes f \<or> lf_checkEveryN l \<le> lf_count l + 1 \<and> new_day l (w_clock w (w_ticks w))"
    and "need \<Longrightarrow> w_ticks w' = (if lf_rollSize l < af_writenBytes f then w_ticks w else Suc (w_ticks w))"
  using assms by (auto simp: isNeedRollFile_def Let_def time_now_def new_day_def split: if_splits)

lemma with_mutex_SomeE:
  assumes "with_mutex body l w = Some (l', w')"
  obtains m l'' where "body (l\<lparr>lf_mutex := m\<rparr>) w = Some (l'', w')"
proof (cases "lf_mutex l")
  case None
  then have id: "l\<lparr>lf_mutex := None\<rparr> = l" by simp
  have "body l w = Some (l', w')" using assms None by (simp add: with_mutex_def)
  then have "body (l\<lparr>lf_mutex := None\<rparr>) w = Some (l', w')" by (simp only: id)
  then show thesis by (rule that)
next
  case (Some b)
  then obtain l'' where "body (l\<lparr>lf_mutex := Some True\<rparr>) w = Some (l'', w')"
    using assms by (cases b) (auto simp: with_mutex_def)
  then show thesis by (rule that)
qed

lemma append_unlock_SomeE:
  assumes "append_unlock line l w = Some (l', w')" "lf_file l = Some f"
  obtains f' need l1 w1 where "AppendFile_append line f = Some f'"
    "isNeedRollFile (l\<lparr>lf_file := Some f'\<rparr>) w = Some (need, l1, w1)"
    "if need then \<exists>b. rollFile l1 w1 = Some (b, l', w') else l' = l1 \<and> w' = w1"
proof -
  from assms obtain f' need l1 w1 where "AppendFile_append line f = Some f'"
    "isNeedRollFile (l\<lparr>lf_file := Some f'\<rparr>) w = Some (need, l1, w1)"
    "(if need then map_option snd (rollFile l1 w1) else Some (l1, w1)) = Some (l', w')"
    by (auto simp: append_unlock_def bind_eq_Some_conv)
  then show thesis using that[of f' need l1 w1] by (auto split: if_splits)
qed

lemma AppendFile_append_written:
  "AppendFile_append line f = Some f' \<Longrightarrow> af_writenBytes f' = af_writenBytes f + int (length line)"
  by (auto simp: AppendFile_append_def split: option.splits)

text \<open>C15: The roll decision, on every branch: an append starts a new file exactly if the file now exceeds the
  size limit and the clock is past the last roll, or it does not, the \<open>checkEveryN\<close>-th append since the
  last check sees another day, and the following clock reading is past the last roll.\<close>

theorem LogFile_roll_decision:
  assumes "lf_file l = Some f" "LogFile_append line (l, w) = Some (l', w')"
  shows "length (w_closed w') = length (w_closed w) +
    (if lf_rollSize l < af_writenBytes f + int (length line)
     then if lf_lastRoll l < w_clock w (w_ticks w) then 1 else 0
     else if lf_checkEveryN l \<le> lf_count l + 1 \<and> new_day l (w_clock w (w_ticks w))
             \<and> lf_lastRoll l < w_clock w (Suc (w_ticks w)) then 1 else 0)"
proof -
  obtain m l'' where a: "append_unlock line (l\<lparr>lf_mutex := m\<rparr>) w = Some (l'', w')"
    using assms(2) with_mutex_SomeE[of "append_unlock line" l w l' w'] by (auto simp: LogFile_append_def)
  let ?l = "l\<lparr>lf_mutex := m\<rparr>"
  have "lf_file ?l = Some f" using assms(1) by simp
  with a obtain f' need l1 w1 where f': "AppendFile_append line f = Some f'"
    and n: "isNeedRollFile (?l\<lparr>lf_file := Some f'\<rparr>) w = Some (need, l1, w1)"
    and r: "if need then \<exists>b. rollFile l1 w1 = Some (b, l'', w') else l'' = l1 \<and> w' = w1"
    by (rule append_unlock_SomeE)
  have fl: "lf_file (?l\<lparr>lf_file := Some f'\<rparr>) = Some f'" by simp
  note c = isNeedRollFile_cases[OF fl n]
  have w: "af_writenBytes f' = af_writenBytes f + int (length line)"
    by (rule AppendFile_append_written[OF f'])
  show ?thesis
  proof (cases need)
    case False
    then show ?thesis using r c(2,5) w by (auto simp: new_day_def)
  next
    case True
    then obtain b where "rollFile l1 w1 = Some (b, l'', w')" using r by auto
    from rollFile_closed_iff[OF this c(1)] c(2-6) True w show ?thesis
      by (auto simp: new_day_def)
  qed
qed

theorem LogFile_roll_decision_witness:
  "\<exists>s'. LogFile_append ''hello'' (the (LogFile_new ''log'' 4 True 3 1024 demo_world)) = Some s'
     \<and> length (w_closed (snd s')) = 1"
proof -
  obtain l w f where n: "LogFile_new ''log'' 4 True 3 1024 demo_world = Some (l, w)" "lf_ok (l, w)"
    "lf_config l = (''log'', 4, 3, 1024)" "lf_lastRoll l = 1621332000" "w_clock w = w_clock demo_world"
    "w_ticks w = 1" "lf_log l w = [(log_name ''log'' 1621332000 demo_world, [])]" "lf_file l = Some f"
    "af_writenBytes f = int (length (f_stream (af_fp f)))"
    using LogFile_new_ok[of demo_world "''log''" 4 True 3 1024] by (auto simp: lf_ok_def world_moves_def)
  then have f: "w_closed w = []" "f_stream (af_fp f) = []" by (auto simp: lf_log_def lf_files_def)
  obtain l' w' where a: "LogFile_append ''hello'' (l, w) = Some (l', w')" using LogFile_append_ok[OF n(2), of "''hello''"] by auto
  from LogFile_roll_decision[OF n(8) a] n f a show ?thesis
    by (auto simp: lf_config_def)
qed

subsection \<open>File names\<close>

lemma strftime_stamp_fields:
  assumes "tm_printable g" "tm_printable h" "1970 \<le> tm_year g + 1900" "1970 \<le> tm_year h + 1900"
    "strftime_stamp g = strftime_stamp h"
  shows "tm_year g = tm_year h" "tm_mon g = tm_mon h" "tm_mday g = tm_mday h" "tm_hour g = tm_hour h"
    "tm_min g = tm_min h" "tm_sec g = tm_sec h"
proof -
  have y: "fmt_d v = fmt_d_zero 4 v" if "1970 \<le> v" "v < 10000" for v
    using fmt_d_space_eq_zero[of 4 v] that length_dec_nat_le[of "nat v" 4] fmt_d_space_def
    by (simp add: fmt_d_zero_def fmt_d_def fmt_d_space_def)
  let ?F = "\<lambda>t. [fmt_d_zero 4 (tm_year t + 1900), fmt_d_zero 2 (tm_mon t + 1), fmt_d_zero 2 (tm_mday t),
     fmt_d_zero 2 (tm_hour t), fmt_d_zero 2 (tm_min t), fmt_d_zero 2 (tm_sec t)]"
  have len: "length (fmt_d_zero 4 (tm_year t + 1900)) = 4" "length (fmt_d_zero 2 (tm_mon t + 1)) = 2"
    "length (fmt_d_zero 2 (tm_mday t)) = 2" "length (fmt_d_zero 2 (tm_hour t)) = 2"
    "length (fmt_d_zero 2 (tm_min t)) = 2" "length (fmt_d_zero 2 (tm_sec t)) = 2" if "tm_printable t" for t
    using that by (auto simp: tm_printable_def intro!: length_fmt_d_zero)
  have "?F g = ?F h"
    using assms(5) len[OF assms(1)] len[OF assms(2)] y[of "tm_year g + 1900"] y[of "tm_year h + 1900"] assms(1-4)
    by (simp add: strftime_stamp_def tm_printable_def)
  then have eq: "map (\<lambda>s. int (dec_value s)) (?F g) = map (\<lambda>s. int (dec_value s)) (?F h)"
    by (rule arg_cong)
  have val: "map (\<lambda>s. int (dec_value s)) (?F t) =
      [tm_year t + 1900, tm_mon t + 1, tm_mday t, tm_hour t, tm_min t, tm_sec t]" if "tm_printable t" for t
    using that unfolding tm_printable_def by (simp only: list.map dec_value_fmt_d_zero)
  show "tm_year g = tm_year h" "tm_mon g = tm_mon h" "tm_mday g = tm_mday h" "tm_hour g = tm_hour h"
    "tm_min g = tm_min h" "tm_sec g = tm_sec h"
    using eq unfolding val[OF assms(1)] val[OF assms(2)] by simp_all
qed

lemma strftime_stamp_inj:
  assumes "0 \<le> t" "t < year_10000" "0 \<le> u" "u < year_10000"
    "strftime_stamp (gmtime_r t) = strftime_stamp (gmtime_r u)"
  shows "t = u"
proof -
  note f = strftime_stamp_fields[OF gmtime_r_printable(1)[OF assms(1,2)] gmtime_r_printable(1)[OF assms(3,4)]
      gmtime_r_printable(2)[OF assms(1,2)] gmtime_r_printable(2)[OF assms(3,4)] assms(5)]
  have "timegm (gmtime_r t) = timegm (gmtime_r u)" unfolding timegm_def f ..
  then show ?thesis by (simp add: timegm_gmtime_r)
qed

text \<open>The invariant: the files are named after strictly increasing times, the last of them the last
  roll.\<close>

definition lf_named :: "(nat \<Rightarrow> int) \<Rightarrow> bytes \<Rightarrow> world \<Rightarrow> LogFile \<times> world \<Rightarrow> bool" where
  "lf_named clk base w0 s \<longleftrightarrow> lf_ok s \<and> lf_basename (fst s) = base \<and> world_moves w0 (snd s) \<and> w_clock w0 = clk
     \<and> (\<exists>ts. map fst (lf_log (fst s) (snd s)) = map (\<lambda>t. log_name base t w0) ts \<and> sorted_wrt (<) ts
          \<and> ts \<noteq> [] \<and> last ts = lf_lastRoll (fst s) \<and> set ts \<subseteq> range clk)"

lemma lf_named_append:
  assumes "lf_named clk base w0 (l, w)" "LogFile_append line (l, w) = Some (l', w')"
  shows "lf_named clk base w0 (l', w')"
proof -
  obtain ts where i: "lf_ok (l, w)" "lf_basename l = base" "world_moves w0 w" "w_clock w0 = clk"
    "map fst (lf_log l w) = map (\<lambda>t. log_name base t w0) ts" "sorted_wrt (<) ts" "ts \<noteq> []" "last ts = lf_lastRoll l"
    "set ts \<subseteq> range clk"
    using assms(1) by (auto simp: lf_named_def)
  have ok: "lf_ok (l', w')" and e: "append_effect line l w l' w'"
    using LogFile_append_log[OF i(1), of line] assms(2) by auto
  have names: "map fst (log_append line (lf_log l w)) = map fst (lf_log l w)"
    using lf_log_nonempty[OF i(1)] by (cases "lf_log l w" rule: rev_cases) (auto simp: log_append_def)
  have clk: "w_clock w = clk" "log_name base t w = log_name base t w0" for t
    using i(3,4) by (simp_all add: world_moves_def log_name_def)
  have conf: "lf_basename l' = base" "world_moves w0 w'"
    using e i(2,3) by (auto simp: append_effect_def lf_config_def intro: world_moves_trans)
  from e consider "lf_lastRoll l' = lf_lastRoll l" "lf_log l' w' = log_append line (lf_log l w)"
    | n where "lf_lastRoll l < lf_lastRoll l'" "lf_lastRoll l' = w_clock w n"
      "lf_log l' w' = log_append line (lf_log l w) @ [(log_name (lf_basename l) (lf_lastRoll l') w, [])]"
    unfolding append_effect_def by metis
  then show ?thesis
  proof cases
    case 1
    then show ?thesis using i ok conf names by (auto simp: lf_named_def)
  next
    case (2 n)
    have "\<forall>t \<in> set ts. t < lf_lastRoll l'"
    proof
      fix t assume "t \<in> set ts"
      moreover have "ts = butlast ts @ [last ts]" using i(7) by simp
      ultimately have "t \<le> last ts"
        using i(6) sorted_wrt_append[of "(<)" "butlast ts" "[last ts]"] by (metis Un_iff empty_iff insert_iff less_imp_le list.set(1,2) order_refl set_append)
      then show "t < lf_lastRoll l'" using i(8) 2(1) by simp
    qed
    then have "sorted_wrt (<) (ts @ [lf_lastRoll l'])" using i(6) by (simp add: sorted_wrt_append)
    then show ?thesis
      using i ok conf names 2 clk
      by (auto simp: lf_named_def intro!: exI[of _ "ts @ [lf_lastRoll l']"])
  qed
qed

lemma lf_named_run:
  "lf_named clk base w0 s \<Longrightarrow> fold_opt lf_apply ops s = Some s' \<Longrightarrow> lf_named clk base w0 s'"
proof (induction ops arbitrary: s rule: lf_lines.induct)
  case 1
  then show ?case by simp
next
  case (2 line ops)
  then obtain s1 where "LogFile_append line s = Some s1" "fold_opt lf_apply ops s1 = Some s'"
    by (auto split: option.splits)
  with "2.IH" lf_named_append[of clk base w0 "fst s" "snd s" line "fst s1" "snd s1"] "2.prems" show ?case by simp
next
  case (3 ops)
  then obtain s1 where s1: "LogFile_flush s = Some s1" "fold_opt lf_apply ops s1 = Some s'"
    by (auto split: option.splits)
  have ok: "lf_ok (fst s, snd s)" using "3.prems"(1) by (simp add: lf_named_def)
  have "lf_named clk base w0 s1"
    using "3.prems"(1) LogFile_flush_log[OF ok, of "fst s1" "snd s1"] s1(1) by (auto simp: lf_named_def lf_config_def)
  with "3.IH" s1(2) show ?case by simp
qed

text \<open>C13: Between 1970 and the year 10000 no two files of a log ever have the same name, so a roll never
  appends to an earlier file.\<close>

theorem LogFile_names_distinct:
  assumes "w_healthy w" "\<And>n. 0 < w_clock w n \<and> w_clock w n < year_10000" "w_closed w = []"
    "Option.bind (LogFile_new basename rollSize threadSafe flushInterval checkEveryN w) (fold_opt lf_apply ops) = Some s"
  shows "distinct (map f_name (lf_files s))"
proof -
  obtain l w1 where n: "LogFile_new basename rollSize threadSafe flushInterval checkEveryN w = Some (l, w1)"
    "lf_ok (l, w1)" "lf_config l = (basename, rollSize, flushInterval, checkEveryN)"
    "lf_lastRoll l = w_clock w (w_ticks w)" "lf_log l w1 = [(log_name basename (w_clock w (w_ticks w)) w, [])]"
    "world_moves w w1"
    using LogFile_new_ok[OF assms(1) _ assms(3), of basename rollSize threadSafe flushInterval checkEveryN] assms(2)
    by blast
  have "lf_named (w_clock w) basename w (l, w1)"
    using n by (auto simp: lf_named_def lf_config_def intro!: exI[of _ "[w_clock w (w_ticks w)]"])
  then have "lf_named (w_clock w) basename w s" by (rule lf_named_run) (use n(1) assms(4) in simp)
  then obtain ts where ts: "map fst (lf_log (fst s) (snd s)) = map (\<lambda>t. log_name basename t w) ts" "sorted_wrt (<) ts"
    "set ts \<subseteq> range (w_clock w)"
    by (auto simp: lf_named_def)
  have "inj_on (\<lambda>t. log_name basename t w) (set ts)"
  proof (rule inj_onI)
    fix t u assume "t \<in> set ts" "u \<in> set ts" and eq: "log_name basename t w = log_name basename u w"
    then obtain m n where tu: "t = w_clock w m" "u = w_clock w n" using ts(3) by blast
    have "strftime_stamp (gmtime_r t) = strftime_stamp (gmtime_r u)" using eq by (simp add: log_name_def)
    then show "t = u" unfolding tu using assms(2) by (intro strftime_stamp_inj) (auto simp: less_imp_le)
  qed
  moreover have "distinct ts" using ts(2) strict_sorted_iff by blast
  ultimately have "distinct (map (\<lambda>t. log_name basename t w) ts)" by (simp add: distinct_map)
  then show ?thesis using ts(1) by (simp add: lf_log_def comp_def)
qed

lemma LogFile_run_Some:
  assumes "w_healthy w" "0 < w_clock w (w_ticks w)" "w_closed w = []"
  obtains s where "Option.bind (LogFile_new basename rollSize threadSafe flushInterval checkEveryN w)
    (fold_opt lf_apply ops) = Some s"
proof -
  obtain l w1 where n: "LogFile_new basename rollSize threadSafe flushInterval checkEveryN w = Some (l, w1)"
    "lf_ok (l, w1)" "map snd (lf_log l w1) = map concat [[]]"
    using LogFile_new_ok[OF assms, of basename rollSize threadSafe flushInterval checkEveryN] by auto
  from lf_run_grouped[OF n(2,3), of ops] n(1) that show thesis by auto
qed

theorem LogFile_names_distinct_witness:
  "\<exists>s. Option.bind (LogFile_new ''log'' 4 True 3 1024 (demo_world\<lparr>w_clock := \<lambda>n. 1621332000 + int (min n 9)\<rparr>))
      (fold_opt lf_apply [LfAppend ''hello'', LfAppend ''world'']) = Some s \<and> distinct (map f_name (lf_files s))"
proof -
  let ?w = "demo_world\<lparr>w_clock := \<lambda>n. 1621332000 + int (min n 9)\<rparr>"
  have h: "w_healthy ?w" using demo_world_healthy by (simp add: w_healthy_def)
  obtain s where s: "Option.bind (LogFile_new ''log'' 4 True 3 1024 ?w)
      (fold_opt lf_apply [LfAppend ''hello'', LfAppend ''world'']) = Some s"
    by (rule LogFile_run_Some[OF h]) simp_all
  from LogFile_names_distinct[OF h _ _ s] have "distinct (map f_name (lf_files s))"
    by (simp add: year_10000_def)
  with s show ?thesis by blast
qed

end
