(* ===== verification/AsyncLogging.thy ===== *)
theory AsyncLogging
  imports LogStream LogFile
begin

text \<open>The asynchronous logger (AsyncLogging.h, AsyncLogging.cc): any number of threads append messages to
  large in-memory buffers, one logging thread exchanges the full buffers against empty ones and writes them to
  the log file.

  The state holds the members of the class and the locals of \<open>threadFunc\<close>.  The code between taking and
  releasing the mutex is one step (the theory AsyncThreads proves that its statements may be taken as one); the logging
  thread's work on its own variables outside the mutex is one step too.  Between these, steps of all threads
  interleave freely: the program counter \<open>al_pc\<close> says where the logging thread stands, the time-limited wait
  may end at any time (a notification, the timeout, a spurious wake-up), and the test of \<open>running_\<close> and
  the taking of the mutex are separate steps.  A null \<open>unique_ptr\<close> is \<open>None\<close>; an operation is \<open>None\<close>
  where an assertion fails or a null pointer is followed.\<close>

section \<open>State\<close>

datatype backend_pc = Unborn | Starting | Testing | Locking | Waiting | Writing | Finished

record async =
  al_flushInterval :: int
  al_running :: bool
  al_basename :: bytes
  al_rollSize :: int
  al_current :: "fixed_buffer option"
  al_next :: "fixed_buffer option"
  al_buffers :: "fixed_buffer option list"
  al_pc :: backend_pc
  al_output :: "LogFile option"
  al_world :: world
  al_new1 :: "fixed_buffer option"
  al_new2 :: "fixed_buffer option"
  al_toWrite :: "fixed_buffer option list"
  al_stderr :: bytes

text \<open>\<open>new Buffer\<close> on the memory \<open>junk\<close> the allocator returned, and with \<open>bzero\<close>.\<close>

definition new_Buffer :: "bytes \<Rightarrow> fixed_buffer" where
  "new_Buffer junk = fb_new junk"

definition new_zero_Buffer :: "bytes \<Rightarrow> fixed_buffer" where
  "new_zero_Buffer junk = fb_bzero (new_Buffer junk)"

definition AsyncLogging_new :: "bytes \<Rightarrow> int \<Rightarrow> int \<Rightarrow> bytes \<Rightarrow> bytes \<Rightarrow> world \<Rightarrow> async" where
  "AsyncLogging_new basename rollSize flushInterval junk1 junk2 w =
     \<lparr>al_flushInterval = flushInterval, al_running = False, al_basename = basename, al_rollSize = rollSize,
      al_current = Some (new_zero_Buffer junk1), al_next = Some (new_zero_Buffer junk2), al_buffers = [],
      al_pc = Unborn, al_output = None, al_world = w, al_new1 = None, al_new2 = None, al_toWrite = [],
      al_stderr = []\<rparr>"

section \<open>The front end\<close>

definition async_start :: "async \<Rightarrow> async" where
  "async_start s = s\<lparr>al_running := True, al_pc := Starting\<rparr>"

definition async_stop :: "async \<Rightarrow> async" where
  "async_stop s = s\<lparr>al_running := False\<rparr>"

text \<open>The destructor, up to the join inside \<open>stop\<close>.\<close>

definition async_destroy :: "async \<Rightarrow> async" where
  "async_destroy s = (if al_running s then async_stop s else s)"

text \<open>\<open>append\<close>; \<open>junk\<close> is the memory a \<open>new Buffer\<close> gets if the call needs one.\<close>

definition async_append :: "bytes \<Rightarrow> bytes \<Rightarrow> int \<Rightarrow> async \<Rightarrow> async option" where
  "async_append junk logline len s =
     (case al_current s of
        None \<Rightarrow> None
      | Some current \<Rightarrow>
          if len < fb_avail current
          then map_option (\<lambda>b. s\<lparr>al_current := Some b\<rparr>) (fb_append logline (size_t_of len) current)
          else let s1 = s\<lparr>al_buffers := al_buffers s @ [Some current]\<rparr>;
                   (b, nxt) = (case al_next s of Some n \<Rightarrow> (n, None) | None \<Rightarrow> (new_Buffer junk, None))
               in map_option (\<lambda>b'. s1\<lparr>al_current := Some b', al_next := nxt\<rparr>)
                    (fb_append logline (size_t_of len) b))"

section \<open>The logging thread\<close>

text \<open>The beginning of \<open>threadFunc\<close>, up to the loop.\<close>

definition be_start :: "bytes \<Rightarrow> bytes \<Rightarrow> async \<Rightarrow> async option" where
  "be_start junk1 junk2 s =
     (if \<not> al_running s then None
      else case LogFile_new (al_basename s) (al_rollSize s) False 3 1024 (al_world s) of
        None \<Rightarrow> None
      | Some (output, w) \<Rightarrow>
          Some (s\<lparr>al_output := Some output, al_world := w, al_new1 := Some (new_zero_Buffer junk1),
                 al_new2 := Some (new_zero_Buffer junk2), al_toWrite := [], al_pc := Testing\<rparr>))"

text \<open>An operation on the log file \<open>output\<close>.\<close>

definition on_output :: "(LogFile \<times> world \<Rightarrow> (LogFile \<times> world) option) \<Rightarrow> async \<Rightarrow> async option" where
  "on_output f s =
     (case al_output s of
        None \<Rightarrow> None
      | Some l \<Rightarrow> map_option (\<lambda>(l', w'). s\<lparr>al_output := Some l', al_world := w'\<rparr>) (f (l, al_world s)))"

text \<open>The loop condition; when it is false, the final flush and the return.\<close>

definition be_test :: "async \<Rightarrow> async option" where
  "be_test s =
     (if al_running s then Some (s\<lparr>al_pc := Locking\<rparr>)
      else map_option (\<lambda>s'. s'\<lparr>al_pc := Finished\<rparr>) (on_output LogFile_flush s))"

text \<open>The exchange of the buffers, under the mutex.\<close>

definition be_exchange :: "async \<Rightarrow> async" where
  "be_exchange s =
     (let s1 = s\<lparr>al_buffers := al_buffers s @ [al_current s], al_current := al_new1 s, al_new1 := None\<rparr>;
          s2 = s1\<lparr>al_toWrite := al_buffers s1, al_buffers := al_toWrite s1\<rparr>;
          s3 = (if al_next s2 = None then s2\<lparr>al_next := al_new2 s2, al_new2 := None\<rparr> else s2)
      in s3\<lparr>al_pc := Writing\<rparr>)"

text \<open>Taking the mutex: with no full buffer the thread waits, which releases the mutex until it wakes up.\<close>

definition be_lock :: "async \<Rightarrow> async" where
  "be_lock s = (if al_buffers s = [] then s\<lparr>al_pc := Waiting\<rparr> else be_exchange s)"

definition drop_notice :: "int \<times> int \<Rightarrow> nat \<Rightarrow> bytes" where
  "drop_notice tv n =
     until_NUL (snprintf_mem 256
       (''Dropped log messages at '' @ Timestamp_toFormattedString True (Timestamp_now tv) @ '', ''
         @ fmt_d (int n - 2) @ '' larger buffers'' @ [CHR 0x0A]))"

definition be_drop :: "int \<times> int \<Rightarrow> async \<Rightarrow> async option" where
  "be_drop tv s =
     (if 25 < length (al_toWrite s)
      then let buf = drop_notice tv (length (al_toWrite s));
               s1 = s\<lparr>al_stderr := al_stderr s @ buf\<rparr>
           in map_option (\<lambda>s2. s2\<lparr>al_toWrite := take 2 (al_toWrite s2)\<rparr>) (on_output (LogFile_append buf) s1)
      else Some s)"

definition be_write_one :: "fixed_buffer option \<Rightarrow> async \<Rightarrow> async option" where
  "be_write_one bp s =
     (case bp of None \<Rightarrow> None | Some b \<Rightarrow> on_output (LogFile_append (fb_toString b)) s)"

text \<open>Giving a written buffer back as an empty one, if it is missing.\<close>

definition recycle ::
  "fixed_buffer option \<Rightarrow> fixed_buffer option list \<Rightarrow> (fixed_buffer option \<times> fixed_buffer option list) option" where
  "recycle newBuffer bs =
     (case newBuffer of
        Some b \<Rightarrow> Some (Some b, bs)
      | None \<Rightarrow>
          if bs = [] then None
          else case last bs of
            None \<Rightarrow> None
          | Some b \<Rightarrow> Some (Some (fb_reset b), butlast bs))"

definition be_recycle :: "async \<Rightarrow> async option" where
  "be_recycle s =
     do { let bs = (if 2 < length (al_toWrite s) then take 2 (al_toWrite s) else al_toWrite s);
          (new1, bs1) \<leftarrow> recycle (al_new1 s) bs;
          (new2, bs2) \<leftarrow> recycle (al_new2 s) bs1;
          Some (s\<lparr>al_new1 := new1, al_new2 := new2, al_toWrite := []\<rparr>) }"

definition be_write :: "int \<times> int \<Rightarrow> async \<Rightarrow> async option" where
  "be_write tv s =
     (if al_toWrite s = [] then None
      else do { s1 \<leftarrow> be_drop tv s;
                s2 \<leftarrow> fold_opt be_write_one (al_toWrite s1) s1;
                s3 \<leftarrow> be_recycle s2;
                s4 \<leftarrow> on_output LogFile_flush s3;
                Some (s4\<lparr>al_pc := Testing\<rparr>) })"

definition backend_step :: "bytes \<Rightarrow> bytes \<Rightarrow> int \<times> int \<Rightarrow> async \<Rightarrow> async option" where
  "backend_step junk1 junk2 tv s =
     (case al_pc s of
        Unborn \<Rightarrow> None
      | Starting \<Rightarrow> be_start junk1 junk2 s
      | Testing \<Rightarrow> be_test s
      | Locking \<Rightarrow> Some (be_lock s)
      | Waiting \<Rightarrow> Some (be_exchange s)
      | Writing \<Rightarrow> be_write tv s
      | Finished \<Rightarrow> None)"

section \<open>Executions\<close>

datatype async_event =
    EvStart
  | EvAppend bytes bytes nat
  | EvBackend bytes bytes "int \<times> int"
  | EvStop

text \<open>A message is a C string of which the first \<open>n\<close> bytes are to be logged: what the stream of a statement hands over
  goes on behind its line until the first NUL.  \<open>stop\<close> is called after \<open>start\<close> has returned, which it does when the logging thread has passed its first assertion.\<close>

inductive async_step :: "async \<Rightarrow> async_event \<Rightarrow> async \<Rightarrow> bool" where
  start: "al_pc s = Unborn \<Longrightarrow> async_step s EvStart (async_start s)"
| append: "length junk = kLargeBuffer \<Longrightarrow> c_strlen mem = Some m \<Longrightarrow> n \<le> m \<Longrightarrow> n < 2 ^ 31 \<Longrightarrow>
     async_append junk mem (int n) s = Some s' \<Longrightarrow> async_step s (EvAppend junk mem n) s'"
| backend: "length junk1 = kLargeBuffer \<Longrightarrow> length junk2 = kLargeBuffer \<Longrightarrow>
     backend_step junk1 junk2 tv s = Some s' \<Longrightarrow> async_step s (EvBackend junk1 junk2 tv) s'"
| stop: "al_pc s \<notin> {Unborn, Starting} \<Longrightarrow> async_step s EvStop (async_stop s)"

inductive_cases async_step_startE: "async_step s EvStart s'"
inductive_cases async_step_appendE: "async_step s (EvAppend junk mem n) s'"
inductive_cases async_step_backendE: "async_step s (EvBackend junk1 junk2 tv) s'"
inductive_cases async_step_stopE: "async_step s EvStop s'"

inductive async_run :: "async \<Rightarrow> async_event list \<Rightarrow> async \<Rightarrow> bool" where
  run_nil: "async_run s [] s"
| run_snoc: "async_run s es s1 \<Longrightarrow> async_step s1 e s2 \<Longrightarrow> async_run s (es @ [e]) s2"

text \<open>What is on its way: the text of a list of buffers, and of everything accepted but not yet handed to
  the log file.\<close>

definition text_of :: "fixed_buffer option list \<Rightarrow> bytes" where
  "text_of bs = concat (map (\<lambda>b. case b of None \<Rightarrow> [] | Some x \<Rightarrow> fb_toString x) bs)"

definition written :: "async \<Rightarrow> bytes" where
  "written s = (case al_output s of None \<Rightarrow> [] | Some l \<Rightarrow> lf_output (l, al_world s))"

definition front_text :: "async \<Rightarrow> bytes" where
  "front_text s = text_of (al_buffers s @ [al_current s])"

definition pending :: "async \<Rightarrow> bytes" where
  "pending s = text_of (al_toWrite s) @ front_text s"

section \<open>The invariant\<close>

definition buf_ok :: "fixed_buffer option \<Rightarrow> bool" where
  "buf_ok b \<longleftrightarrow> (\<exists>x. b = Some x \<and> fb_wf x \<and> fb_end x = kLargeBuffer)"

definition empty_ok :: "fixed_buffer option \<Rightarrow> bool" where
  "empty_ok b \<longleftrightarrow> (\<exists>x. b = Some x \<and> fb_wf x \<and> fb_end x = kLargeBuffer \<and> fb_cur x = 0)"

definition front_ok :: "async \<Rightarrow> bool" where
  "front_ok s \<longleftrightarrow> buf_ok (al_current s) \<and> (al_next s = None \<or> empty_ok (al_next s)) \<and> (\<forall>b \<in> set (al_buffers s). buf_ok b)
     \<and> (al_next s = None \<longrightarrow> al_buffers s \<noteq> [])"

definition sink_ok :: "async \<Rightarrow> bool" where
  "sink_ok s \<longleftrightarrow> (\<exists>l. al_output s = Some l \<and> lf_ok (l, al_world s))"

definition world_ok :: "world \<Rightarrow> bool" where
  "world_ok w \<longleftrightarrow> w_healthy w \<and> 0 < w_clock w (w_ticks w) \<and> w_closed w = []"

definition back_ok :: "async \<Rightarrow> bool" where
  "back_ok s \<longleftrightarrow>
     (case al_pc s of
        Unborn \<Rightarrow> al_toWrite s = [] \<and> al_output s = None \<and> world_ok (al_world s)
      | Starting \<Rightarrow> al_toWrite s = [] \<and> al_output s = None \<and> world_ok (al_world s) \<and> al_running s
      | Writing \<Rightarrow> sink_ok s \<and> al_new1 s = None \<and> al_toWrite s \<noteq> [] \<and> (\<forall>b \<in> set (al_toWrite s). buf_ok b)
          \<and> (al_new2 s = None \<and> 2 \<le> length (al_toWrite s) \<or> empty_ok (al_new2 s))
      | Finished \<Rightarrow> sink_ok s \<and> al_toWrite s = [] \<and> \<not> al_running s
      | _ \<Rightarrow> sink_ok s \<and> al_toWrite s = [] \<and> empty_ok (al_new1 s) \<and> empty_ok (al_new2 s))"

definition async_inv :: "async \<Rightarrow> bool" where
  "async_inv s \<longleftrightarrow> front_ok s \<and> back_ok s"

lemma text_of_simps [simp]:
  "text_of [] = []" "text_of (Some x # bs) = fb_toString x @ text_of bs" "text_of (None # bs) = text_of bs"
  "text_of (as @ bs) = text_of as @ text_of bs"
  by (simp_all add: text_of_def)

lemma kLargeBuffer_pos: "0 < kLargeBuffer" "kLargeBuffer < 2 ^ 31"
  by (simp_all add: kLargeBuffer_def)

lemma new_Buffer_ok [simp]:
  assumes "length junk = kLargeBuffer"
  shows "empty_ok (Some (new_Buffer junk))" "empty_ok (Some (new_zero_Buffer junk))"
  using assms kLargeBuffer_pos
  by (simp_all add: empty_ok_def new_Buffer_def new_zero_Buffer_def fb_new_def fb_bzero_def fb_wf_def fb_end_def
      fb_toString_def fb_length_def)

lemma fb_reset_ok: "buf_ok (Some b) \<Longrightarrow> empty_ok (Some (fb_reset b))"
  by (simp add: buf_ok_def empty_ok_def fb_reset_def fb_wf_def fb_end_def)

lemma empty_ok_buf [intro]: "empty_ok b \<Longrightarrow> buf_ok b"
  by (auto simp: empty_ok_def buf_ok_def)

lemma empty_ok_text [simp]: "empty_ok b \<Longrightarrow> text_of [b] = []" "empty_ok b \<Longrightarrow> text_of (b # bs) = text_of bs"
  by (auto simp: empty_ok_def fb_toString_def fb_length_def)

lemma size_t_of_nat [simp]: "n < 2 ^ 31 \<Longrightarrow> size_t_of (int n) = n"
  by (simp add: size_t_of_def)

text \<open>One append to a buffer in order: the message is stored if it leaves room for a NUL, and dropped if
  it does not fit into the buffer at all.  \<open>strcpy\<close> copies up to the NUL of the string, which may be beyond the end.\<close>

lemma fb_append_message:
  assumes "fb_wf b" "fb_end b = kLargeBuffer" "c_strlen mem = Some m" "n \<le> m" "fb_append mem n b = Some b'"
  shows "buf_ok (Some b') \<and> fb_toString b' = fb_toString b @ (if fb_cur b + n < kLargeBuffer then take n mem else [])"
proof (cases "fb_cur b + n < length (fb_data b)")
  case True
  then have "n < length (fb_data b) - fb_cur b" by arith
  then obtain d where "strcpy_at (fb_cur b) mem (fb_data b) = Some d"
    using assms(5) by (auto simp: fb_append_unfold[OF assms(1)] split: option.splits)
  then have "fb_cur b + m < length (fb_data b)" using assms(3) by (auto elim: strcpy_at_SomeE)
  with fb_append_fits[OF assms(1,3,4)] assms(2,5) True show ?thesis by (auto simp: buf_ok_def fb_end_def)
next
  case False
  then show ?thesis
    using fb_append_full[OF assms(1), of n mem] assms(1,2,5) by (auto simp: buf_ok_def fb_end_def)
qed

lemma fb_append_None:
  assumes "fb_wf b" "fb_end b = kLargeBuffer" "c_strlen mem = Some m" "n \<le> m"
  shows "fb_append mem n b = None \<longleftrightarrow> fb_cur b + n < kLargeBuffer \<and> kLargeBuffer \<le> fb_cur b + m"
  using assms strcpy_at_None[OF assms(3), of "fb_data b" "fb_cur b"] strcpy_at_Some[OF assms(3), of "fb_cur b" "fb_data b"]
  by (cases "fb_cur b + m < length (fb_data b)")
    (auto simp: fb_append_unfold fb_end_def less_diff_conv add.commute split: option.splits)

text \<open>\<open>append\<close> in every state of the front end.\<close>

definition accepted :: "bytes \<Rightarrow> nat \<Rightarrow> bytes" where
  "accepted mem n = (if n < kLargeBuffer then take n mem else [])"

definition same_back :: "async \<Rightarrow> async \<Rightarrow> bool" where
  "same_back s s' \<longleftrightarrow> al_pc s' = al_pc s \<and> al_output s' = al_output s \<and> al_world s' = al_world s
     \<and> al_new1 s' = al_new1 s \<and> al_new2 s' = al_new2 s \<and> al_toWrite s' = al_toWrite s
     \<and> al_running s' = al_running s \<and> al_stderr s' = al_stderr s \<and> al_basename s' = al_basename s
     \<and> al_rollSize s' = al_rollSize s"

lemma same_back_ok: "same_back s s' \<Longrightarrow> back_ok s' = back_ok s"
  by (simp add: same_back_def back_ok_def sink_ok_def split: backend_pc.split)

text \<open>When \<open>strcpy\<close> writes past the buffer the message goes to, the current one or the next.\<close>

definition append_overruns :: "nat \<Rightarrow> nat \<Rightarrow> async \<Rightarrow> bool" where
  "append_overruns m n s =
     (case al_current s of
        None \<Rightarrow> False
      | Some c \<Rightarrow> if fb_cur c + n < kLargeBuffer then kLargeBuffer \<le> fb_cur c + m else n < kLargeBuffer \<and> kLargeBuffer \<le> m)"

lemma async_append_cases:
  assumes "front_ok s" "length junk = kLargeBuffer" "n < 2 ^ 31"
  obtains c where "al_current s = Some c" "fb_wf c" "fb_end c = kLargeBuffer" "fb_cur c + n < kLargeBuffer"
    "async_append junk mem (int n) s = map_option (\<lambda>b'. s\<lparr>al_current := Some b'\<rparr>) (fb_append mem n c)"
  | c b where "al_current s = Some c" "buf_ok (Some c)" "\<not> fb_cur c + n < kLargeBuffer"
    "fb_wf b" "fb_end b = kLargeBuffer" "fb_cur b = 0" "fb_toString b = []"
    "async_append junk mem (int n) s =
       map_option (\<lambda>b'. s\<lparr>al_buffers := al_buffers s @ [Some c], al_current := Some b', al_next := None\<rparr>) (fb_append mem n b)"
proof -
  obtain c where c: "al_current s = Some c" "fb_wf c" "fb_end c = kLargeBuffer"
    using assms(1) by (auto simp: front_ok_def buf_ok_def)
  have fits: "int n < fb_avail c \<longleftrightarrow> fb_cur c + n < kLargeBuffer"
    using c by (auto simp: fb_avail_def)
  define b where "b = (case al_next s of Some x \<Rightarrow> x | None \<Rightarrow> new_Buffer junk)"
  have "empty_ok (Some b)" using assms(1,2) by (auto simp: b_def front_ok_def split: option.splits)
  then have b: "fb_wf b" "fb_end b = kLargeBuffer" "fb_cur b = 0" "fb_toString b = []"
    by (auto simp: empty_ok_def fb_toString_def fb_length_def)
  show thesis
  proof (cases "fb_cur c + n < kLargeBuffer")
    case True
    then show ?thesis using that(1)[OF c True] fits c(1) assms(3) by (simp add: async_append_def)
  next
    case False
    have "async_append junk mem (int n) s =
        map_option (\<lambda>b'. s\<lparr>al_buffers := al_buffers s @ [Some c], al_current := Some b', al_next := None\<rparr>) (fb_append mem n b)"
      using c(1) fits False assms(3) by (auto simp: async_append_def b_def split: option.splits)
    with that(2)[OF c(1) _ False b] c show ?thesis by (simp add: buf_ok_def)
  qed
qed

lemma async_append_front:
  assumes "front_ok s" "length junk = kLargeBuffer" "c_strlen mem = Some m" "n \<le> m" "n < 2 ^ 31"
    "async_append junk mem (int n) s = Some s'"
  shows "front_ok s' \<and> same_back s s' \<and> front_text s' = front_text s @ accepted mem n"
proof (rule async_append_cases[OF assms(1,2,5)])
  fix c assume c: "al_current s = Some c" "fb_wf c" "fb_end c = kLargeBuffer" "fb_cur c + n < kLargeBuffer"
    "async_append junk mem (int n) s = map_option (\<lambda>b'. s\<lparr>al_current := Some b'\<rparr>) (fb_append mem n c)"
  then obtain b' where b': "fb_append mem n c = Some b'" "s' = s\<lparr>al_current := Some b'\<rparr>"
    using assms(6)[unfolded c(5)] by auto
  from fb_append_message[OF c(2,3) assms(3,4) b'(1)] b'(2) c assms(1) show ?thesis
    by (auto simp: front_ok_def same_back_def front_text_def accepted_def)
next
  fix c b assume b: "al_current s = Some c" "buf_ok (Some c)" "\<not> fb_cur c + n < kLargeBuffer"
    "fb_wf b" "fb_end b = kLargeBuffer" "fb_cur b = 0" "fb_toString b = []"
    "async_append junk mem (int n) s =
       map_option (\<lambda>b'. s\<lparr>al_buffers := al_buffers s @ [Some c], al_current := Some b', al_next := None\<rparr>) (fb_append mem n b)"
  then obtain b' where b': "fb_append mem n b = Some b'"
    "s' = s\<lparr>al_buffers := al_buffers s @ [Some c], al_current := Some b', al_next := None\<rparr>"
    using assms(6)[unfolded b(8)] by auto
  from fb_append_message[OF b(4,5) assms(3,4) b'(1)] b'(2) b assms(1) show ?thesis
    by (auto simp: front_ok_def same_back_def front_text_def buf_ok_def accepted_def)
qed

text \<open>The only calls that do not return are those that write past a buffer.\<close>

lemma async_append_None:
  assumes "front_ok s" "length junk = kLargeBuffer" "c_strlen mem = Some m" "n \<le> m" "n < 2 ^ 31"
  shows "async_append junk mem (int n) s = None \<longleftrightarrow> append_overruns m n s"
proof (rule async_append_cases[OF assms(1,2,5), where mem = mem])
  fix c assume "al_current s = Some c" "fb_wf c" "fb_end c = kLargeBuffer" "fb_cur c + n < kLargeBuffer"
    "async_append junk mem (int n) s = map_option (\<lambda>b'. s\<lparr>al_current := Some b'\<rparr>) (fb_append mem n c)"
  then show ?thesis using fb_append_None[OF _ _ assms(3,4)] by (simp add: append_overruns_def)
next
  fix c b assume b: "al_current s = Some c" "buf_ok (Some c)" "\<not> fb_cur c + n < kLargeBuffer"
    "fb_wf b" "fb_end b = kLargeBuffer" "fb_cur b = 0" "fb_toString b = []"
    "async_append junk mem (int n) s =
       map_option (\<lambda>b'. s\<lparr>al_buffers := al_buffers s @ [Some c], al_current := Some b', al_next := None\<rparr>) (fb_append mem n b)"
  then show ?thesis using fb_append_None[OF b(4,5) assms(3,4)] by (simp add: append_overruns_def)
qed

lemma append_overruns_exact [simp]: "\<not> append_overruns n n s"
  by (simp add: append_overruns_def split: option.split)

text \<open>The exchange of the buffers.\<close>

lemma be_exchange_inv:
  assumes "async_inv s" "al_pc s \<in> {Locking, Waiting}" "al_pc s = Locking \<Longrightarrow> al_buffers s \<noteq> []"
  shows "async_inv (be_exchange s) \<and> written (be_exchange s) = written s \<and> front_text (be_exchange s) = []
    \<and> text_of (al_toWrite (be_exchange s)) = front_text s \<and> al_pc (be_exchange s) = Writing"
proof -
  have f: "buf_ok (al_current s)" "al_next s = None \<or> empty_ok (al_next s)" "\<forall>b \<in> set (al_buffers s). buf_ok b"
    "al_next s = None \<longrightarrow> al_buffers s \<noteq> []"
    using assms(1) by (auto simp: async_inv_def front_ok_def)
  have b: "sink_ok s" "al_toWrite s = []" "empty_ok (al_new1 s)" "empty_ok (al_new2 s)"
    using assms(1,2) by (auto simp: async_inv_def back_ok_def)
  have len: "al_next s = None \<Longrightarrow> 2 \<le> length (al_buffers s @ [al_current s])"
    using f(4) by (cases "al_buffers s") auto
  have new2: "al_new2 s \<noteq> None" using b(4) by (auto simp: empty_ok_def)
  show ?thesis
    using f b len new2
    by (cases "al_next s = None")
      (auto simp: be_exchange_def Let_def async_inv_def front_ok_def back_ok_def sink_ok_def written_def front_text_def)
qed

lemma be_lock_inv:
  assumes "async_inv s" "al_pc s = Locking"
  shows "async_inv (be_lock s) \<and> written (be_lock s) = written s \<and> pending (be_lock s) = pending s
    \<and> al_pc (be_lock s) \<in> {Waiting, Writing} \<and> al_running (be_lock s) = al_running s"
proof (cases "al_buffers s = []")
  case True
  then show ?thesis
    using assms by (auto simp: be_lock_def async_inv_def front_ok_def back_ok_def sink_ok_def written_def pending_def front_text_def)
next
  case False
  have "al_toWrite s = []" using assms by (simp add: async_inv_def back_ok_def)
  then show ?thesis
    using be_exchange_inv[OF assms(1)] assms(2) False by (auto simp: be_lock_def pending_def be_exchange_def Let_def)
qed

section \<open>The logger as a client of the log file\<close>

text \<open>Operations on \<open>output\<close> change nothing else.\<close>

definition only_sink :: "async \<Rightarrow> async \<Rightarrow> bool" where
  "only_sink s s' \<longleftrightarrow> (\<exists>l w. s' = s\<lparr>al_output := l, al_world := w\<rparr>)"

lemma only_sink_refl [simp]: "only_sink s s"
  unfolding only_sink_def by (rule exI[of _ "al_output s"], rule exI[of _ "al_world s"]) simp

lemma only_sink_trans:
  assumes "only_sink s s1" "only_sink s1 s2"
  shows "only_sink s s2"
proof -
  obtain l w l' w' where "s1 = s\<lparr>al_output := l, al_world := w\<rparr>" "s2 = s1\<lparr>al_output := l', al_world := w'\<rparr>"
    using assms by (auto simp: only_sink_def)
  then have "s2 = s\<lparr>al_output := l', al_world := w'\<rparr>" by simp
  then show ?thesis unfolding only_sink_def by blast
qed

lemma only_sink_simps:
  assumes "only_sink s s'"
  shows "al_toWrite s' = al_toWrite s" "al_new1 s' = al_new1 s" "al_new2 s' = al_new2 s" "al_pc s' = al_pc s"
    "al_running s' = al_running s" "al_buffers s' = al_buffers s" "al_current s' = al_current s"
    "al_next s' = al_next s" "front_text s' = front_text s" "front_ok s' = front_ok s" "al_stderr s' = al_stderr s"
  using assms by (auto simp: only_sink_def front_text_def front_ok_def)

lemma on_output_only_sink: "on_output f s = Some s' \<Longrightarrow> only_sink s s'"
  by (auto simp: on_output_def only_sink_def split: option.splits)

definition durable :: "async \<Rightarrow> bytes" where
  "durable s = (case al_output s of None \<Rightarrow> [] | Some l \<Rightarrow> lf_durable (l, al_world s))"

interpretation out: log_sink sink_ok written durable "\<lambda>m. on_output (LogFile_append m)" "on_output LogFile_flush"
proof unfold_locales
  fix s m assume "sink_ok s"
  then obtain l where l: "al_output s = Some l" "lf_ok (l, al_world s)" by (auto simp: sink_ok_def)
  { from lf.put_ok[OF l(2), of m] l show
      "\<exists>s'. on_output (LogFile_append m) s = Some s' \<and> sink_ok s' \<and> written s' = written s @ m"
      by (auto simp: on_output_def sink_ok_def written_def) }
  { from lf.sync_ok[OF l(2)] l show
      "\<exists>s'. on_output LogFile_flush s = Some s' \<and> sink_ok s' \<and> written s' = written s \<and> durable s' = written s"
      by (auto simp: on_output_def sink_ok_def written_def durable_def) }
qed

lemma unaffected [simp]:
  "sink_ok (s\<lparr>al_pc := p\<rparr>) = sink_ok s" "written (s\<lparr>al_pc := p\<rparr>) = written s"
  "durable (s\<lparr>al_pc := p\<rparr>) = durable s" "front_text (s\<lparr>al_pc := p\<rparr>) = front_text s"
  "front_ok (s\<lparr>al_pc := p\<rparr>) = front_ok s"
  "sink_ok (s\<lparr>al_toWrite := t\<rparr>) = sink_ok s" "written (s\<lparr>al_toWrite := t\<rparr>) = written s"
  "front_text (s\<lparr>al_toWrite := t\<rparr>) = front_text s" "front_ok (s\<lparr>al_toWrite := t\<rparr>) = front_ok s"
  "sink_ok (s\<lparr>al_running := r\<rparr>) = sink_ok s" "written (s\<lparr>al_running := r\<rparr>) = written s"
  "front_text (s\<lparr>al_running := r\<rparr>) = front_text s" "front_ok (s\<lparr>al_running := r\<rparr>) = front_ok s"
  by (auto simp: sink_ok_def written_def durable_def front_text_def front_ok_def split: option.splits)

lemma fold_write_only_sink:
  "fold_opt be_write_one bs s = Some s' \<Longrightarrow> only_sink s s'"
  by (induction bs arbitrary: s)
    (auto simp: be_write_one_def split: option.splits dest!: on_output_only_sink intro: only_sink_trans)

lemma be_write_one_buf: "buf_ok b \<Longrightarrow> be_write_one b = on_output (LogFile_append (text_of [b]))"
  by (auto simp: buf_ok_def be_write_one_def fun_eq_iff)

lemma fold_write:
  assumes "\<forall>b \<in> set bs. buf_ok b" "sink_ok s"
  shows "\<exists>s'. fold_opt be_write_one bs s = Some s' \<and> sink_ok s' \<and> written s' = written s @ text_of bs \<and> only_sink s s'"
proof -
  have "fold_opt be_write_one bs s = fold_opt (\<lambda>m. on_output (LogFile_append m)) (map (\<lambda>b. text_of [b]) bs) s"
    using assms(1) by (induction bs arbitrary: s) (auto simp: be_write_one_buf split: option.splits)
  moreover have "concat (map (\<lambda>b. text_of [b]) bs) = text_of bs"
    by (simp add: text_of_def)
  ultimately show ?thesis
    using out.put_all[OF assms(2), of "map (\<lambda>b. text_of [b]) bs"] fold_write_only_sink by metis
qed

text \<open>The buffers given back.\<close>

lemma recycle_null:
  assumes "bs \<noteq> []" "\<forall>b \<in> set bs. buf_ok b"
  shows "\<exists>b. recycle None bs = Some (b, butlast bs) \<and> empty_ok b"
proof -
  obtain x where "last bs = Some x" "buf_ok (Some x)" using assms last_in_set[of bs] by (fastforce simp: buf_ok_def)
  then show ?thesis using assms(1) fb_reset_ok by (auto simp: recycle_def)
qed

lemma recycle_present: "b \<noteq> None \<Longrightarrow> recycle b bs = Some (b, bs)"
  by (auto simp: recycle_def)

lemma be_recycle_ok:
  assumes "al_new1 s = None" "al_toWrite s \<noteq> []" "\<forall>b \<in> set (al_toWrite s). buf_ok b"
    "al_new2 s = None \<and> 2 \<le> length (al_toWrite s) \<or> empty_ok (al_new2 s)"
  shows "\<exists>n1 n2. be_recycle s = Some (s\<lparr>al_new1 := n1, al_new2 := n2, al_toWrite := []\<rparr>) \<and> empty_ok n1 \<and> empty_ok n2"
proof -
  define bs where "bs = (if 2 < length (al_toWrite s) then take 2 (al_toWrite s) else al_toWrite s)"
  have bs: "bs \<noteq> []" "\<forall>b \<in> set bs. buf_ok b" "2 \<le> length (al_toWrite s) \<Longrightarrow> length bs = 2"
    using assms(2,3) by (auto simp: bs_def dest: in_set_takeD)
  obtain n1 where n1: "recycle (al_new1 s) bs = Some (n1, butlast bs)" "empty_ok n1"
    using recycle_null[OF bs(1,2)] assms(1) by auto
  show ?thesis
  proof (cases "al_new2 s = None")
    case True
    then have "length bs = 2" using assms(4) bs(3) by (auto simp: empty_ok_def)
    then have "butlast bs \<noteq> []" by (cases bs rule: rev_cases) auto
    moreover have "\<forall>b \<in> set (butlast bs). buf_ok b" using bs(2) by (auto dest: in_set_butlastD)
    ultimately obtain n2 where "recycle None (butlast bs) = Some (n2, butlast (butlast bs))" "empty_ok n2"
      using recycle_null by blast
    then show ?thesis using n1 True by (auto simp: be_recycle_def Let_def bs_def[symmetric])
  next
    case False
    then have "empty_ok (al_new2 s)" using assms(4) by auto
    then show ?thesis using n1 recycle_present[OF False]
      by (intro exI[of _ n1] exI[of _ "al_new2 s"]) (simp add: be_recycle_def Let_def bs_def[symmetric])
  qed
qed

text \<open>What one round of writing does to the log: everything in order, or the notice and the first two
  buffers.\<close>

definition round_text :: "int \<times> int \<Rightarrow> async \<Rightarrow> bytes" where
  "round_text tv s =
     (if 25 < length (al_toWrite s)
      then drop_notice tv (length (al_toWrite s)) @ text_of (take 2 (al_toWrite s))
      else text_of (al_toWrite s))"

lemma be_drop_ok:
  assumes "sink_ok s"
  shows "\<exists>s1. be_drop tv s = Some s1 \<and> sink_ok s1 \<and> written s1 @ text_of (al_toWrite s1) = written s @ round_text tv s
    \<and> al_toWrite s1 = (if 25 < length (al_toWrite s) then take 2 (al_toWrite s) else al_toWrite s)
    \<and> al_new1 s1 = al_new1 s \<and> al_new2 s1 = al_new2 s \<and> al_running s1 = al_running s
    \<and> front_text s1 = front_text s \<and> front_ok s1 = front_ok s"
proof (cases "25 < length (al_toWrite s)")
  case False
  then show ?thesis using assms by (auto simp: be_drop_def round_text_def)
next
  case True
  let ?buf = "drop_notice tv (length (al_toWrite s))"
  let ?s = "s\<lparr>al_stderr := al_stderr s @ ?buf\<rparr>"
  have "sink_ok ?s" "written ?s = written s" using assms by (auto simp: sink_ok_def written_def)
  then obtain s2 where s2: "on_output (LogFile_append ?buf) ?s = Some s2" "sink_ok s2" "written s2 = written s @ ?buf"
    using out.put_ok[of ?s ?buf] by auto
  note f = only_sink_simps[OF on_output_only_sink[OF s2(1)]]
  have "front_text ?s = front_text s" "front_ok ?s = front_ok s"
    by (simp_all add: front_text_def front_ok_def)
  then show ?thesis using True s2 f by (simp add: be_drop_def round_text_def Let_def)
qed

lemma be_write_ok:
  assumes "async_inv s" "al_pc s = Writing"
  shows "\<exists>s'. be_write tv s = Some s' \<and> async_inv s' \<and> al_pc s' = Testing \<and> al_running s' = al_running s
    \<and> written s' = written s @ round_text tv s \<and> durable s' = written s' \<and> front_text s' = front_text s
    \<and> al_toWrite s' = []"
proof -
  have i: "front_ok s" "sink_ok s" "al_new1 s = None" "al_toWrite s \<noteq> []" "\<forall>b \<in> set (al_toWrite s). buf_ok b"
    "al_new2 s = None \<and> 2 \<le> length (al_toWrite s) \<or> empty_ok (al_new2 s)"
    using assms by (auto simp: async_inv_def back_ok_def)
  obtain s1 where s1: "be_drop tv s = Some s1" "sink_ok s1"
    "written s1 @ text_of (al_toWrite s1) = written s @ round_text tv s"
    "al_toWrite s1 = (if 25 < length (al_toWrite s) then take 2 (al_toWrite s) else al_toWrite s)"
    "al_new1 s1 = None" "al_new2 s1 = al_new2 s" "al_running s1 = al_running s" "front_text s1 = front_text s" "front_ok s1"
    using be_drop_ok[OF i(2), of tv] i(1,3) by auto
  have w: "\<forall>b \<in> set (al_toWrite s1). buf_ok b" "al_toWrite s1 \<noteq> []"
    "al_new2 s1 = None \<and> 2 \<le> length (al_toWrite s1) \<or> empty_ok (al_new2 s1)"
    using i(4-6) s1(4,6) by (auto dest: in_set_takeD)
  obtain s2 where s2: "fold_opt be_write_one (al_toWrite s1) s1 = Some s2" "sink_ok s2"
    "written s2 = written s1 @ text_of (al_toWrite s1)" "only_sink s1 s2"
    using fold_write[OF w(1) s1(2)] by blast
  note f2 = only_sink_simps[OF s2(4)]
  obtain n1 n2 where r: "be_recycle s2 = Some (s2\<lparr>al_new1 := n1, al_new2 := n2, al_toWrite := []\<rparr>)" "empty_ok n1" "empty_ok n2"
    using be_recycle_ok[of s2] w s1(5) f2 by auto
  let ?s3 = "s2\<lparr>al_new1 := n1, al_new2 := n2, al_toWrite := []\<rparr>"
  have "sink_ok ?s3" "written ?s3 = written s2" using s2(2) by (auto simp: sink_ok_def written_def)
  then obtain s4 where s4: "on_output LogFile_flush ?s3 = Some s4" "sink_ok s4" "written s4 = written s2" "durable s4 = written s2"
    using out.sync_ok[of ?s3] by auto
  note f4 = only_sink_simps[OF on_output_only_sink[OF s4(1)]]
  have s3: "front_text ?s3 = front_text s2" "front_ok ?s3 = front_ok s2" by (simp_all add: front_text_def front_ok_def)
  have "be_write tv s = Some (s4\<lparr>al_pc := Testing\<rparr>)"
    using i(4) s1(1) s2(1) r(1) s4(1) by (simp add: be_write_def)
  moreover have "async_inv (s4\<lparr>al_pc := Testing\<rparr>)"
    unfolding async_inv_def back_ok_def using s4(2) f4 s3 f2 s1(9) r(2,3) by simp
  ultimately show ?thesis
    using s4 f4 s3 f2 s1 s2(3) by auto
qed

section \<open>Every step of the logging thread\<close>

lemma be_start_ok:
  assumes "async_inv s" "al_pc s = Starting" "length junk1 = kLargeBuffer" "length junk2 = kLargeBuffer"
  shows "\<exists>s'. be_start junk1 junk2 s = Some s' \<and> async_inv s' \<and> al_pc s' = Testing \<and> al_running s' = al_running s
    \<and> written s' = written s \<and> pending s' = pending s \<and> al_stderr s' = al_stderr s"
proof -
  have i: "front_ok s" "al_toWrite s = []" "al_output s = None" "world_ok (al_world s)" "al_running s"
    using assms(1,2) by (auto simp: async_inv_def back_ok_def)
  obtain l w where l: "LogFile_new (al_basename s) (al_rollSize s) False 3 1024 (al_world s) = Some (l, w)" "lf_ok (l, w)"
    "lf_output (l, w) = []"
    using LogFile_new_ok[of "al_world s" "al_basename s" "al_rollSize s" False 3 1024] i(4)
    by (auto simp: world_ok_def lf_output_log)
  show ?thesis
    using i l assms(3,4)
    by (auto simp: be_start_def async_inv_def back_ok_def sink_ok_def front_ok_def written_def pending_def front_text_def)
qed

lemma be_test_ok:
  assumes "async_inv s" "al_pc s = Testing"
  shows "\<exists>s'. be_test s = Some s' \<and> async_inv s' \<and> al_pc s' = (if al_running s then Locking else Finished)
    \<and> al_running s' = al_running s \<and> written s' = written s \<and> pending s' = pending s \<and> al_stderr s' = al_stderr s"
proof (cases "al_running s")
  case True
  then show ?thesis
    using assms by (auto simp: be_test_def async_inv_def back_ok_def pending_def)
next
  case False
  have i: "front_ok s" "sink_ok s" "al_toWrite s = []" using assms by (auto simp: async_inv_def back_ok_def)
  obtain s1 where s1: "on_output LogFile_flush s = Some s1" "sink_ok s1" "written s1 = written s"
    using out.sync_ok[OF i(2)] by blast
  note f = only_sink_simps[OF on_output_only_sink[OF s1(1)]]
  show ?thesis
    using False i s1 f by (auto simp: be_test_def async_inv_def back_ok_def pending_def)
qed

lemma be_write_stderr:
  assumes "async_inv s" "al_pc s = Writing" "be_write tv s = Some s'"
  shows "al_stderr s' = al_stderr s @ (if 25 < length (al_toWrite s) then drop_notice tv (length (al_toWrite s)) else [])"
proof -
  obtain s1 s2 s3 s4 where s: "be_drop tv s = Some s1" "fold_opt be_write_one (al_toWrite s1) s1 = Some s2"
    "be_recycle s2 = Some s3" "on_output LogFile_flush s3 = Some s4" "s' = s4\<lparr>al_pc := Testing\<rparr>"
    using assms(3) by (auto simp: be_write_def bind_eq_Some_conv split: if_splits)
  have "al_stderr s1 = al_stderr s @ (if 25 < length (al_toWrite s) then drop_notice tv (length (al_toWrite s)) else [])"
    using s(1) by (auto simp: be_drop_def Let_def split: if_splits dest!: on_output_only_sink only_sink_simps(11))
  moreover have "al_stderr s2 = al_stderr s1" using only_sink_simps(11)[OF fold_write_only_sink[OF s(2)]] .
  moreover have "al_stderr s3 = al_stderr s2" using s(3) by (auto simp: be_recycle_def Let_def bind_eq_Some_conv)
  moreover have "al_stderr s4 = al_stderr s3" using only_sink_simps(11)[OF on_output_only_sink[OF s(4)]] .
  ultimately show ?thesis using s(5) by simp
qed

text \<open>The successor of a program point; with \<open>buffers_\<close> empty the thread goes to wait.\<close>

definition next_pc :: "async \<Rightarrow> backend_pc" where
  "next_pc s =
     (case al_pc s of
        Unborn \<Rightarrow> Starting | Starting \<Rightarrow> Testing | Testing \<Rightarrow> (if al_running s then Locking else Finished)
      | Locking \<Rightarrow> (if al_buffers s = [] then Waiting else Writing) | Waiting \<Rightarrow> Writing | Writing \<Rightarrow> Testing
      | Finished \<Rightarrow> Finished)"

lemma backend_step_ok:
  assumes "async_inv s" "al_pc s \<notin> {Unborn, Finished}" "length junk1 = kLargeBuffer" "length junk2 = kLargeBuffer"
  shows "\<exists>s'. backend_step junk1 junk2 tv s = Some s' \<and> async_inv s' \<and> al_pc s' = next_pc s \<and> al_running s' = al_running s
    \<and> (if al_pc s = Writing
       then written s' = written s @ round_text tv s \<and> durable s' = written s' \<and> pending s' = front_text s
         \<and> al_stderr s' = al_stderr s @ (if 25 < length (al_toWrite s) then drop_notice tv (length (al_toWrite s)) else [])
       else written s' = written s \<and> pending s' = pending s \<and> al_stderr s' = al_stderr s)"
proof (cases "al_pc s")
  case Starting
  from be_start_ok[OF assms(1) Starting assms(3,4)] show ?thesis
    by (auto simp: backend_step_def next_pc_def Starting)
next
  case Testing
  from be_test_ok[OF assms(1) Testing] show ?thesis
    by (auto simp: backend_step_def next_pc_def Testing)
next
  case Locking
  have "al_stderr (be_lock s) = al_stderr s" "al_pc (be_lock s) = next_pc s"
    using Locking by (simp_all add: be_lock_def be_exchange_def Let_def next_pc_def)
  with be_lock_inv[OF assms(1) Locking] show ?thesis by (simp add: backend_step_def Locking)
next
  case Waiting
  have "al_stderr (be_exchange s) = al_stderr s" "al_running (be_exchange s) = al_running s" "al_toWrite s = []"
    using assms(1) Waiting by (simp_all add: be_exchange_def Let_def async_inv_def back_ok_def)
  with be_exchange_inv[OF assms(1)] show ?thesis by (simp add: backend_step_def Waiting pending_def next_pc_def)
next
  case Writing
  obtain s' where s': "be_write tv s = Some s'" "async_inv s'" "al_pc s' = Testing" "al_running s' = al_running s"
    "written s' = written s @ round_text tv s" "durable s' = written s'" "front_text s' = front_text s" "al_toWrite s' = []"
    using be_write_ok[OF assms(1) Writing, of tv] by blast
  from be_write_stderr[OF assms(1) Writing s'(1)] s' show ?thesis
    by (simp add: backend_step_def Writing pending_def next_pc_def)
qed (use assms(2) in auto)

lemma async_append_keeps:
  assumes "async_inv s" "length junk = kLargeBuffer" "c_strlen mem = Some m" "n \<le> m" "n < 2 ^ 31"
    "async_append junk mem (int n) s = Some s'"
  shows "async_inv s' \<and> same_back s s' \<and> written s' = written s \<and> pending s' = pending s @ accepted mem n"
proof -
  have f: "front_ok s" using assms(1) by (simp add: async_inv_def)
  from async_append_front[OF f assms(2-6)] have
    s': "front_ok s'" "same_back s s'" "front_text s' = front_text s @ accepted mem n" by auto
  then show ?thesis
    using assms(1) same_back_ok[OF s'(2)]
    by (auto simp: async_inv_def pending_def written_def same_back_def split: option.splits)
qed

lemma async_append_ok:
  assumes "async_inv s" "length junk = kLargeBuffer" "c_strlen mem = Some n" "n < 2 ^ 31"
  shows "\<exists>s'. async_append junk mem (int n) s = Some s' \<and> async_inv s' \<and> same_back s s' \<and> written s' = written s
    \<and> pending s' = pending s @ accepted mem n"
proof -
  have f: "front_ok s" using assms(1) by (simp add: async_inv_def)
  obtain s' where "async_append junk mem (int n) s = Some s'"
    using async_append_None[OF f assms(2,3) order_refl assms(4)] by auto
  with async_append_keeps[OF assms(1,2,3) order_refl assms(4)] show ?thesis by blast
qed

lemma async_new_inv:
  assumes "world_ok w" "length junk1 = kLargeBuffer" "length junk2 = kLargeBuffer"
  shows "async_inv (AsyncLogging_new basename rollSize flushInterval junk1 junk2 w)"
    "written (AsyncLogging_new basename rollSize flushInterval junk1 junk2 w) = []"
    "pending (AsyncLogging_new basename rollSize flushInterval junk1 junk2 w) = []"
  using assms empty_ok_buf[OF new_Buffer_ok(2)[OF assms(2)]] empty_ok_text(1)[OF new_Buffer_ok(2)[OF assms(2)]]
  by (simp_all add: AsyncLogging_new_def async_inv_def front_ok_def back_ok_def written_def pending_def front_text_def)

text \<open>The messages a run accepts, in the order of the calls.\<close>

fun accepted_by :: "async_event \<Rightarrow> bytes" where
  "accepted_by (EvAppend junk mem n) = accepted mem n"
| "accepted_by _ = []"

lemma async_step_inv:
  assumes "async_step s e s'" "async_inv s"
  shows "async_inv s'"
  using assms
proof (cases rule: async_step.cases)
  case start
  then show ?thesis using assms(2)
    by (auto simp: async_start_def async_inv_def back_ok_def front_ok_def)
next
  case (append junk mem m n)
  then show ?thesis using async_append_keeps[OF assms(2) append(2-6)] by blast
next
  case (backend junk1 junk2 tv)
  then have "al_pc s \<notin> {Unborn, Finished}" by (auto simp: backend_step_def)
  then show ?thesis using backend_step_ok[OF assms(2), of junk1 junk2 tv] backend by auto
next
  case stop
  then show ?thesis using assms(2)
    by (cases "al_pc s") (auto simp: async_stop_def async_inv_def back_ok_def front_ok_def sink_ok_def)
qed

lemma async_run_inv: "async_run s es s' \<Longrightarrow> async_inv s \<Longrightarrow> async_inv s'"
  by (induction rule: async_run.induct) (auto intro: async_step_inv)

section \<open>Properties\<close>

definition junk_buffer :: bytes where
  "junk_buffer = replicate kLargeBuffer NUL"

lemma length_junk_buffer [simp]: "length junk_buffer = kLargeBuffer"
  by (simp add: junk_buffer_def)

definition demo_logger :: async where
  "demo_logger = AsyncLogging_new ''log'' 500 3 junk_buffer junk_buffer demo_world"

lemma demo_world_ok [simp]: "world_ok demo_world"
  by (simp add: world_ok_def)

lemma demo_logger_inv: "async_inv demo_logger" "written demo_logger = []" "pending demo_logger = []" "al_pc demo_logger = Unborn"
  by (simp_all add: demo_logger_def async_new_inv) (simp add: AsyncLogging_new_def)

lemma demo_logger_stderr [simp]: "al_stderr demo_logger = []"
  by (simp add: demo_logger_def AsyncLogging_new_def)

lemma run_backend:
  assumes "async_run s0 es s" "async_inv s" "al_pc s \<notin> {Unborn, Finished}"
  obtains s' where "async_run s0 (es @ [EvBackend junk_buffer junk_buffer (0, 0)]) s'" "async_inv s'" "al_pc s' = next_pc s"
    "al_running s' = al_running s" "al_pc s \<noteq> Writing \<Longrightarrow> al_stderr s' = al_stderr s"
    "al_pc s \<noteq> Writing \<Longrightarrow> written s' = written s \<and> pending s' = pending s"
proof -
  note use = that
  obtain s' where s': "backend_step junk_buffer junk_buffer (0, 0) s = Some s'" "async_inv s'" "al_pc s' = next_pc s"
    "al_running s' = al_running s" "al_pc s \<noteq> Writing \<Longrightarrow> al_stderr s' = al_stderr s"
    "al_pc s \<noteq> Writing \<Longrightarrow> written s' = written s \<and> pending s' = pending s"
    using backend_step_ok[OF assms(2,3), of junk_buffer junk_buffer "(0, 0)"] by auto
  have "async_run s0 (es @ [EvBackend junk_buffer junk_buffer (0, 0)]) s'"
    by (rule run_snoc[OF assms(1) async_step.backend[OF _ _ s'(1)]]) simp_all
  from use[OF this s'(2-)] show thesis .
qed

definition ev_hello :: async_event where
  "ev_hello = EvAppend junk_buffer (c_string ''hello'') 5"

lemma accepted_hello [simp]: "accepted_by ev_hello = ''hello''"
  by (simp add: ev_hello_def accepted_def kLargeBuffer_def c_string_def)

text \<open>The logger is started, a message arrives, and the logging thread reaches its loop.\<close>

lemma demo_run_testing:
  obtains s where "async_run demo_logger [EvStart, ev_hello, EvBackend junk_buffer junk_buffer (0, 0)] s" "async_inv s"
    "al_pc s = Testing" "al_running s" "al_stderr s = []" "written s = []" "pending s = ''hello''"
proof -
  note use = that
  let ?s1 = "async_start demo_logger"
  have r1: "async_run demo_logger ([] @ [EvStart]) ?s1"
    by (rule run_snoc[OF run_nil async_step.start]) (rule demo_logger_inv)
  have i1: "async_inv ?s1" "written ?s1 = []" "pending ?s1 = []" "al_stderr ?s1 = []" "al_pc ?s1 = Starting" "al_running ?s1"
    using async_run_inv[OF r1 demo_logger_inv(1)] demo_logger_inv(2,3)
    by (simp_all add: async_start_def written_def pending_def front_text_def split: option.splits)
  have m: "c_strlen (c_string ''hello'') = Some 5" by (simp add: c_string_def)
  obtain s2 where s2: "async_append junk_buffer (c_string ''hello'') (int 5) ?s1 = Some s2" "async_inv s2"
    "same_back ?s1 s2" "written s2 = written ?s1" "pending s2 = pending ?s1 @ accepted (c_string ''hello'') 5"
    using async_append_ok[OF i1(1) length_junk_buffer m] by auto
  have r2: "async_run demo_logger (([] @ [EvStart]) @ [ev_hello]) s2"
    unfolding ev_hello_def by (rule run_snoc[OF r1 async_step.append[OF _ m order_refl _ s2(1)]]) simp_all
  have i2: "al_pc s2 = Starting" "al_running s2" "al_stderr s2 = []" "written s2 = []" "pending s2 = ''hello''"
    using s2 i1 accepted_hello by (simp_all add: same_back_def ev_hello_def)
  show thesis
    by (rule run_backend[OF r2 s2(2)]) (use i2 use in \<open>simp_all add: next_pc_def\<close>)
qed



lemma drop_notice_nonempty: "drop_notice tv n \<noteq> []"
  by (simp add: drop_notice_def snprintf_mem_def until_NUL_def)

lemma async_step_text:
  assumes "async_step s e s'" "async_inv s" "al_stderr s' = []" "written s @ pending s = t"
  shows "al_stderr s = [] \<and> written s' @ pending s' = t @ accepted_by e"
  using assms(1)
proof (cases rule: async_step.cases)
  case start
  then show ?thesis using assms(3,4)
    by (auto simp: async_start_def written_def pending_def front_text_def split: option.splits)
next
  case (append junk mem m n)
  then show ?thesis
    using async_append_keeps[OF assms(2) append(2-6)] assms(3,4) by (auto simp: same_back_def)
next
  case (backend junk1 junk2 tv)
  then have "al_pc s \<notin> {Unborn, Finished}" by (auto simp: backend_step_def)
  then show ?thesis
    using backend_step_ok[OF assms(2), of junk1 junk2 tv] backend assms(3,4)
    by (auto simp: round_text_def pending_def drop_notice_nonempty split: if_splits)
next
  case stop
  then show ?thesis using assms(3,4)
    by (auto simp: async_stop_def written_def pending_def front_text_def split: option.splits)
qed

lemma async_run_text:
  "async_run s es s' \<Longrightarrow> async_inv s \<Longrightarrow> written s = [] \<Longrightarrow> pending s = [] \<Longrightarrow> al_stderr s' = [] \<Longrightarrow>
   written s' @ pending s' = concat (map accepted_by es)"
proof (induction rule: async_run.induct)
  case (run_nil s)
  then show ?case by simp
next
  case (run_snoc s es s1 e s2)
  have "async_inv s1" using run_snoc async_run_inv by blast
  from async_step_text[OF run_snoc.hyps(2) this run_snoc.prems(4) refl] run_snoc show ?case by simp
qed

text \<open>C1: Nothing is lost, duplicated or reordered on the way to the log file: in every state a new logger
  can reach without having reported dropped messages, what the log file has received followed by what the
  buffers hold is exactly the sequence of the messages accepted by \<open>append\<close>, in the order of the calls.\<close>

theorem async_order:
  assumes "async_run (AsyncLogging_new basename rollSize flushInterval j1 j2 w) es s"
    "world_ok w" "length j1 = kLargeBuffer" "length j2 = kLargeBuffer" "al_stderr s = []"
  shows "written s @ pending s = concat (map accepted_by es)"
  by (rule async_run_text[OF assms(1) async_new_inv[OF assms(2-4)] assms(5)])

text \<open>C8: One round of writing, in every reachable state where the logging thread stands before it: the
  log file receives all buffers of the round in order, or, if there are more than 25, the notice and the first
  two of them and nothing of the rest; all of it is flushed; what the threads appended since the exchange is
  untouched; and the thread has two empty buffers again.\<close>

theorem async_round:
  assumes "async_run (AsyncLogging_new basename rollSize flushInterval j1 j2 w) es s"
    "world_ok w" "length j1 = kLargeBuffer" "length j2 = kLargeBuffer" "al_pc s = Writing"
  shows "\<exists>s'. be_write tv s = Some s' \<and> durable s' = written s' \<and> pending s' = front_text s
    \<and> written s' = written s @ (if 25 < length (al_toWrite s)
        then drop_notice tv (length (al_toWrite s)) @ text_of (take 2 (al_toWrite s)) else text_of (al_toWrite s))
    \<and> empty_ok (al_new1 s') \<and> empty_ok (al_new2 s')"
proof -
  have inv: "async_inv s" using async_run_inv[OF assms(1)] async_new_inv(1)[OF assms(2-4)] by blast
  from be_write_ok[OF inv assms(5), of tv] show ?thesis
    by (auto simp: round_text_def pending_def async_inv_def back_ok_def)
qed

lemma demo_run_writing:
  obtains es s where "async_run demo_logger es s" "al_pc s = Writing" "al_stderr s = []"
    "written s = []" "pending s = ''hello''" "concat (map accepted_by es) = ''hello''"
proof -
  note use = that
  obtain s3 where s3: "async_run demo_logger [EvStart, ev_hello, EvBackend junk_buffer junk_buffer (0, 0)] s3" "async_inv s3"
    "al_pc s3 = Testing" "al_running s3" "al_stderr s3 = []" "written s3 = []" "pending s3 = ''hello''"
    by (rule demo_run_testing)
  obtain es4 s4 where s4: "async_run demo_logger es4 s4" "async_inv s4" "al_pc s4 = Locking" "al_stderr s4 = []"
    "written s4 = []" "pending s4 = ''hello''" "concat (map accepted_by es4) = ''hello''"
    by (rule run_backend[OF s3(1,2)]) (use s3 in \<open>auto simp: next_pc_def\<close>)
  obtain es5 s5 where s5: "async_run demo_logger es5 s5" "async_inv s5" "al_pc s5 = Waiting \<or> al_pc s5 = Writing" "al_stderr s5 = []"
    "written s5 = []" "pending s5 = ''hello''" "concat (map accepted_by es5) = ''hello''"
    by (rule run_backend[OF s4(1,2)]) (use s4 in \<open>auto simp: next_pc_def split: if_splits\<close>)
  show thesis
  proof (cases "al_pc s5 = Writing")
    case True
    then show thesis using use s5 by blast
  next
    case False
    then have w: "al_pc s5 = Waiting" using s5(3) by simp
    show thesis
      by (rule run_backend[OF s5(1,2)]) (use w s5 use in \<open>auto simp: next_pc_def\<close>)
  qed
qed

theorem async_order_witness:
  "\<exists>es s. async_run demo_logger es s \<and> al_pc s = Writing \<and> written s @ pending s = ''hello''"
proof -
  obtain es s where s: "async_run demo_logger es s" "al_pc s = Writing" "al_stderr s = []" "concat (map accepted_by es) = ''hello''"
    by (rule demo_run_writing) blast
  have "written s @ pending s = concat (map accepted_by es)"
    by (rule async_order[OF s(1)[unfolded demo_logger_def] _ _ _ s(3)]) simp_all
  with s show ?thesis by auto
qed

theorem async_round_witness:
  "\<exists>s s'. al_pc s = Writing \<and> be_write (0, 0) s = Some s' \<and> durable s' = written s'"
proof -
  obtain es s where s: "async_run demo_logger es s" "al_pc s = Writing" by (rule demo_run_writing) blast
  from async_round[OF s(1)[unfolded demo_logger_def] _ _ _ s(2), of "(0, 0)"] s(2) show ?thesis by auto
qed

subsection \<open>Stopping\<close>

text \<open>How many steps the logging thread still takes once \<open>running_\<close> is false.\<close>

fun steps_left :: "backend_pc \<Rightarrow> nat" where
  "steps_left Finished = 0"
| "steps_left Testing = 1"
| "steps_left Writing = 2"
| "steps_left Waiting = 3"
| "steps_left Locking = 4"
| "steps_left Starting = 5"
| "steps_left Unborn = 6"

fun is_backend :: "async_event \<Rightarrow> bool" where
  "is_backend (EvBackend junk1 junk2 tv) = True"
| "is_backend _ = False"

definition stopped :: "async \<Rightarrow> bool" where
  "stopped s \<longleftrightarrow> \<not> al_running s \<and> al_pc s \<notin> {Unborn, Starting}"

lemma async_step_stopped:
  assumes "async_step s e s'" "async_inv s" "stopped s"
  shows "stopped s' \<and> steps_left (al_pc s') + (if is_backend e then 1 else 0) \<le> steps_left (al_pc s)
    \<and> (al_pc s = Finished \<longrightarrow> written s' = written s)"
  using assms(1)
proof (cases rule: async_step.cases)
  case start
  then show ?thesis using assms(3) by (simp add: stopped_def)
next
  case (append junk mem m n)
  then show ?thesis
    using async_append_keeps[OF assms(2) append(2-6)] assms(3) by (auto simp: same_back_def stopped_def)
next
  case (backend junk1 junk2 tv)
  then have pc: "al_pc s \<notin> {Unborn, Finished}" by (auto simp: backend_step_def)
  then have "al_pc s' = next_pc s" "al_running s' = al_running s"
    using backend_step_ok[OF assms(2), of junk1 junk2 tv] backend by auto
  then show ?thesis using assms(3) backend(1) pc
    by (cases "al_pc s") (auto simp: stopped_def next_pc_def)
next
  case stop
  then show ?thesis using assms(3)
    by (auto simp: async_stop_def stopped_def written_def split: option.splits)
qed

lemma async_run_stopped:
  assumes "async_run s es s'" "async_inv s" "stopped s"
  shows "stopped s' \<and> steps_left (al_pc s') + length (filter is_backend es) \<le> steps_left (al_pc s)
    \<and> (al_pc s = Finished \<longrightarrow> written s' = written s)"
  using assms
proof (induction rule: async_run.induct)
  case (run_nil s)
  then show ?case by simp
next
  case (run_snoc s es s1 e s2)
  have i: "async_inv s1" using run_snoc async_run_inv by blast
  have a: "stopped s1" "steps_left (al_pc s1) + length (filter is_backend es) \<le> steps_left (al_pc s)"
    "al_pc s = Finished \<longrightarrow> written s1 = written s"
    using run_snoc by auto
  note b = async_step_stopped[OF run_snoc.hyps(2) i a(1)]
  have "al_pc s = Finished \<Longrightarrow> al_pc s1 = Finished"
    using a(2) by (cases "al_pc s1") auto
  then show ?case using a b by auto
qed

text \<open>C9: \<open>stop\<close> returns: once \<open>running_\<close> is false the logging thread takes at most four more steps,
  however many appends come in between, and until it has finished its next step is always possible.\<close>

theorem async_stop_terminates:
  assumes "async_run (AsyncLogging_new basename rollSize flushInterval j1 j2 w) es s"
    "world_ok w" "length j1 = kLargeBuffer" "length j2 = kLargeBuffer"
    "\<not> al_running s" "al_pc s \<notin> {Unborn, Starting}" "async_run s es' s'"
  shows "length (filter is_backend es') \<le> 4
    \<and> (al_pc s' = Finished \<or> (\<exists>s''. backend_step junk_buffer junk_buffer tv s' = Some s''))"
proof -
  have inv: "async_inv s" using async_run_inv[OF assms(1)] async_new_inv(1)[OF assms(2-4)] by blast
  have st: "stopped s" using assms(5,6) by (simp add: stopped_def)
  note r = async_run_stopped[OF assms(7) inv st]
  have "steps_left (al_pc s) \<le> 4" using assms(6) by (cases "al_pc s") auto
  moreover have "async_inv s'" using async_run_inv[OF assms(7) inv] .
  ultimately show ?thesis
    using r backend_step_ok[of s' junk_buffer junk_buffer tv] by (auto simp: stopped_def)
qed

lemma demo_run_stopped:
  obtains s where "async_run demo_logger [EvStart, ev_hello, EvBackend junk_buffer junk_buffer (0, 0), EvStop] s" "async_inv s"
    "al_pc s = Testing" "\<not> al_running s" "written s = []" "pending s = ''hello''"
proof -
  obtain s3 where s3: "async_run demo_logger [EvStart, ev_hello, EvBackend junk_buffer junk_buffer (0, 0)] s3" "async_inv s3"
    "al_pc s3 = Testing" "al_running s3" "al_stderr s3 = []" "written s3 = []" "pending s3 = ''hello''"
    by (rule demo_run_testing)
  have st: "async_step s3 EvStop (async_stop s3)" by (rule async_step.stop) (simp add: s3(3))
  have r: "async_run demo_logger [EvStart, ev_hello, EvBackend junk_buffer junk_buffer (0, 0), EvStop] (async_stop s3)"
    using run_snoc[OF s3(1) st] by simp
  show thesis
    by (rule that[OF r]) (use s3 async_step_inv[OF st] in \<open>simp_all add: async_stop_def pending_def\<close>)
qed

theorem async_stop_terminates_witness:
  "\<exists>s. al_pc s = Testing \<and> \<not> al_running s \<and> (\<exists>s''. backend_step junk_buffer junk_buffer (0, 0) s = Some s'')"
proof -
  obtain s where s: "async_run demo_logger [EvStart, ev_hello, EvBackend junk_buffer junk_buffer (0, 0), EvStop] s"
    "al_pc s = Testing" "\<not> al_running s"
    by (rule demo_run_stopped) blast
  have "al_pc s \<notin> {Unborn, Starting}" using s(2) by simp
  from async_stop_terminates[OF s(1)[unfolded demo_logger_def] _ _ _ s(3) this run_nil, of "(0, 0)"] s(2,3)
  show ?thesis by auto
qed

text \<open>Stopping does not drain the buffers: if the logging thread sees \<open>running_\<close> false, it only flushes
  the log file and ends; every message still in a buffer, although accepted before the call of \<open>stop\<close>, is
  never written, whatever happens afterwards.\<close>

theorem async_stop_loses:
  assumes "async_run (AsyncLogging_new basename rollSize flushInterval j1 j2 w) es s"
    "world_ok w" "length j1 = kLargeBuffer" "length j2 = kLargeBuffer" "al_pc s = Testing" "\<not> al_running s"
  shows "\<exists>s'. be_test s = Some s' \<and> al_pc s' = Finished \<and> pending s' = pending s
    \<and> (\<forall>es' s''. async_run s' es' s'' \<longrightarrow> written s'' = written s)"
proof -
  have inv: "async_inv s" using async_run_inv[OF assms(1)] async_new_inv(1)[OF assms(2-4)] by blast
  obtain s' where s': "be_test s = Some s'" "async_inv s'" "al_pc s' = Finished" "\<not> al_running s'"
    "written s' = written s" "pending s' = pending s"
    using be_test_ok[OF inv assms(5)] assms(6) by auto
  have "stopped s'" using s' by (simp add: stopped_def)
  then show ?thesis using async_run_stopped[of s' _ _, OF _ s'(2)] s' by auto
qed

theorem async_stop_loses_witness:
  "\<exists>s s'. async_run demo_logger [EvStart, ev_hello, EvBackend junk_buffer junk_buffer (0, 0), EvStop] s
     \<and> be_test s = Some s' \<and> al_pc s' = Finished \<and> pending s' = ''hello''
     \<and> (\<forall>es' s''. async_run s' es' s'' \<longrightarrow> written s'' = [])"
proof -
  obtain s where s: "async_run demo_logger [EvStart, ev_hello, EvBackend junk_buffer junk_buffer (0, 0), EvStop] s"
    "al_pc s = Testing" "\<not> al_running s" "written s = []" "pending s = ''hello''"
    by (rule demo_run_stopped) blast
  from async_stop_loses[OF s(1)[unfolded demo_logger_def] _ _ _ s(2,3)] s show ?thesis by auto
qed

end
