(* ===== verification/Pipeline.thy ===== *)
theory Pipeline
  imports Logging AsyncLogging
begin

text \<open>The logger in front of the asynchronous logger, as a program sets it up: the output function hands every
  line to \<open>AsyncLogging::append\<close> of a logger that all threads share.\<close>

text \<open>\<open>junk\<close> is the memory a new buffer gets if this call needs one; the flush function stays the default one.\<close>

definition asyncOutput :: "bytes \<Rightarrow> bytes \<Rightarrow> int \<Rightarrow> async io \<Rightarrow> async io option" where
  "asyncOutput junk msg len o' = map_option (\<lambda>s. o'\<lparr>io_rest := s\<rparr>) (async_append junk msg len (io_rest o'))"

lemma fmt_d_sint_no_NUL [simp]: "NUL \<notin> set (fmt_d_zero w v)" "NUL \<notin> set (fmt_d_space w v)" "NUL \<notin> set (fmt_d v)"
  by (simp_all add: fmt_d_zero_no_NUL fmt_d_space_no_NUL fmt_d_no_NUL)

lemma log_line_no_NUL:
  assumes "site_ok tz site" and "NUL \<notin> set (concat (map op_text ops))"
  shows "NUL \<notin> set (log_line mac t tz site ops)"
proof -
  have "NUL \<notin> set (ls_file site)" "NUL \<notin> set (ls_func site)" "NUL \<notin> set (ls_strerror site (sint (ls_errno site)))"
    using assms(1) by (simp_all add: site_ok_def)
  moreover have "NUL \<notin> set (basename_of (ls_file site))" using calculation(1) set_basename_of by blast
  moreover have "NUL \<notin> set (LogLevelName (macro_level mac))" by (cases "macro_level mac") simp_all
  ultimately show ?thesis using assms(2) by (simp add: log_line_defs format_tm_no_NUL)
qed

text \<open>Behind the line, the memory a statement hands over goes on with the bytes that happen to follow the newline on
  the stack of \<open>finish\<close>, up to the first NUL; whether \<open>strcpy\<close> writes past the logger's buffer depends on them.\<close>

definition strcpy_overruns :: "log_site \<Rightarrow> nat \<Rightarrow> async \<Rightarrow> bool" where
  "strcpy_overruns site n s =
     (case c_strlen (ls_stack2 site) of None \<Rightarrow> True | Some k \<Rightarrow> append_overruns (n + k) n s)"

text \<open>A statement is one call of \<open>append\<close> with its line; nothing else decides whether it returns.\<close>

lemma log_to_async:
  assumes guard: "macro_guard mac (logLevel g)" and site: "site_ok (g_logTimeZone g) site"
    and l: "locals_ok (g_logTimeZone g) (ls_gettid site) l"
    and ops: "\<forall>i\<in>set ops. op_ok i" and room: "sum_list (map op_need ops) + site_need site < kSmallBuffer"
    and no: "NUL \<notin> set (concat (map op_text ops))"
  defines "line \<equiv> log_line mac (site_tm (g_logTimeZone g) site) (g_logTimeZone g) site ops"
  shows "\<exists>l' mem k. c_strlen (ls_stack2 site) = Some k \<and> c_strlen mem = Some (length line + k)
     \<and> length line < kSmallBuffer \<and> take (length line) mem = line \<and> locals_ok (g_logTimeZone g) (ls_gettid site) l'
     \<and> log_statement (setOutput (asyncOutput junk) g) mac site ops (l, o') =
         map_option (\<lambda>s'. if macro_level mac = FATAL then (Aborted, l', g_flush g (o'\<lparr>io_rest := s'\<rparr>))
                          else (Goes_on, l', o'\<lparr>io_rest := s'\<rparr>))
           (async_append junk mem (int (length line)) (io_rest o'))"
proof -
  let ?g = "setOutput (asyncOutput junk) g" and ?tz = "g_logTimeZone g"
  have f: "logLevel ?g = logLevel g" "g_logTimeZone ?g = ?tz" "g_output ?g = asyncOutput junk" "g_flush ?g = g_flush g"
    by (simp_all add: setOutput_def logLevel_def)
  obtain l1 where l1: "time_ready ?tz site (site_tm ?tz site) l l1"
      "locals_ok ?tz (ls_gettid site) (l1\<lparr>lg_thread := site_thread site l1\<rparr>)"
    using time_ready_fresh [OF site l] by blast
  obtain k where k: "c_strlen (ls_stack2 site) = Some k"
    using site c_strlen_None_iff [of "ls_stack2 site"] by (auto simp: site_ok_def)
  have "macro_guard mac (logLevel ?g)" "site_ok (g_logTimeZone ?g) site"
    "time_ready (g_logTimeZone ?g) site (site_tm ?tz site) l l1" using guard site l1(1) by (simp_all add: f)
  from log_statement_chain [OF this ops, of o', unfolded f, folded line_def] room k obtain mem where
    mem: "length line < kSmallBuffer" "take (length line) mem = line"
      "take (Suc k) (drop (length line) mem) = take k (ls_stack2 site) @ [NUL]"
      "log_statement ?g mac site ops (l, o') =
         map_option (\<lambda>o1. (if macro_level mac = FATAL then Aborted else Goes_on,
             l1\<lparr>lg_thread := site_thread site l1\<rparr>, if macro_level mac = FATAL then g_flush g o1 else o1))
           (asyncOutput junk mem (int (length line)) o')" by auto
  have "NUL \<notin> set line" unfolding line_def using site no by (rule log_line_no_NUL)
  from c_strlen_behind [OF mem(2) refl this k mem(3)] have n: "c_strlen mem = Some (length line + k)" .
  have "log_statement ?g mac site ops (l, o') =
         map_option (\<lambda>s'. if macro_level mac = FATAL then (Aborted, l1\<lparr>lg_thread := site_thread site l1\<rparr>, g_flush g (o'\<lparr>io_rest := s'\<rparr>))
                          else (Goes_on, l1\<lparr>lg_thread := site_thread site l1\<rparr>, o'\<lparr>io_rest := s'\<rparr>))
           (async_append junk mem (int (length line)) (io_rest o'))"
    unfolding mem(4) asyncOutput_def option.map_comp by (cases "macro_level mac = FATAL") (simp_all add: comp_def)
  with k n mem(1,2) l1(2) show ?thesis by blast
qed

text \<open>From the statement to the logging thread: a statement that returns has extended the logger's run by one \<open>append\<close>
  of its line, and one that does not return has written past a buffer.\<close>

lemma log_statement_async:
  assumes "macro_guard mac (logLevel g)" and "site_ok (g_logTimeZone g) site" and "locals_ok (g_logTimeZone g) (ls_gettid site) l"
    and "\<forall>i\<in>set ops. op_ok i" and "sum_list (map op_need ops) + site_need site < kSmallBuffer"
    and "NUL \<notin> set (concat (map op_text ops))" and "g_flush g = defaultFlush"
    and inv: "async_inv (io_rest o')" and junk: "length junk = kLargeBuffer"
  defines "line \<equiv> log_line mac (site_tm (g_logTimeZone g) site) (g_logTimeZone g) site ops"
  shows "case log_statement (setOutput (asyncOutput junk) g) mac site ops (l, o') of
      None \<Rightarrow> strcpy_overruns site (length line) (io_rest o')
    | Some (e, l', o1) \<Rightarrow> \<not> strcpy_overruns site (length line) (io_rest o')
        \<and> e = (if macro_level mac = FATAL then Aborted else Goes_on)
        \<and> locals_ok (g_logTimeZone g) (ls_gettid site) l'
        \<and> (\<exists>mem. async_step (io_rest o') (EvAppend junk mem (length line)) (io_rest o1) \<and> accepted mem (length line) = line)
        \<and> async_inv (io_rest o1) \<and> same_back (io_rest o') (io_rest o1)
        \<and> written (io_rest o1) = written (io_rest o') \<and> pending (io_rest o1) = pending (io_rest o') @ line"
proof -
  let ?n = "length line" and ?s = "io_rest o'"
  from log_to_async [OF assms(1-6), folded line_def, of junk o'] obtain l' mem k where
    m: "c_strlen (ls_stack2 site) = Some k" "c_strlen mem = Some (?n + k)" "?n < kSmallBuffer" "take ?n mem = line"
      "locals_ok (g_logTimeZone g) (ls_gettid site) l'"
      "log_statement (setOutput (asyncOutput junk) g) mac site ops (l, o') =
         map_option (\<lambda>s'. if macro_level mac = FATAL then (Aborted, l', g_flush g (o'\<lparr>io_rest := s'\<rparr>))
                          else (Goes_on, l', o'\<lparr>io_rest := s'\<rparr>)) (async_append junk mem (int ?n) ?s)" by blast
  have n: "?n \<le> ?n + k" "?n < 2 ^ 31" "?n < kLargeBuffer" using m(3) by (simp_all add: kSmallBuffer_def kLargeBuffer_def)
  have front: "front_ok ?s" using inv by (simp add: async_inv_def)
  have none: "async_append junk mem (int ?n) ?s = None \<longleftrightarrow> strcpy_overruns site ?n ?s"
    using async_append_None [OF front junk m(2) n(1,2)] by (simp add: strcpy_overruns_def m(1))
  show ?thesis
  proof (cases "async_append junk mem (int ?n) ?s")
    case None
    then show ?thesis using none by (simp add: m(6))
  next
    case (Some s')
    note keeps = async_append_keeps [OF inv junk m(2) n(1,2) Some]
    have "async_step ?s (EvAppend junk mem ?n) s'" by (rule async_step.append [OF junk m(2) n(1,2) Some])
    moreover have "accepted mem ?n = line" using n(3) m(4) by (simp add: accepted_def)
    ultimately show ?thesis using keeps none Some m(5) assms(7)
      by (cases "macro_level mac = FATAL") (auto simp: m(6) defaultFlush_def)
  qed
qed

section \<open>Properties\<close>

text \<open>C39: The last words are lost.  With the asynchronous logger as output and the default flush function, a fatal
  statement aborts the process while its own line, and everything else the logger has accepted and not yet
  written, is only in memory: nothing has been added to the log file.  The bytes on the stack behind the newline
  are arbitrary; the statement has no result exactly where they make \<open>strcpy\<close> write past the logger's buffer.\<close>

theorem fatal_line_not_written:
  assumes "async_run (AsyncLogging_new basename rollSize flushInterval j1 j2 w) es (io_rest o')"
    and "world_ok w" and "length j1 = kLargeBuffer" and "length j2 = kLargeBuffer" and "length junk = kLargeBuffer"
    and "macro_guard mac (logLevel g)" and "macro_level mac = FATAL" and "g_flush g = defaultFlush"
    and "site_ok (g_logTimeZone g) site" and "locals_ok (g_logTimeZone g) (ls_gettid site) l"
    and "\<forall>i\<in>set ops. op_ok i" and "sum_list (map op_need ops) + site_need site < kSmallBuffer"
    and "NUL \<notin> set (concat (map op_text ops))"
  shows "case log_statement (setOutput (asyncOutput junk) g) mac site ops (l, o') of
      None \<Rightarrow> strcpy_overruns site (length (log_line mac (site_tm (g_logTimeZone g) site) (g_logTimeZone g) site ops)) (io_rest o')
    | Some (e, l', o1) \<Rightarrow>
        \<not> strcpy_overruns site (length (log_line mac (site_tm (g_logTimeZone g) site) (g_logTimeZone g) site ops)) (io_rest o')
        \<and> e = Aborted \<and> written (io_rest o1) = written (io_rest o')
        \<and> pending (io_rest o1) = pending (io_rest o') @ log_line mac (site_tm (g_logTimeZone g) site) (g_logTimeZone g) site ops"
proof -
  have inv: "async_inv (io_rest o')" using async_run_inv [OF assms(1)] async_new_inv(1) [OF assms(2-4)] by blast
  from log_statement_async [OF assms(6,9-13,8) inv assms(5)] assms(7) show ?thesis
    by (auto split: option.splits)
qed

subsection \<open>At a concrete logger\<close>

lemma started_run: "async_run (AsyncLogging_new ''log'' 500 3 junk_buffer junk_buffer demo_world) ([] @ [EvStart]) (async_start demo_logger)"
proof -
  have "al_pc demo_logger = Unborn" by (rule demo_logger_inv)
  from run_snoc [OF run_nil async_step.start [OF this]] show ?thesis by (simp add: demo_logger_def)
qed

lemma started_empty: "written (async_start demo_logger) = []" "pending (async_start demo_logger) = []"
  using demo_logger_inv(2,3)
  by (simp_all add: async_start_def written_def pending_def front_text_def split: option.splits)

lemma demo_ops:
  "\<forall>i\<in>set [InsString ''hi'']. op_ok i" "sum_list (map op_need [InsString ''hi'']) + site_need (demo_site ''f'') < kSmallBuffer"
  "NUL \<notin> set (concat (map op_text [InsString ''hi'']))"
  by (simp_all add: op_ok_def op_need_def c_string_def site_need_def demo_site_def kSmallBuffer_def)

lemma demo_globals:
  "g_logTimeZone log_globals_new = TimeZone_none" "logLevel log_globals_new = INFO" "g_flush log_globals_new = defaultFlush"
  "site_tm TimeZone_none (demo_site ''f'') = gmtime_r 1620982782"
  by (simp_all add: log_globals_new_def logLevel_def site_tm_none demo_site_def)

lemma demo_hi_line:
  "log_line LOG_WARN (gmtime_r 1620982782) TimeZone_none (demo_site ''f'') [InsString ''hi'']
     = ''20210514 08:59:42.000123Z  4711 WARN  hi - main.cc:27'' @ [CHR 0x0A]"
  "log_line LOG_FATAL (gmtime_r 1620982782) TimeZone_none (demo_site ''f'') [InsString ''hi'']
     = ''20210514 08:59:42.000123Z  4711 FATAL hi - main.cc:27'' @ [CHR 0x0A]"
  by (simp_all add: log_line_defs demo_site_def demo_tm demo_numbers demo_basename c_string_def)

lemma demo_rest [simp]: "io_rest (demo_io s) = s"
  by (simp add: demo_io_def)

lemma demo_no_overrun: "\<not> strcpy_overruns (demo_site ''f'') n s"
  by (simp add: strcpy_overruns_def demo_site_def)

theorem fatal_line_not_written_witness:
  "\<exists>l' o1. log_statement (setOutput (asyncOutput junk_buffer) log_globals_new) LOG_FATAL (demo_site ''f'') [InsString ''hi'']
        (log_locals_new thread_locals_new, demo_io (async_start demo_logger)) = Some (Aborted, l', o1)
     \<and> written (io_rest o1) = []
     \<and> pending (io_rest o1) = ''20210514 08:59:42.000123Z  4711 FATAL hi - main.cc:27'' @ [CHR 0x0A]"
proof -
  have m: "macro_guard LOG_FATAL INFO" "macro_level LOG_FATAL = FATAL" "NUL \<notin> set ''f''" by simp_all
  from fatal_line_not_written [of "''log''" 500 3 junk_buffer junk_buffer demo_world "[] @ [EvStart]"
      "demo_io (async_start demo_logger)" junk_buffer LOG_FATAL log_globals_new "demo_site ''f''"
      "log_locals_new thread_locals_new" "[InsString ''hi'']", unfolded demo_globals demo_rest,
      OF started_run demo_world_ok length_junk_buffer length_junk_buffer length_junk_buffer m(1,2) refl
        demo_site_ok [OF m(3)] locals_ok_new demo_ops, unfolded demo_hi_line started_empty append_Nil]
  show ?thesis using demo_no_overrun by (auto split: option.splits)
qed

end
