(* ===== verification/Delivery.thy ===== *)
theory Delivery
  imports AsyncLogging
begin

text \<open>Progress of the asynchronous logger: how long an accepted message can stay in the buffers while the
  logging thread runs, counted in steps of that thread.\<close>

section \<open>The log file is flushed between the steps\<close>

lemma lf_durable_Nil: "lf_output s = [] \<Longrightarrow> lf_durable s = []"
  by (auto simp: lf_output_def lf_durable_def split: option.splits)

lemma durable_written_Nil: "written s = [] \<Longrightarrow> durable s = []"
  by (auto simp: written_def durable_def lf_durable_Nil split: option.splits)

lemma be_exchange_sink [simp]:
  "al_output (be_exchange s) = al_output s" "al_world (be_exchange s) = al_world s"
  by (simp_all add: be_exchange_def Let_def)

lemma same_sink:
  assumes "al_output s' = al_output s" and "al_world s' = al_world s"
  shows "written s' = written s" and "durable s' = durable s"
  using assms by (simp_all add: written_def durable_def split: option.splits)

lemma async_step_flushed:
  assumes "async_step s e s'" and "async_inv s" and "durable s = written s"
  shows "durable s' = written s'"
  using assms(1)
proof cases
  case start
  then show ?thesis using same_sink [of "async_start s" s] assms(3) by (simp add: async_start_def)
next
  case (append junk mem m n)
  then have "same_back s s'" using async_append_keeps [OF assms(2) append(2-6)] by auto
  then show ?thesis using same_sink [of s' s] assms(3) by (simp add: same_back_def)
next
  case (backend junk1 junk2 tv)
  show ?thesis
  proof (cases "al_pc s")
    case Starting
    then have "written s = []" using assms(2) by (simp add: async_inv_def back_ok_def written_def)
    moreover have "written s' = written s"
      using backend_step_ok [OF assms(2) _ backend(2,3), of tv] backend(4) Starting by auto
    ultimately show ?thesis using durable_written_Nil by simp
  next
    case Testing
    then have "sink_ok s" "be_test s = Some s'" using assms(2) backend(4) by (auto simp: async_inv_def back_ok_def backend_step_def)
    with out.sync_ok [of s] assms(3) show ?thesis
      by (auto simp: be_test_def split: if_splits)
  next
    case Writing
    then show ?thesis using backend_step_ok [OF assms(2) _ backend(2,3), of tv] backend(4) by auto
  next
    case Locking
    then have "s' = be_lock s" using backend(4) by (simp add: backend_step_def)
    then show ?thesis using same_sink [of s' s] assms(3) by (simp add: be_lock_def split: if_splits)
  next
    case Waiting
    then have "s' = be_exchange s" using backend(4) by (simp add: backend_step_def)
    then show ?thesis using same_sink [of s' s] assms(3) by simp
  qed (use backend(4) in \<open>simp_all add: backend_step_def\<close>)
next
  case stop
  then show ?thesis using same_sink [of "async_stop s" s] assms(3) by (simp add: async_stop_def)
qed

lemma async_run_flushed:
  "async_run s es s' \<Longrightarrow> async_inv s \<Longrightarrow> durable s = written s \<Longrightarrow> durable s' = written s'"
  by (induction rule: async_run.induct) (auto intro: async_step_flushed async_run_inv)

section \<open>How far a message is from the file\<close>

text \<open>The steps of the logging thread until the log file has received the first \<open>n\<close> characters of all that was
  accepted, at most.\<close>

definition to_go :: "nat \<Rightarrow> async \<Rightarrow> nat" where
  "to_go n s =
     (if n \<le> length (written s) then 0
      else case al_pc s of
        Writing \<Rightarrow> if n \<le> length (written s) + length (text_of (al_toWrite s)) then 1 else 5
      | Waiting \<Rightarrow> 2 | Locking \<Rightarrow> 3 | Testing \<Rightarrow> 4 | Starting \<Rightarrow> 5 | _ \<Rightarrow> 6)"

definition at_work :: "nat \<Rightarrow> async \<Rightarrow> bool" where
  "at_work n s \<longleftrightarrow> async_inv s \<and> al_running s \<and> al_pc s \<notin> {Unborn, Finished} \<and> n \<le> length (written s @ pending s)"

lemma to_go_le: "al_pc s \<notin> {Unborn, Finished} \<Longrightarrow> to_go n s \<le> 5"
  by (cases "al_pc s") (auto simp: to_go_def)

lemma async_step_to_go:
  assumes "async_step s e s'" and "at_work n s" and "e \<noteq> EvStop" and "al_stderr s' = []"
  shows "at_work n s' \<and> to_go n s' \<le> to_go n s - (if is_backend e then 1 else 0)"
proof -
  have inv: "async_inv s" and run: "al_running s" and pc: "al_pc s \<notin> {Unborn, Finished}"
    and n: "n \<le> length (written s @ pending s)" using assms(2) by (simp_all add: at_work_def)
  have inv': "async_inv s'" by (rule async_step_inv [OF assms(1) inv])
  have n': "n \<le> length (written s' @ pending s')"
    using async_step_text [OF assms(1) inv assms(4) refl] n by simp
  from assms(1) show ?thesis
  proof cases
    case start
    then show ?thesis using pc by simp
  next
    case (append junk mem m k)
    then have "same_back s s'" using async_append_keeps [OF inv append(2-6)] by auto
    then have "al_pc s' = al_pc s" "al_running s' = al_running s" "al_toWrite s' = al_toWrite s" "written s' = written s"
      using same_sink(1) [of s' s] by (simp_all add: same_back_def)
    then show ?thesis using inv' n' run pc append(1) by (simp add: at_work_def to_go_def)
  next
    case stop
    then show ?thesis using assms(3) by simp
  next
    case (backend junk1 junk2 tv)
    have b: "al_pc s' = next_pc s" "al_running s' = al_running s"
      "al_pc s = Writing \<Longrightarrow> written s' = written s @ round_text tv s \<and> (25 < length (al_toWrite s) \<longrightarrow> drop_notice tv (length (al_toWrite s)) = [])"
      "al_pc s \<noteq> Writing \<Longrightarrow> written s' = written s"
      using backend_step_ok [OF inv pc backend(2,3), of tv] backend(4) assms(4) by (auto split: if_splits)
    have work: "at_work n s'"
      using inv' n' run pc b(1,2) by (cases "al_pc s") (auto simp: at_work_def next_pc_def)
    have "to_go n s' \<le> to_go n s - 1"
    proof (cases "al_pc s")
      case Writing
      then have "written s' = written s @ text_of (al_toWrite s)"
        using b(3) by (auto simp: round_text_def drop_notice_nonempty)
      then show ?thesis using b(1) Writing by (auto simp: to_go_def next_pc_def)
    next
      case Waiting
      have "s' = be_exchange s" using backend(4) Waiting by (simp add: backend_step_def)
      moreover have "al_toWrite s = []" using inv Waiting by (simp add: async_inv_def back_ok_def)
      ultimately have "text_of (al_toWrite s') = pending s"
        using be_exchange_inv [OF inv] Waiting by (auto simp: pending_def)
      then show ?thesis using b(1,4) Waiting n by (auto simp: to_go_def next_pc_def)
    next
      case Locking
      have s': "s' = be_lock s" using backend(4) Locking by (simp add: backend_step_def)
      show ?thesis
      proof (cases "al_buffers s = []")
        case True
        then show ?thesis using b(1,4) Locking by (auto simp: to_go_def next_pc_def)
      next
        case False
        moreover have "al_toWrite s = []" using inv Locking by (simp add: async_inv_def back_ok_def)
        ultimately have "text_of (al_toWrite s') = pending s"
          using be_exchange_inv [OF inv] Locking s' by (auto simp: pending_def be_lock_def)
        then show ?thesis using b(1,4) Locking False n by (auto simp: to_go_def next_pc_def)
      qed
    qed (use b(1,4) run pc in \<open>auto simp: to_go_def next_pc_def\<close>)
    then show ?thesis using work backend(1) by simp
  qed
qed

lemma async_step_stderr:
  assumes "async_step s e s'" and "async_inv s" and "al_stderr s' = []"
  shows "al_stderr s = []"
  using async_step_text [OF assms refl] by simp

lemma async_run_stderr:
  "async_run s es s' \<Longrightarrow> async_inv s \<Longrightarrow> al_stderr s' = [] \<Longrightarrow> al_stderr s = []"
  by (induction rule: async_run.induct) (auto dest: async_step_stderr async_run_inv)

lemma async_run_to_go:
  assumes "async_run s es s'" and "at_work n s" and "EvStop \<notin> set es" and "al_stderr s' = []"
  shows "at_work n s' \<and> to_go n s' \<le> to_go n s - length (filter is_backend es)"
  using assms
proof (induction rule: async_run.induct)
  case (run_nil s)
  then show ?case by simp
next
  case (run_snoc s es s1 e s2)
  have "async_inv s1" using run_snoc async_run_inv by (auto simp: at_work_def)
  then have "al_stderr s1 = []" using async_step_stderr [OF run_snoc.hyps(2)] run_snoc.prems by blast
  then have "at_work n s1" "to_go n s1 \<le> to_go n s - length (filter is_backend es)" using run_snoc by auto
  with async_step_to_go [OF run_snoc.hyps(2), of n] run_snoc.prems show ?case by (auto split: if_splits)
qed

lemma async_run_text_grows:
  assumes "async_run s es s'" and "async_inv s" and "al_stderr s' = []"
  shows "written s' @ pending s' = (written s @ pending s) @ concat (map accepted_by es)"
  using assms
proof (induction rule: async_run.induct)
  case (run_nil s)
  then show ?case by simp
next
  case (run_snoc s es s1 e s2)
  have i: "async_inv s1" using run_snoc async_run_inv by blast
  from async_step_text [OF run_snoc.hyps(2) i run_snoc.prems(2) refl] run_snoc show ?case by simp
qed

lemma async_run_delivers:
  assumes "async_run s es' s'" and "async_inv s" and "durable s = written s"
    and "al_running s" and "al_pc s \<notin> {Unborn, Finished}"
    and "EvStop \<notin> set es'" and "5 \<le> length (filter is_backend es')" and "al_stderr s' = []"
  shows "\<exists>more. durable s' = (written s @ pending s) @ more"
proof -
  let ?t = "written s @ pending s"
  have "at_work (length ?t) s" using assms(2,4,5) by (simp add: at_work_def)
  from async_run_to_go [OF assms(1) this assms(6,8)] to_go_le [OF assms(5), of "length ?t"] assms(7)
  have "to_go (length ?t) s' = 0" by simp
  then have len: "length ?t \<le> length (written s')"
    by (auto simp: to_go_def split: if_splits backend_pc.splits)
  have "written s' @ pending s' = ?t @ concat (map accepted_by es')"
    by (rule async_run_text_grows [OF assms(1,2,8)])
  then have "take (length ?t) (written s') = ?t" using len by (metis append_eq_conv_conj take_append take_all_iff diff_is_0_eq take_0 append_Nil2)
  then obtain more where more: "written s' = ?t @ more" by (metis append_take_drop_id)
  have "durable s' = written s'" by (rule async_run_flushed [OF assms(1-3)])
  with more show ?thesis by simp
qed

lemma async_run_new_flushed:
  assumes "async_run (AsyncLogging_new basename rollSize flushInterval j1 j2 w) es s"
    and "world_ok w" and "length j1 = kLargeBuffer" and "length j2 = kLargeBuffer"
  shows "async_inv s" and "durable s = written s"
  using async_run_inv [OF assms(1)] async_run_flushed [OF assms(1)] async_new_inv [OF assms(2-4)] durable_written_Nil
  by metis+

text \<open>Every accepted message reaches the file.  From any reachable state in which the logging thread is at work,
  however many appends come in between: as long as \<open>stop\<close> is not called and no messages are dropped, after
  five further steps of the logging thread everything that had been accepted is in the log file, flushed,
  in the order of acceptance.\<close>

theorem async_delivers:
  assumes "async_run (AsyncLogging_new basename rollSize flushInterval j1 j2 w) es s"
    and "world_ok w" and "length j1 = kLargeBuffer" and "length j2 = kLargeBuffer"
    and "al_running s" and "al_pc s \<notin> {Unborn, Finished}"
    and "async_run s es' s'" and "EvStop \<notin> set es'" and "5 \<le> length (filter is_backend es')" and "al_stderr s' = []"
  shows "\<exists>more. durable s' = (written s @ pending s) @ more"
  by (rule async_run_delivers [OF assms(7) async_run_new_flushed [OF assms(1-4)] assms(5,6,8-10)])

section \<open>Short runs drop nothing\<close>

definition queued :: "async \<Rightarrow> nat" where
  "queued s = length (al_buffers s) + length (al_toWrite s)"

lemma be_write_queued:
  assumes "be_write tv s = Some s'"
  shows "queued s' \<le> queued s"
proof -
  obtain s1 s2 s3 s4 where s: "be_drop tv s = Some s1" "fold_opt be_write_one (al_toWrite s1) s1 = Some s2"
    "be_recycle s2 = Some s3" "on_output LogFile_flush s3 = Some s4" "s' = s4\<lparr>al_pc := Testing\<rparr>"
    using assms by (auto simp: be_write_def bind_eq_Some_conv split: if_splits)
  have "al_buffers s1 = al_buffers s"
    using s(1) by (auto simp: be_drop_def Let_def split: if_splits dest!: on_output_only_sink only_sink_simps(6))
  moreover have "al_buffers s2 = al_buffers s1" by (rule only_sink_simps(6) [OF fold_write_only_sink [OF s(2)]])
  moreover have "al_buffers s3 = al_buffers s2" "al_toWrite s3 = []"
    using s(3) by (auto simp: be_recycle_def Let_def bind_eq_Some_conv)
  moreover note only_sink_simps(1,6) [OF on_output_only_sink [OF s(4)]]
  ultimately show ?thesis using s(5) by (simp add: queued_def)
qed

lemma backend_queued:
  assumes "backend_step junk1 junk2 tv s = Some s'"
  shows "queued s' \<le> Suc (queued s)"
proof (cases "al_pc s")
  case Writing
  then show ?thesis using assms be_write_queued by (fastforce simp: backend_step_def)
next
  case Testing
  then have "be_test s = Some s'" using assms by (simp add: backend_step_def)
  then show ?thesis using only_sink_simps(1,6) [OF on_output_only_sink, of LogFile_flush s]
    by (auto simp: be_test_def queued_def split: if_splits)
qed (use assms in \<open>auto simp: backend_step_def queued_def be_start_def be_lock_def be_exchange_def Let_def
      split: if_splits option.splits\<close>)

lemma async_step_queued:
  assumes "async_step s e s'"
  shows "queued s' \<le> Suc (queued s)"
  using assms
proof cases
  case (append junk mem m n)
  then show ?thesis by (auto simp: async_append_def queued_def Let_def split: option.splits if_splits)
qed (use backend_queued in \<open>auto simp: async_start_def async_stop_def queued_def\<close>)

lemma async_step_quiet:
  assumes "async_step s e s'" and "async_inv s" and "queued s \<le> 25" and "al_stderr s = []"
  shows "al_stderr s' = []"
  using assms(1)
proof cases
  case (append junk mem m n)
  then have "same_back s s'" using async_append_keeps [OF assms(2) append(2-6)] by auto
  then show ?thesis using assms(4) by (simp add: same_back_def)
next
  case (backend junk1 junk2 tv)
  then have "al_pc s \<notin> {Unborn, Finished}" by (auto simp: backend_step_def)
  then show ?thesis
    using backend_step_ok [OF assms(2) _ backend(2,3), of tv] backend(4) assms(3,4)
    by (auto simp: queued_def split: if_splits)
qed (use assms(4) in \<open>simp_all add: async_start_def async_stop_def\<close>)

lemma async_run_queued: "async_run s es s' \<Longrightarrow> queued s' \<le> queued s + length es"
  by (induction rule: async_run.induct) (auto dest!: async_step_queued)

lemma async_run_quiet:
  assumes "async_run s es s'" and "async_inv s" and "queued s + length es \<le> 25" and "al_stderr s = []"
  shows "al_stderr s' = []"
  using assms
proof (induction rule: async_run.induct)
  case (run_snoc s es s1 e s2)
  have "async_inv s1" using run_snoc async_run_inv by blast
  moreover have "queued s1 \<le> 25" using async_run_queued [OF run_snoc.hyps(1)] run_snoc.prems by simp
  ultimately show ?case using async_step_quiet [OF run_snoc.hyps(2)] run_snoc by simp
qed

text \<open>The logging thread can always make some number of steps.\<close>

lemma backend_runs:
  assumes "async_run s0 es s" and "async_inv s" and "al_running s" and "al_pc s \<notin> {Unborn, Finished}"
  shows "\<exists>s'. async_run s0 (es @ replicate k (EvBackend junk_buffer junk_buffer (0, 0))) s' \<and> async_inv s'
    \<and> al_running s' \<and> al_pc s' \<notin> {Unborn, Finished}"
proof (induction k)
  case 0
  then show ?case using assms by auto
next
  case (Suc k)
  then obtain s1 where s1: "async_run s0 (es @ replicate k (EvBackend junk_buffer junk_buffer (0, 0))) s1" "async_inv s1"
    "al_running s1" "al_pc s1 \<notin> {Unborn, Finished}" by blast
  obtain s2 where "async_run s0 ((es @ replicate k (EvBackend junk_buffer junk_buffer (0, 0))) @ [EvBackend junk_buffer junk_buffer (0, 0)]) s2"
    "async_inv s2" "al_pc s2 = next_pc s1" "al_running s2 = al_running s1"
    by (rule run_backend [OF s1(1,2,4)]) blast
  moreover have "next_pc s1 \<notin> {Unborn, Finished}" using s1(3,4) by (cases "al_pc s1") (auto simp: next_pc_def)
  ultimately show ?case using s1(3) by (auto simp: replicate_append_same simp flip: replicate_Suc)
qed

theorem async_delivers_witness:
  "\<exists>es s more. async_run demo_logger es s \<and> pending s = ''hello'' \<and> written s = []
     \<and> (\<exists>es' s'. async_run s es' s' \<and> durable s' = ''hello'' @ more)"
proof -
  obtain s where s: "async_run demo_logger [EvStart, ev_hello, EvBackend junk_buffer junk_buffer (0, 0)] s" "async_inv s"
    "al_pc s = Testing" "al_running s" "al_stderr s = []" "written s = []" "pending s = ''hello''"
    by (rule demo_run_testing)
  have at: "al_pc s \<notin> {Unborn, Finished}" using s(3) by simp
  define es' where "es' = replicate 5 (EvBackend junk_buffer junk_buffer (0, 0))"
  obtain s' where s': "async_run s es' s'"
    using backend_runs [OF run_nil s(2,4) at, of 5] by (auto simp: es'_def)
  have "queued demo_logger = 0" by (simp add: queued_def demo_logger_def AsyncLogging_new_def)
  then have "queued s + length es' \<le> 25" using async_run_queued [OF s(1)] by (simp add: es'_def)
  from async_run_quiet [OF s' s(2) this s(5)] have "al_stderr s' = []" .
  with async_delivers [OF s(1) [unfolded demo_logger_def] demo_world_ok length_junk_buffer length_junk_buffer s(4) at s'] s(6,7)
  obtain more where "durable s' = ''hello'' @ more" by (auto simp: es'_def)
  with s(1,6,7) s' show ?thesis by blast
qed

end
