(* ===== verification/Process.thy ===== *)
theory Process
  imports Pipeline Delivery
begin

text \<open>The whole process: any number of threads that log, the one asynchronous logger behind them, and its logging
  thread.  The state holds the thread-local variables of all threads; a step is one log statement of one
  thread, a step of the logging thread, the start or stop of the logger, or the birth of a thread.\<close>

section \<open>The process\<close>

record process =
  pr_locals :: "int \<Rightarrow> log_locals"
  pr_io :: "async io"
  pr_aborted :: bool

abbreviation logger_of :: "process \<Rightarrow> async" where
  "logger_of p \<equiv> io_rest (pr_io p)"

definition process_new :: "(int \<Rightarrow> log_locals) \<Rightarrow> FILE \<Rightarrow> async \<Rightarrow> process" where
  "process_new locals out s = \<lparr>pr_locals = locals, pr_io = \<lparr>io_stdout = out, io_rest = s\<rparr>, pr_aborted = False\<rparr>"

text \<open>A thread executes a log statement; the thread is the one whose id the statement's call of \<open>gettid\<close> gives.\<close>

definition process_says ::
  "async log_globals \<Rightarrow> bytes \<Rightarrow> log_macro \<Rightarrow> log_site \<Rightarrow> ls_op list \<Rightarrow> process \<Rightarrow> process option" where
  "process_says g junk mac site ops p =
     map_option (\<lambda>(e, l, o'). p\<lparr>pr_locals := (pr_locals p)(ls_gettid site := l), pr_io := o', pr_aborted := (e = Aborted)\<rparr>)
       (log_statement (setOutput (asyncOutput junk) g) mac site ops (pr_locals p (ls_gettid site), pr_io p))"

datatype process_event =
    Says bytes log_macro log_site "ls_op list"
  | Logging_thread bytes bytes "int \<times> int"
  | Starts
  | Stops
  | Thread_begins int

fun logger_event :: "process_event \<Rightarrow> async_event option" where
  "logger_event (Logging_thread junk1 junk2 tv) = Some (EvBackend junk1 junk2 tv)"
| "logger_event Starts = Some EvStart"
| "logger_event Stops = Some EvStop"
| "logger_event _ = None"

fun is_logging_thread :: "process_event \<Rightarrow> bool" where
  "is_logging_thread (Logging_thread junk1 junk2 tv) = True"
| "is_logging_thread _ = False"

inductive process_step :: "async log_globals \<Rightarrow> process \<Rightarrow> process_event \<Rightarrow> process \<Rightarrow> bool" for g where
  says: "\<not> pr_aborted p \<Longrightarrow> length junk = kLargeBuffer \<Longrightarrow> process_says g junk mac site ops p = Some p' \<Longrightarrow>
     process_step g p (Says junk mac site ops) p'"
| logger: "\<not> pr_aborted p \<Longrightarrow> logger_event e = Some ev \<Longrightarrow> async_step (logger_of p) ev s' \<Longrightarrow>
     process_step g p e (p\<lparr>pr_io := (pr_io p)\<lparr>io_rest := s'\<rparr>\<rparr>)"
| thread: "\<not> pr_aborted p \<Longrightarrow>
     process_step g p (Thread_begins n) (p\<lparr>pr_locals := (pr_locals p)(n := log_locals_new thread_locals_new)\<rparr>)"

inductive process_run :: "async log_globals \<Rightarrow> process \<Rightarrow> process_event list \<Rightarrow> process \<Rightarrow> bool" for g where
  nil: "process_run g p [] p"
| snoc: "process_run g p es p1 \<Longrightarrow> process_step g p1 e p2 \<Longrightarrow> process_run g p (es @ [e]) p2"

inductive_cases process_step_saysE: "process_step g p (Says junk mac site ops) p'"

text \<open>What the statements of a run are about: their lines, one after the other.\<close>

fun line_of :: "async log_globals \<Rightarrow> process_event \<Rightarrow> bytes" where
  "line_of g (Says junk mac site ops) =
     (if macro_guard mac (logLevel g)
      then log_line mac (site_tm (g_logTimeZone g) site) (g_logTimeZone g) site ops else [])"
| "line_of g _ = []"

text \<open>A statement whose arguments are proper C strings and whose message fits into the stream, together with whatever
  bytes follow its one-character arguments on the stack up to the first NUL (\<open>site_ok\<close> asks that there is one,
  nothing else is known of them).\<close>

fun fits :: "async log_globals \<Rightarrow> process_event \<Rightarrow> bool" where
  "fits g (Says junk mac site ops) \<longleftrightarrow>
     site_ok (g_logTimeZone g) site \<and> (\<forall>i\<in>set ops. op_ok i) \<and> sum_list (map op_need ops) + site_need site < kSmallBuffer
     \<and> NUL \<notin> set (concat (map op_text ops))"
| "fits g _ \<longleftrightarrow> True"

definition process_ok :: "async log_globals \<Rightarrow> process \<Rightarrow> bool" where
  "process_ok g p \<longleftrightarrow> async_inv (logger_of p) \<and> (\<forall>n. locals_ok (g_logTimeZone g) n (pr_locals p n))"

section \<open>One step\<close>

lemma io_rest_defaultFlush [simp]: "io_rest (defaultFlush o') = io_rest o'"
  by (simp add: defaultFlush_def)

text \<open>A statement is, for the logger, one append of its line, or nothing when the level is filtered.  It has no result
  exactly where the bytes behind its newline make \<open>strcpy\<close> write past the logger's buffer.\<close>

definition says_overruns :: "async log_globals \<Rightarrow> log_macro \<Rightarrow> log_site \<Rightarrow> ls_op list \<Rightarrow> process \<Rightarrow> bool" where
  "says_overruns g mac site ops p \<longleftrightarrow> macro_guard mac (logLevel g)
     \<and> strcpy_overruns site (length (log_line mac (site_tm (g_logTimeZone g) site) (g_logTimeZone g) site ops)) (logger_of p)"

lemma says_ok:
  assumes "process_ok g p" and "fits g (Says junk mac site ops)" and "length junk = kLargeBuffer" and "g_flush g = defaultFlush"
  shows "case process_says g junk mac site ops p of
      None \<Rightarrow> says_overruns g mac site ops p
    | Some p' \<Rightarrow> \<not> says_overruns g mac site ops p \<and> process_ok g p'
        \<and> (\<exists>aes. async_run (logger_of p) aes (logger_of p') \<and> filter is_backend aes = [] \<and> EvStop \<notin> set aes \<and> length aes \<le> 1
            \<and> concat (map accepted_by aes) = line_of g (Says junk mac site ops))
        \<and> same_back (logger_of p) (logger_of p') \<and> pr_aborted p' = (macro_guard mac (logLevel g) \<and> macro_level mac = FATAL)"
proof (cases "macro_guard mac (logLevel g)")
  case False
  then have "process_says g junk mac site ops p
      = Some (p\<lparr>pr_locals := (pr_locals p)(ls_gettid site := pr_locals p (ls_gettid site)), pr_io := pr_io p, pr_aborted := False\<rparr>)"
    by (simp add: process_says_def log_statement_def setOutput_def logLevel_def)
  moreover have "async_run (logger_of p) [] (logger_of p)" by (rule run_nil)
  ultimately show ?thesis using False assms(1)
    by (auto simp: says_overruns_def process_ok_def same_back_def intro!: exI [of _ "[]"])
next
  case True
  let ?line = "log_line mac (site_tm (g_logTimeZone g) site) (g_logTimeZone g) site ops"
  let ?st = "log_statement (setOutput (asyncOutput junk) g) mac site ops (pr_locals p (ls_gettid site), pr_io p)"
  have inv: "async_inv (logger_of p)" and l: "locals_ok (g_logTimeZone g) n (pr_locals p n)" for n
    using assms(1) by (simp_all add: process_ok_def)
  have f: "site_ok (g_logTimeZone g) site" "\<forall>i\<in>set ops. op_ok i" "sum_list (map op_need ops) + site_need site < kSmallBuffer"
    "NUL \<notin> set (concat (map op_text ops))" using assms(2) by auto
  note st = log_statement_async [OF True f(1) l f(2-4) assms(4) inv assms(3)]
  show ?thesis
  proof (cases ?st)
    case None
    with st True show ?thesis by (simp add: process_says_def says_overruns_def)
  next
    case (Some r)
    obtain e l' o1 where r: "r = (e, l', o1)" by (cases r)
    from st Some r obtain mem where
      a: "async_step (logger_of p) (EvAppend junk mem (length ?line)) (io_rest o1)" "accepted mem (length ?line) = ?line"
        "\<not> strcpy_overruns site (length ?line) (logger_of p)" "e = (if macro_level mac = FATAL then Aborted else Goes_on)"
        "locals_ok (g_logTimeZone g) (ls_gettid site) l'" "async_inv (io_rest o1)" "same_back (logger_of p) (io_rest o1)" by auto
    have "async_run (logger_of p) ([] @ [EvAppend junk mem (length ?line)]) (io_rest o1)" by (rule run_snoc [OF run_nil a(1)])
    then have "\<exists>aes. async_run (logger_of p) aes (io_rest o1) \<and> filter is_backend aes = [] \<and> EvStop \<notin> set aes \<and> length aes \<le> 1
        \<and> concat (map accepted_by aes) = line_of g (Says junk mac site ops)"
      using a(2) True by (intro exI [of _ "[EvAppend junk mem (length ?line)]"]) simp
    then show ?thesis using Some r a l True
      by (auto simp: process_says_def says_overruns_def process_ok_def)
  qed
qed

lemma async_run_trans: "async_run s1 es2 s2 \<Longrightarrow> async_run s0 es1 s1 \<Longrightarrow> async_run s0 (es1 @ es2) s2"
proof (induction rule: async_run.induct)
  case (run_snoc s es s1 e s2)
  then show ?case using async_run.run_snoc by (metis append_assoc)
qed simp

lemma logger_event_simps:
  assumes "logger_event e = Some ev"
  shows "is_backend ev = is_logging_thread e" and "(ev = EvStop) = (e = Stops)" and "accepted_by ev = []" and "line_of g e = []"
  using assms by (cases e; auto)+

text \<open>Every step of the process is, for the logger, a run of its own.\<close>

lemma process_step_logger:
  assumes "process_step g p e p'" and "process_ok g p" and "fits g e" and "g_flush g = defaultFlush"
  shows "\<exists>aes. async_run (logger_of p) aes (logger_of p') \<and> process_ok g p'
    \<and> length (filter is_backend aes) = (if is_logging_thread e then 1 else 0) \<and> (EvStop \<in> set aes \<longleftrightarrow> e = Stops)
    \<and> length aes \<le> 1 \<and> concat (map accepted_by aes) = line_of g e"
  using assms(1)
proof cases
  case (says junk mac site ops)
  from says_ok [OF assms(2) assms(3) [unfolded says(1)] says(3) assms(4)] says(4) obtain aes where
    "process_ok g p'" "async_run (logger_of p) aes (logger_of p')" "filter is_backend aes = []" "EvStop \<notin> set aes"
    "length aes \<le> 1" "concat (map accepted_by aes) = line_of g e" unfolding says(1) by auto
  then show ?thesis using says(1) by (intro exI [of _ aes]) auto
next
  case (logger ev s')
  note ev = logger_event_simps [OF logger(3)]
  have "async_run (logger_of p) ([] @ [ev]) s'" by (rule run_snoc [OF run_nil logger(4)])
  moreover have "process_ok g p'"
    using assms(2) async_step_inv [OF logger(4)] logger(1) by (simp add: process_ok_def)
  ultimately show ?thesis using ev logger(1) by (intro exI [of _ "[ev]"]) auto
next
  case (thread n)
  then show ?thesis using assms(2)
    by (intro exI [of _ "[]"]) (auto simp: process_ok_def locals_ok_new intro: run_nil)
qed

lemma process_run_logger:
  assumes "process_run g p es p'" and "process_ok g p" and "\<forall>e\<in>set es. fits g e" and "g_flush g = defaultFlush"
  shows "\<exists>aes. async_run (logger_of p) aes (logger_of p') \<and> process_ok g p'
    \<and> length (filter is_backend aes) = length (filter is_logging_thread es) \<and> (EvStop \<in> set aes \<longleftrightarrow> Stops \<in> set es)
    \<and> length aes \<le> length es \<and> concat (map accepted_by aes) = concat (map (line_of g) es)"
  using assms
proof (induction rule: process_run.induct)
  case (nil p)
  then show ?case by (intro exI [of _ "[]"]) (auto intro: run_nil)
next
  case (snoc p es p1 e p2)
  then obtain aes where a: "async_run (logger_of p) aes (logger_of p1)" "process_ok g p1"
    "length (filter is_backend aes) = length (filter is_logging_thread es)" "EvStop \<in> set aes \<longleftrightarrow> Stops \<in> set es"
    "length aes \<le> length es"
    "concat (map accepted_by aes) = concat (map (line_of g) es)" by auto
  obtain aes1 where "async_run (logger_of p1) aes1 (logger_of p2)" "process_ok g p2"
    "length (filter is_backend aes1) = (if is_logging_thread e then 1 else 0)" "EvStop \<in> set aes1 \<longleftrightarrow> e = Stops"
    "length aes1 \<le> 1"
    "concat (map accepted_by aes1) = line_of g e"
    using process_step_logger [OF snoc.hyps(2) a(2)] snoc.prems by auto
  with a async_run_trans [OF _ a(1)] show ?case
    by (intro exI [of _ "aes @ aes1"]) auto
qed

lemma process_new_ok:
  assumes "world_ok w" and "length j1 = kLargeBuffer" and "length j2 = kLargeBuffer"
    and "\<And>n. locals_ok (g_logTimeZone g) n (locals n)"
  shows "process_ok g (process_new locals out (AsyncLogging_new basename rollSize flushInterval j1 j2 w))"
  using async_new_inv(1) [OF assms(1-3)] assms(4) by (simp add: process_ok_def process_new_def)

lemma logger_of_new [simp]: "logger_of (process_new locals out s) = s"
  by (simp add: process_new_def)

section \<open>Properties\<close>

text \<open>C4: The lines of all threads, in the order of their statements, are what the log holds.  However the statements
  of any number of threads, the steps of the logging thread, \<open>start\<close>, \<open>stop\<close> and the births of threads
  interleave: as long as no drop is reported, the log file's text followed by the text on its way to it is
  exactly the concatenation of the lines of the statements that passed the level, so that no line is lost, torn,
  repeated or moved before an earlier one.  The bytes that follow one-character arguments on the stack are
  arbitrary up to their first NUL: a further statement that fits has no result exactly where those behind its
  newline make \<open>strcpy\<close> write past the buffer it is appended to.\<close>

theorem process_lines:
  assumes "process_run g (process_new locals out (AsyncLogging_new basename rollSize flushInterval j1 j2 w)) es p"
    and "world_ok w" and "length j1 = kLargeBuffer" and "length j2 = kLargeBuffer"
    and "\<And>n. locals_ok (g_logTimeZone g) n (locals n)" and "g_flush g = defaultFlush"
    and "\<forall>e\<in>set es. fits g e" and "al_stderr (logger_of p) = []"
  shows "written (logger_of p) @ pending (logger_of p) = concat (map (line_of g) es)
    \<and> (length junk = kLargeBuffer \<and> fits g (Says junk mac site ops)
        \<longrightarrow> (process_says g junk mac site ops p = None \<longleftrightarrow> says_overruns g mac site ops p))"
proof -
  from process_run_logger [OF assms(1) process_new_ok [OF assms(2-5)] assms(7,6)] obtain aes where
    a: "async_run (AsyncLogging_new basename rollSize flushInterval j1 j2 w) aes (logger_of p)" "process_ok g p"
      "concat (map accepted_by aes) = concat (map (line_of g) es)" by auto
  have "written (logger_of p) @ pending (logger_of p) = concat (map (line_of g) es)"
    using async_run_text [OF a(1) async_new_inv [OF assms(2-4)] assms(8)] a(3) by simp
  moreover have "process_says g junk mac site ops p = None \<longleftrightarrow> says_overruns g mac site ops p"
    if "length junk = kLargeBuffer" "fits g (Says junk mac site ops)"
    using says_ok [OF a(2) that(2,1) assms(6)] by (auto split: option.splits)
  ultimately show ?thesis by blast
qed

text \<open>C6: The lines reach the file.  Once the logging thread runs, five of its steps later the log file
  contains, flushed, the lines of all statements executed before, in their order, whatever the threads log in
  between, unless the logger is stopped or reports a drop.\<close>

theorem process_delivers:
  assumes "process_run g (process_new locals out (AsyncLogging_new basename rollSize flushInterval j1 j2 w)) es p"
    and "world_ok w" and "length j1 = kLargeBuffer" and "length j2 = kLargeBuffer"
    and "\<And>n. locals_ok (g_logTimeZone g) n (locals n)" and "g_flush g = defaultFlush"
    and "al_running (logger_of p)" and "al_pc (logger_of p) \<notin> {Unborn, Finished}"
    and "process_run g p es' p'" and "\<forall>e\<in>set (es @ es'). fits g e" and "Stops \<notin> set es'"
    and "5 \<le> length (filter is_logging_thread es')" and "al_stderr (logger_of p') = []"
  shows "\<exists>more. durable (logger_of p') = concat (map (line_of g) es) @ more"
proof -
  have f: "\<forall>e\<in>set es. fits g e" "\<forall>e\<in>set es'. fits g e" using assms(10) by auto
  from process_run_logger [OF assms(1) process_new_ok [OF assms(2-5)] f(1) assms(6)] obtain aes where
    a: "async_run (AsyncLogging_new basename rollSize flushInterval j1 j2 w) aes (logger_of p)" "process_ok g p"
      "concat (map accepted_by aes) = concat (map (line_of g) es)" by auto
  from process_run_logger [OF assms(9) a(2) f(2) assms(6)] obtain aes' where
    a': "async_run (logger_of p) aes' (logger_of p')" "5 \<le> length (filter is_backend aes')" "EvStop \<notin> set aes'"
    using assms(11,12) by auto
  note inv = async_run_new_flushed [OF a(1) assms(2-4)]
  have "al_stderr (logger_of p) = []" using async_run_stderr [OF a'(1) inv(1) assms(13)] .
  then have "written (logger_of p) @ pending (logger_of p) = concat (map (line_of g) es)"
    using async_run_text [OF a(1) async_new_inv [OF assms(2-4)]] a(3) by simp
  with async_run_delivers [OF a'(1) inv assms(7,8) a'(3,2) assms(13)] show ?thesis by simp
qed

subsection \<open>At a concrete process\<close>

lemma process_background:
  assumes "process_ok g p" and "\<not> pr_aborted p" and "al_running (logger_of p)" and "al_pc (logger_of p) \<notin> {Unborn, Finished}"
  shows "\<exists>p'. process_run g p (replicate k (Logging_thread junk_buffer junk_buffer (0, 0))) p' \<and> process_ok g p'
    \<and> \<not> pr_aborted p' \<and> al_running (logger_of p') \<and> al_pc (logger_of p') \<notin> {Unborn, Finished}"
proof (induction k)
  case 0
  then show ?case using assms by (auto intro: nil)
next
  case (Suc k)
  then obtain p1 where p1: "process_run g p (replicate k (Logging_thread junk_buffer junk_buffer (0, 0))) p1" "process_ok g p1"
    "\<not> pr_aborted p1" "al_running (logger_of p1)" "al_pc (logger_of p1) \<notin> {Unborn, Finished}" by blast
  from p1(2) have inv: "async_inv (logger_of p1)" by (simp add: process_ok_def)
  from backend_step_ok [OF inv p1(5) length_junk_buffer length_junk_buffer, of "(0, 0)"] obtain s where
    s: "backend_step junk_buffer junk_buffer (0, 0) (logger_of p1) = Some s" "async_inv s"
      "al_pc s = next_pc (logger_of p1)" "al_running s" using p1(4) by auto
  have e: "logger_event (Logging_thread junk_buffer junk_buffer (0, 0)) = Some (EvBackend junk_buffer junk_buffer (0, 0))" by simp
  have "process_run g p (replicate k (Logging_thread junk_buffer junk_buffer (0, 0)) @ [Logging_thread junk_buffer junk_buffer (0, 0)])
      (p1\<lparr>pr_io := (pr_io p1)\<lparr>io_rest := s\<rparr>\<rparr>)"
    by (rule snoc [OF p1(1) process_step.logger [OF p1(3) e async_step.backend [OF length_junk_buffer length_junk_buffer s(1)]]])
  moreover have "next_pc (logger_of p1) \<notin> {Unborn, Finished}"
    using p1(4,5) by (cases "al_pc (logger_of p1)") (auto simp: next_pc_def)
  ultimately show ?case using s p1(2,3)
    by (intro exI [of _ "p1\<lparr>pr_io := (pr_io p1)\<lparr>io_rest := s\<rparr>\<rparr>"])
      (simp add: replicate_append_same process_ok_def)
qed

definition hi_event :: process_event where
  "hi_event = Says junk_buffer LOG_WARN (demo_site ''f'') [InsString ''hi'']"

definition demo_process :: process where
  "demo_process = process_new (\<lambda>_. log_locals_new thread_locals_new) (io_stdout (demo_io ())) demo_logger"

lemma hi_fits: "fits log_globals_new hi_event"
  using demo_ops demo_site_ok [of "''f''"] by (simp add: hi_event_def demo_globals)

lemma hi_line: "line_of log_globals_new hi_event = ''20210514 08:59:42.000123Z  4711 WARN  hi - main.cc:27'' @ [CHR 0x0A]"
  by (simp only: hi_event_def line_of.simps demo_globals macro_guard.simps if_True demo_hi_line)

lemma demo_process_run:
  obtains p where "process_run log_globals_new demo_process [Starts, hi_event] p" "process_ok log_globals_new p"
    "\<not> pr_aborted p" "al_running (logger_of p)" "al_pc (logger_of p) = Starting" "al_stderr (logger_of p) = []"
    "queued (logger_of p) \<le> 2"
proof -
  note use = that
  let ?g = "log_globals_new :: async log_globals" and ?p0 = "demo_process"
  let ?p1 = "?p0\<lparr>pr_io := (pr_io ?p0)\<lparr>io_rest := async_start demo_logger\<rparr>\<rparr>"
  have p0: "process_ok ?g ?p0"
    using process_new_ok [OF demo_world_ok length_junk_buffer length_junk_buffer, of ?g] locals_ok_new
    by (simp add: demo_process_def demo_logger_def)
  have st: "async_step (logger_of ?p0) EvStart (async_start demo_logger)"
    using async_step.start [of demo_logger] demo_logger_inv(4) by (simp add: demo_process_def)
  have n: "\<not> pr_aborted ?p0" by (simp add: demo_process_def process_new_def)
  have e: "logger_event Starts = Some EvStart" by simp
  have r1: "process_run ?g ?p0 ([] @ [Starts]) ?p1"
    by (rule snoc [OF nil process_step.logger [OF n e st]])
  have p1: "process_ok ?g ?p1" using async_step_inv [OF st] p0 by (simp add: process_ok_def)
  have "\<not> says_overruns ?g LOG_WARN (demo_site ''f'') [InsString ''hi''] ?p1" using demo_no_overrun by (simp add: says_overruns_def)
  with says_ok [OF p1 hi_fits [unfolded hi_event_def] length_junk_buffer demo_globals(3)] obtain p2 aes where
    p2: "process_says ?g junk_buffer LOG_WARN (demo_site ''f'') [InsString ''hi''] ?p1 = Some p2" "process_ok ?g p2"
      "async_run (logger_of ?p1) aes (logger_of p2)" "length aes \<le> 1" "same_back (logger_of ?p1) (logger_of p2)"
      "pr_aborted p2 = (macro_guard LOG_WARN (logLevel ?g) \<and> macro_level LOG_WARN = FATAL)" by (auto split: option.splits)
  have "process_run ?g ?p0 (([] @ [Starts]) @ [hi_event]) p2"
    unfolding hi_event_def by (rule snoc [OF r1 process_step.says [OF _ length_junk_buffer p2(1)]]) (simp add: n)
  then have r: "process_run ?g ?p0 [Starts, hi_event] p2" by simp
  have "queued (async_start demo_logger) = 0"
    by (simp add: queued_def async_start_def demo_logger_def AsyncLogging_new_def)
  then have q: "queued (logger_of p2) \<le> 2" using async_run_queued [OF p2(3)] p2(4) by simp
  show thesis
    by (rule use [OF r p2(2)]) (use p2(5,6) q in \<open>simp_all add: same_back_def async_start_def\<close>)
qed

theorem process_lines_witness:
  "\<exists>p. process_run log_globals_new demo_process [Starts, hi_event] p
     \<and> written (logger_of p) @ pending (logger_of p) = ''20210514 08:59:42.000123Z  4711 WARN  hi - main.cc:27'' @ [CHR 0x0A]"
proof -
  obtain p where p: "process_run log_globals_new demo_process [Starts, hi_event] p" "al_stderr (logger_of p) = []"
    by (rule demo_process_run)
  have "written (logger_of p) @ pending (logger_of p) = concat (map (line_of log_globals_new) [Starts, hi_event])"
    using process_lines [OF p(1) [unfolded demo_process_def demo_logger_def] demo_world_ok length_junk_buffer length_junk_buffer
        locals_ok_new demo_globals(3) _ p(2)] hi_fits by simp
  also have "\<dots> = line_of log_globals_new hi_event" by simp
  finally show ?thesis using p(1) by (auto simp only: hi_line)
qed

theorem process_delivers_witness:
  "\<exists>p es' p' more. process_run log_globals_new demo_process [Starts, hi_event] p \<and> process_run log_globals_new p es' p'
     \<and> durable (logger_of p') = (''20210514 08:59:42.000123Z  4711 WARN  hi - main.cc:27'' @ [CHR 0x0A]) @ more"
proof -
  let ?g = "log_globals_new :: async log_globals"
  obtain p where p: "process_run ?g demo_process [Starts, hi_event] p" "process_ok ?g p" "\<not> pr_aborted p"
    "al_running (logger_of p)" "al_pc (logger_of p) = Starting" "al_stderr (logger_of p) = []" "queued (logger_of p) \<le> 2"
    by (rule demo_process_run)
  have pc: "al_pc (logger_of p) \<notin> {Unborn, Finished}" using p(5) by simp
  define es' where "es' = replicate 5 (Logging_thread junk_buffer junk_buffer (0, 0))"
  obtain p' where p': "process_run ?g p es' p'"
    using process_background [OF p(2-4) pc, of 5] by (auto simp: es'_def)
  have fits': "\<forall>e\<in>set es'. fits ?g e" and n: "Stops \<notin> set es'" "5 \<le> length (filter is_logging_thread es')" "length es' = 5"
    by (simp_all add: es'_def)
  from process_run_logger [OF p' p(2) fits' demo_globals(3)] obtain aes where
    aes: "async_run (logger_of p) aes (logger_of p')" "length aes \<le> 5" using n(3) by auto
  have "al_stderr (logger_of p') = []"
    by (rule async_run_quiet [OF aes(1)]) (use p(2,6,7) aes(2) in \<open>simp_all add: process_ok_def\<close>)
  moreover have "\<forall>e\<in>set ([Starts, hi_event] @ es'). fits ?g e" using fits' hi_fits by simp
  ultimately obtain more where
    "durable (logger_of p') = concat (map (line_of ?g) [Starts, hi_event]) @ more"
    using process_delivers [OF p(1) [unfolded demo_process_def demo_logger_def] demo_world_ok length_junk_buffer length_junk_buffer
        locals_ok_new demo_globals(3) p(4) pc p' _ n(1,2)] by blast
  then have "durable (logger_of p') = line_of ?g hi_event @ more" by simp
  with p(1) p' show ?thesis by (auto simp only: hi_line)
qed

end
