(* ===== verification/AsyncFiles.thy ===== *)
theory AsyncFiles
  imports Process "HOL-Library.Sublist"
begin

text \<open>What the files of the asynchronous logger look like.

  The logging thread appends whole buffers to the log file, the log file changes to a new file between two appends,
  and a buffer holds whole messages: so every file is a sequence of whole messages and drop notices, also
  when messages are dropped, and no file is longer than the size limit and one buffer.  The invariant follows the
  messages, in groups, from the current buffer to the files.\<close>

section \<open>Units\<close>

text \<open>What a file consists of.\<close>

datatype log_unit = Message bytes | Notice bytes

fun unit_text :: "log_unit \<Rightarrow> bytes" where
  "unit_text (Message m) = m"
| "unit_text (Notice m) = m"

definition units_text :: "log_unit list \<Rightarrow> bytes" where
  "units_text us = concat (map unit_text us)"

fun messages :: "log_unit list \<Rightarrow> bytes list" where
  "messages [] = []"
| "messages (Message m # us) = m # messages us"
| "messages (Notice m # us) = messages us"

fun notices :: "log_unit list \<Rightarrow> bytes list" where
  "notices [] = []"
| "notices (Message m # us) = notices us"
| "notices (Notice m # us) = m # notices us"

lemma units_text_simps [simp]:
  "units_text [] = []" "units_text (u # us) = unit_text u @ units_text us" "units_text (us @ vs) = units_text us @ units_text vs"
  "units_text (map Message ms) = concat ms"
  by (simp_all add: units_text_def comp_def)

lemma messages_append [simp]:
  "messages (us @ vs) = messages us @ messages vs" "messages (map Message ms) = ms"
  by (induction us rule: messages.induct) (simp_all, induction ms, simp_all)

lemma notices_append [simp]:
  "notices (us @ vs) = notices us @ notices vs" "notices (map Message ms) = []"
  by (induction us rule: notices.induct) (simp_all, induction ms, simp_all)

text \<open>The files, oldest first, and the texts of some buffers.\<close>

definition file_texts :: "async \<Rightarrow> bytes list" where
  "file_texts s = (case al_output s of None \<Rightarrow> [] | Some l \<Rightarrow> map f_stream (lf_files (l, al_world s)))"

definition buffer_texts :: "fixed_buffer option list \<Rightarrow> bytes list" where
  "buffer_texts bs = map (\<lambda>b. text_of [b]) bs"

definition front_texts :: "async \<Rightarrow> bytes list" where
  "front_texts s = buffer_texts (al_buffers s @ [al_current s])"

lemma buffer_texts_simps [simp]:
  "buffer_texts [] = []" "buffer_texts (b # bs) = text_of [b] # buffer_texts bs"
  "buffer_texts (bs @ cs) = buffer_texts bs @ buffer_texts cs" "length (buffer_texts bs) = length bs"
  "take n (buffer_texts bs) = buffer_texts (take n bs)"
  by (simp_all add: buffer_texts_def take_map)

text \<open>The messages of a run that are not empty.\<close>

definition sent :: "async_event list \<Rightarrow> bytes list" where
  "sent es = filter (\<lambda>m. m \<noteq> []) (map accepted_by es)"

lemma sent_append [simp]: "sent (es @ fs) = sent es @ sent fs"
  by (simp add: sent_def)

lemma sent_single: "sent [e] = (if accepted_by e = [] then [] else [accepted_by e])"
  by (simp add: sent_def)

section \<open>What the operations do to the texts\<close>

lemma texts_unaffected [simp]:
  "file_texts (s\<lparr>al_toWrite := t\<rparr>) = file_texts s" "file_texts (s\<lparr>al_pc := p\<rparr>) = file_texts s"
  "file_texts (s\<lparr>al_stderr := e\<rparr>) = file_texts s" "file_texts (s\<lparr>al_running := r\<rparr>) = file_texts s"
  "file_texts (s\<lparr>al_new1 := b\<rparr>) = file_texts s" "file_texts (s\<lparr>al_new2 := b\<rparr>) = file_texts s"
  "front_texts (s\<lparr>al_toWrite := t\<rparr>) = front_texts s" "front_texts (s\<lparr>al_pc := p\<rparr>) = front_texts s"
  "front_texts (s\<lparr>al_stderr := e\<rparr>) = front_texts s" "front_texts (s\<lparr>al_running := r\<rparr>) = front_texts s"
  by (simp_all add: file_texts_def front_texts_def split: option.split)

lemma file_texts_log: "al_output s = Some l \<Longrightarrow> file_texts s = map snd (lf_log l (al_world s))"
  by (simp add: file_texts_def lf_log_def comp_def)

lemma file_texts_put:
  assumes "sink_ok s" "on_output (LogFile_append line) s = Some s'" "file_texts s = map units_text fg" "line = units_text us"
  shows "\<exists>fg'. file_texts s' = map units_text fg' \<and> concat fg' = concat fg @ us"
proof -
  obtain l where l: "al_output s = Some l" "lf_ok (l, al_world s)" using assms(1) by (auto simp: sink_ok_def)
  obtain l1 w1 where a: "LogFile_append line (l, al_world s) = Some (l1, w1)" "append_effect line l (al_world s) l1 w1"
    using LogFile_append_log[OF l(2)] by blast
  then have s': "file_texts s' = map snd (lf_log l1 w1)" using assms(2) l(1) by (auto simp: on_output_def file_texts_log)
  have fs: "map snd (lf_log l (al_world s)) = map units_text fg" using assms(3) l(1) by (simp add: file_texts_log)
  have ne: "lf_log l (al_world s) \<noteq> []" by (rule lf_log_nonempty[OF l(2)])
  with fs obtain gs g where fg: "fg = gs @ [g]" by (cases fg rule: rev_cases) auto
  obtain bs b where b: "lf_log l (al_world s) = bs @ [b]" using ne by (cases "lf_log l (al_world s)" rule: rev_cases) auto
  have t: "map snd (log_append line (lf_log l (al_world s))) = map units_text (gs @ [g @ us])"
    using fs assms(4) by (simp add: log_append_def b fg)
  from a(2) consider "lf_log l1 w1 = log_append line (lf_log l (al_world s))"
    | n where "lf_log l1 w1 = log_append line (lf_log l (al_world s)) @ [(n, [])]"
    unfolding append_effect_def by (metis (no_types))
  then show ?thesis
  proof cases
    case 1
    then show ?thesis using s' t fg by (intro exI[of _ "gs @ [g @ us]"]) simp
  next
    case (2 n)
    then show ?thesis using s' t fg by (intro exI[of _ "gs @ [g @ us, []]"]) simp
  qed
qed

lemma file_texts_sync: "sink_ok s \<Longrightarrow> on_output LogFile_flush s = Some s' \<Longrightarrow> file_texts s' = file_texts s"
  by (auto simp: sink_ok_def on_output_def file_texts_log LogFile_flush_log(2))

lemma file_texts_fold:
  assumes "\<forall>b\<in>set bs. buf_ok b" "sink_ok s" "fold_opt be_write_one bs s = Some s'"
    "file_texts s = map units_text fg" "buffer_texts bs = map concat wg"
  shows "\<exists>fg'. file_texts s' = map units_text fg' \<and> concat fg' = concat fg @ map Message (concat wg)"
  using assms
proof (induction bs arbitrary: s fg wg)
  case Nil
  then show ?case by auto
next
  case (Cons b bs)
  obtain g gs where wg: "wg = g # gs" "text_of [b] = concat g" "buffer_texts bs = map concat gs"
    using Cons.prems(5) by auto
  obtain s1 where s1: "on_output (LogFile_append (text_of [b])) s = Some s1" "sink_ok s1"
    using out.put_ok[OF Cons.prems(2)] by blast
  have rest: "fold_opt be_write_one bs s1 = Some s'"
    using Cons.prems(1,3) s1(1) by (simp add: be_write_one_buf)
  obtain fg1 where fg1: "file_texts s1 = map units_text fg1" "concat fg1 = concat fg @ map Message g"
    using file_texts_put[OF Cons.prems(2) s1(1) Cons.prems(4), of "map Message g"] wg(2) by auto
  from Cons.IH[OF _ s1(2) rest fg1(1) wg(3)] Cons.prems(1) fg1(2) show ?case by (auto simp: wg(1))
qed

text \<open>A message goes to the end of the current buffer, or is the first of a new one.\<close>

lemma front_texts_append:
  assumes "front_ok s" "length junk = kLargeBuffer" "c_strlen mem = Some m" "n \<le> m" "n < 2 ^ 31"
    "async_append junk mem (int n) s = Some s'"
  shows "front_texts s' = butlast (front_texts s) @ [last (front_texts s) @ accepted mem n]
    \<or> front_texts s' = front_texts s @ [accepted mem n]"
proof (rule async_append_cases[OF assms(1,2,5)])
  fix c assume c: "al_current s = Some c" "fb_wf c" "fb_end c = kLargeBuffer" "fb_cur c + n < kLargeBuffer"
    "async_append junk mem (int n) s = map_option (\<lambda>b'. s\<lparr>al_current := Some b'\<rparr>) (fb_append mem n c)"
  then obtain b' where b': "fb_append mem n c = Some b'" "s' = s\<lparr>al_current := Some b'\<rparr>"
    using assms(6)[unfolded c(5)] by auto
  from fb_append_message[OF c(2,3) assms(3,4) b'(1)] b'(2) c show ?thesis
    by (auto simp: front_texts_def accepted_def)
next
  fix c b assume b: "al_current s = Some c" "buf_ok (Some c)" "\<not> fb_cur c + n < kLargeBuffer"
    "fb_wf b" "fb_end b = kLargeBuffer" "fb_cur b = 0" "fb_toString b = []"
    "async_append junk mem (int n) s =
       map_option (\<lambda>b'. s\<lparr>al_buffers := al_buffers s @ [Some c], al_current := Some b', al_next := None\<rparr>) (fb_append mem n b)"
  then obtain b' where b': "fb_append mem n b = Some b'"
    "s' = s\<lparr>al_buffers := al_buffers s @ [Some c], al_current := Some b', al_next := None\<rparr>"
    using assms(6)[unfolded b(8)] by auto
  from fb_append_message[OF b(4,5) assms(3,4) b'(1)] b'(2) b show ?thesis
    by (auto simp: front_texts_def accepted_def)
qed

section \<open>The messages on their way\<close>

text \<open>\<open>ms\<close> are the messages sent so far.  The files hold the groups \<open>fg\<close>, the buffers being written and those of
  the front end hold messages only; nothing but drops makes messages disappear, and each drop leaves its notice.\<close>

definition units_inv :: "async \<Rightarrow> bytes list \<Rightarrow> bool" where
  "units_inv s ms \<longleftrightarrow>
     (\<exists>fg wg bg. file_texts s = map units_text fg \<and> buffer_texts (al_toWrite s) = map concat wg \<and> front_texts s = map concat bg
       \<and> subseq (messages (concat fg) @ concat wg @ concat bg) ms
       \<and> (al_stderr s = [] \<longrightarrow> messages (concat fg) @ concat wg @ concat bg = ms)
       \<and> concat (notices (concat fg)) = al_stderr s)"

lemma units_inv_cong:
  assumes "file_texts s' = file_texts s" "al_toWrite s' = al_toWrite s" "front_texts s' = front_texts s" "al_stderr s' = al_stderr s"
  shows "units_inv s' ms = units_inv s ms"
  using assms by (simp add: units_inv_def)

lemma units_inv_append:
  assumes "units_inv s ms" "front_texts s' = butlast (front_texts s) @ [last (front_texts s) @ m] \<or> front_texts s' = front_texts s @ [m]"
    "file_texts s' = file_texts s" "al_toWrite s' = al_toWrite s" "al_stderr s' = al_stderr s" "front_texts s \<noteq> []"
  shows "units_inv s' (ms @ (if m = [] then [] else [m]))"
proof -
  obtain fg wg bg where g: "file_texts s = map units_text fg" "buffer_texts (al_toWrite s) = map concat wg" "front_texts s = map concat bg"
    "subseq (messages (concat fg) @ concat wg @ concat bg) ms"
    "al_stderr s = [] \<longrightarrow> messages (concat fg) @ concat wg @ concat bg = ms" "concat (notices (concat fg)) = al_stderr s"
    using assms(1) unfolding units_inv_def by blast
  let ?m = "if m = [] then [] else [m]"
  have m: "concat ?m = m" by simp
  obtain bs b where bg: "bg = bs @ [b]" using g(3) assms(6) by (cases bg rule: rev_cases) auto
  from assms(2) have "\<exists>bg'. front_texts s' = map concat bg' \<and> concat bg' = concat bg @ ?m"
  proof
    assume "front_texts s' = butlast (front_texts s) @ [last (front_texts s) @ m]"
    then have "front_texts s' = map concat (bs @ [b @ ?m])" by (simp add: g(3) bg)
    then show ?thesis by (rule_tac exI[of _ "bs @ [b @ ?m]"]) (simp add: bg)
  next
    assume "front_texts s' = front_texts s @ [m]"
    then have "front_texts s' = map concat (bg @ [?m])" by (simp add: g(3))
    then show ?thesis by (rule_tac exI[of _ "bg @ [?m]"]) simp
  qed
  then obtain bg' where bg': "front_texts s' = map concat bg'" "concat bg' = concat bg @ ?m" by blast
  have "subseq ((messages (concat fg) @ concat wg @ concat bg) @ ?m) (ms @ ?m)"
    using g(4) by (rule list_emb_append_mono) (rule subseq_order.order_refl)
  then show ?thesis
    unfolding units_inv_def
    by (rule_tac exI[of _ fg], rule_tac exI[of _ wg], rule_tac exI[of _ bg']) (use g bg' assms(3-5) in auto)
qed

lemma units_inv_exchange:
  assumes "units_inv s ms" "async_inv s" "al_pc s \<in> {Locking, Waiting}"
  shows "units_inv (be_exchange s) ms"
proof -
  have b: "al_toWrite s = []" "empty_ok (al_new1 s)" using assms(2,3) by (auto simp: async_inv_def back_ok_def)
  obtain fg wg bg where g: "file_texts s = map units_text fg" "buffer_texts (al_toWrite s) = map concat wg" "front_texts s = map concat bg"
    "subseq (messages (concat fg) @ concat wg @ concat bg) ms"
    "al_stderr s = [] \<longrightarrow> messages (concat fg) @ concat wg @ concat bg = ms" "concat (notices (concat fg)) = al_stderr s"
    using assms(1) unfolding units_inv_def by blast
  have e: "file_texts (be_exchange s) = file_texts s" "al_stderr (be_exchange s) = al_stderr s"
    "al_toWrite (be_exchange s) = al_buffers s @ [al_current s]" "front_texts (be_exchange s) = [[]]"
    using b by (simp_all add: be_exchange_def Let_def file_texts_def front_texts_def split: option.split)
  have "wg = []" using g(2) b(1) by simp
  then show ?thesis
    unfolding units_inv_def
    by (rule_tac exI[of _ fg], rule_tac exI[of _ bg], rule_tac exI[of _ "[[]]"]) (use g e in \<open>simp add: front_texts_def\<close>)
qed

lemma units_inv_write:
  assumes "units_inv s ms" "async_inv s" "al_pc s = Writing" "be_write tv s = Some s'"
  shows "units_inv s' ms"
proof -
  have i: "sink_ok s" "\<forall>b \<in> set (al_toWrite s). buf_ok b" using assms(2,3) by (auto simp: async_inv_def back_ok_def)
  obtain fg wg bg where g: "file_texts s = map units_text fg" "buffer_texts (al_toWrite s) = map concat wg" "front_texts s = map concat bg"
    "subseq (messages (concat fg) @ concat wg @ concat bg) ms"
    "al_stderr s = [] \<longrightarrow> messages (concat fg) @ concat wg @ concat bg = ms" "concat (notices (concat fg)) = al_stderr s"
    using assms(1) unfolding units_inv_def by blast
  obtain s1 s2 s3 s4 where s: "be_drop tv s = Some s1" "fold_opt be_write_one (al_toWrite s1) s1 = Some s2"
    "be_recycle s2 = Some s3" "on_output LogFile_flush s3 = Some s4" "s' = s4\<lparr>al_pc := Testing\<rparr>"
    using assms(4) by (auto simp: be_write_def bind_eq_Some_conv split: if_splits)
  obtain fg1 wg1 where d: "sink_ok s1" "file_texts s1 = map units_text fg1" "buffer_texts (al_toWrite s1) = map concat wg1"
    "front_texts s1 = front_texts s" "\<forall>b \<in> set (al_toWrite s1). buf_ok b" "concat (notices (concat fg1)) = al_stderr s1"
    "subseq (messages (concat fg1) @ concat wg1) (messages (concat fg) @ concat wg)"
    "al_stderr s1 = [] \<longrightarrow> al_stderr s = [] \<and> messages (concat fg1) @ concat wg1 = messages (concat fg) @ concat wg"
  proof (cases "25 < length (al_toWrite s)")
    case False
    then have [simp]: "s1 = s" using s(1) by (simp add: be_drop_def)
    show thesis by (rule that[of fg wg]) (use i g(1,2,6) in simp_all)
  next
    case True
    let ?buf = "drop_notice tv (length (al_toWrite s))"
    let ?s = "s\<lparr>al_stderr := al_stderr s @ ?buf\<rparr>"
    obtain s0 where s0: "on_output (LogFile_append ?buf) ?s = Some s0" "s1 = s0\<lparr>al_toWrite := take 2 (al_toWrite s0)\<rparr>"
      using s(1) True by (auto simp: be_drop_def Let_def)
    have k: "sink_ok ?s" using i(1) by (simp add: sink_ok_def)
    have ok0: "sink_ok s0" using out.put_ok[OF k, of ?buf] s0(1) by auto
    have ft: "file_texts ?s = map units_text fg" using g(1) by (simp add: file_texts_def split: option.splits)
    obtain fg1 where fg1: "file_texts s0 = map units_text fg1" "concat fg1 = concat fg @ [Notice ?buf]"
      using file_texts_put[OF k s0(1) ft, of "[Notice ?buf]"] by auto
    note f = only_sink_simps[OF on_output_only_sink[OF s0(1)]]
    have "subseq (concat (take 2 wg)) (concat wg)"
      by (rule prefix_imp_subseq) (metis append_take_drop_id concat_append prefixI)
    then have "subseq (messages (concat fg) @ concat (take 2 wg)) (messages (concat fg) @ concat wg)"
      by (intro list_emb_append_mono subseq_order.order_refl)
    moreover have "buffer_texts (take 2 (al_toWrite s)) = map concat (take 2 wg)"
      by (metis g(2) buffer_texts_simps(5) take_map)
    moreover have "\<forall>b \<in> set (take 2 (al_toWrite s)). buf_ok b" using i(2) by (auto dest: in_set_takeD)
    moreover have "al_stderr s1 \<noteq> []" using s0(2) f(11) drop_notice_nonempty[of tv] by simp
    ultimately show thesis
      by (intro that[of fg1 "take 2 wg"]) (use s0(2) ok0 fg1 f g(6) drop_notice_nonempty[of tv] in \<open>simp_all add: front_texts_def sink_ok_def\<close>)
  qed
  obtain fg2 where fg2: "file_texts s2 = map units_text fg2" "concat fg2 = concat fg1 @ map Message (concat wg1)"
    using file_texts_fold[OF d(5,1) s(2) d(2,3)] by blast
  note f2 = only_sink_simps[OF fold_write_only_sink[OF s(2)]]
  have ok2: "sink_ok s2" using fold_write[OF d(5,1)] s(2) by auto
  have s3: "file_texts s3 = file_texts s2" "front_texts s3 = front_texts s2" "al_stderr s3 = al_stderr s2" "al_toWrite s3 = []" "sink_ok s3"
    using s(3) ok2 by (auto simp: be_recycle_def Let_def bind_eq_Some_conv file_texts_def front_texts_def sink_ok_def)
  note f4 = only_sink_simps[OF on_output_only_sink[OF s(4)]]
  have s4: "file_texts s' = map units_text fg2" "front_texts s' = map concat bg" "al_stderr s' = al_stderr s1" "al_toWrite s' = []"
    using file_texts_sync[OF s3(5) s(4)] fg2(1) s3 f4 f2 s(5) d(4) g(3) by (simp_all add: front_texts_def)
  have "subseq ((messages (concat fg1) @ concat wg1) @ concat bg) ((messages (concat fg) @ concat wg) @ concat bg)"
    by (rule list_emb_append_mono[OF d(7)]) (rule subseq_order.order_refl)
  then have "subseq (messages (concat fg1) @ concat wg1 @ concat bg) ms"
    using g(4) subseq_order.trans by (metis append_assoc)
  then show ?thesis
    unfolding units_inv_def
    by (rule_tac exI[of _ fg2], rule_tac exI[of _ "[]"], rule_tac exI[of _ bg]) (use s4 fg2(2) d g in auto)
qed

lemma units_inv_step:
  assumes "async_step s e s'" "async_inv s" "units_inv s ms"
  shows "units_inv s' (ms @ sent [e])"
  using assms(1)
proof (cases rule: async_step.cases)
  case start
  then show ?thesis using assms(3)
    by (simp add: sent_def) (subst units_inv_cong[of _ s]; simp add: async_start_def file_texts_def front_texts_def split: option.split)
next
  case (append junk mem m n)
  have f: "front_ok s" using assms(2) by (simp add: async_inv_def)
  have b: "same_back s s'" using async_append_keeps[OF assms(2) append(2-6)] by auto
  have "units_inv s' (ms @ (if accepted mem n = [] then [] else [accepted mem n]))"
    by (rule units_inv_append[OF assms(3) front_texts_append[OF f append(2-6)]])
      (use b in \<open>simp_all add: same_back_def file_texts_def front_texts_def split: option.split\<close>)
  then show ?thesis using append(1) by (cases "accepted mem n = []") (simp_all add: sent_single)
next
  case (backend junk1 junk2 tv)
  have "units_inv s' ms"
  proof (cases "al_pc s")
    case Starting
    then have i: "al_toWrite s = []" "al_output s = None" "world_ok (al_world s)"
      using assms(2) by (auto simp: async_inv_def back_ok_def)
    obtain l w n where l: "LogFile_new (al_basename s) (al_rollSize s) False 3 1024 (al_world s) = Some (l, w)" "lf_log l w = [(n, [])]"
      using LogFile_new_ok[of "al_world s" "al_basename s" "al_rollSize s" False 3 1024] i(3) by (auto simp: world_ok_def)
    then have e: "file_texts s' = map units_text [[]]" "al_toWrite s' = []" "front_texts s' = front_texts s" "al_stderr s' = al_stderr s"
      using backend(4) Starting
      by (auto simp: backend_step_def be_start_def front_texts_def file_texts_log[of _ l] split: if_splits)
    have "file_texts s = []" using i(2) by (simp add: file_texts_def)
    then show ?thesis
      using assms(3) i(1) e unfolding units_inv_def by (simp, rule_tac exI[of _ "[[]]"], auto)
  next
    case Testing
    have i: "sink_ok s" using assms(2) Testing by (simp add: async_inv_def back_ok_def)
    show ?thesis
    proof (cases "al_running s")
      case True
      then have "s' = s\<lparr>al_pc := Locking\<rparr>" using backend(4) Testing by (simp add: backend_step_def be_test_def)
      then show ?thesis using assms(3) by (subst units_inv_cong[of _ s]) (simp_all add: file_texts_def front_texts_def split: option.split)
    next
      case False
      then obtain s1 where s1: "on_output LogFile_flush s = Some s1" "s' = s1\<lparr>al_pc := Finished\<rparr>"
        using backend(4) Testing by (auto simp: backend_step_def be_test_def)
      note f = only_sink_simps[OF on_output_only_sink[OF s1(1)]]
      have "file_texts s' = file_texts s1" by (simp add: s1(2) file_texts_def split: option.split)
      then show ?thesis
        using assms(3) file_texts_sync[OF i s1(1)] f by (subst units_inv_cong[of _ s]) (simp_all add: s1(2) front_texts_def)
    qed
  next
    case Locking
    show ?thesis
    proof (cases "al_buffers s = []")
      case True
      then have "s' = s\<lparr>al_pc := Waiting\<rparr>" using backend(4) Locking by (simp add: backend_step_def be_lock_def)
      then show ?thesis using assms(3) by (subst units_inv_cong[of _ s]) (simp_all add: file_texts_def front_texts_def split: option.split)
    next
      case False
      then show ?thesis
        using units_inv_exchange[OF assms(3,2)] backend(4) Locking by (simp add: backend_step_def be_lock_def)
    qed
  next
    case Waiting
    then show ?thesis using units_inv_exchange[OF assms(3,2)] backend(4) by (simp add: backend_step_def)
  next
    case Writing
    then show ?thesis using units_inv_write[OF assms(3,2)] backend(4) by (simp add: backend_step_def)
  qed (use backend(4) in \<open>simp_all add: backend_step_def\<close>)
  then show ?thesis using backend(1) by (simp add: sent_def)
next
  case stop
  then show ?thesis using assms(3)
    by (simp add: sent_def) (subst units_inv_cong[of _ s]; simp add: async_stop_def file_texts_def front_texts_def split: option.split)
qed

lemma units_inv_run:
  "async_run s es s' \<Longrightarrow> async_inv s \<Longrightarrow> units_inv s ms \<Longrightarrow> units_inv s' (ms @ sent es)"
proof (induction rule: async_run.induct)
  case (run_nil s)
  then show ?case by (simp add: sent_def)
next
  case (run_snoc s es s1 e s2)
  have "async_inv s1" using run_snoc async_run_inv by blast
  from units_inv_step[OF run_snoc.hyps(2) this] run_snoc show ?case by (simp add: append_assoc[symmetric] del: append_assoc)
qed

lemma units_inv_new:
  assumes "length j1 = kLargeBuffer"
  shows "units_inv (AsyncLogging_new basename rollSize flushInterval j1 j2 w) []"
  using empty_ok_text(1)[OF new_Buffer_ok(2)[OF assms]]
  unfolding units_inv_def
  by (rule_tac exI[of _ "[]"], rule_tac exI[of _ "[]"], rule_tac exI[of _ "[[]]"])
    (simp add: AsyncLogging_new_def file_texts_def front_texts_def)

section \<open>The size of the files\<close>

text \<open>The files of the logger are a log that began in the world \<open>w0\<close> and is written in lines of at most
  \<open>kLargeBuffer\<close> bytes.\<close>

definition files_sized :: "world \<Rightarrow> bytes \<Rightarrow> int \<Rightarrow> async \<Rightarrow> bool" where
  "files_sized w0 name R s \<longleftrightarrow> world_moves w0 (al_world s) \<and> al_rollSize s = R \<and> al_basename s = name
     \<and> (\<forall>l. al_output s = Some l \<longrightarrow> lf_sized w0 name R kLargeBuffer (l, al_world s))"

lemma files_sized_cong:
  "al_output s' = al_output s \<Longrightarrow> al_world s' = al_world s \<Longrightarrow> al_rollSize s' = al_rollSize s \<Longrightarrow> al_basename s' = al_basename s
    \<Longrightarrow> files_sized w0 name R s' = files_sized w0 name R s"
  by (simp add: files_sized_def)

lemma files_sized_put:
  assumes "files_sized w0 name R s" "on_output (LogFile_append line) s = Some s'" "length line \<le> kLargeBuffer"
    "0 \<le> R"
  shows "files_sized w0 name R s'"
proof -
  obtain l x where l: "al_output s = Some l" "LogFile_append line (l, al_world s) = Some x" "s' = s\<lparr>al_output := Some (fst x), al_world := snd x\<rparr>"
    using assms(2) by (auto simp: on_output_def split: option.splits)
  have "lf_sized w0 name R kLargeBuffer (l, al_world s)" using assms(1) l(1) by (simp add: files_sized_def)
  from lf_sized_append[OF this assms(4,3)] l(2) have "lf_sized w0 name R kLargeBuffer x" by auto
  then show ?thesis using assms(1) l(3) by (auto simp: files_sized_def lf_sized_def)
qed

lemma files_sized_sync:
  assumes "files_sized w0 name R s" "on_output LogFile_flush s = Some s'"
  shows "files_sized w0 name R s'"
proof -
  obtain l x where l: "al_output s = Some l" "LogFile_flush (l, al_world s) = Some x" "s' = s\<lparr>al_output := Some (fst x), al_world := snd x\<rparr>"
    using assms(2) by (auto simp: on_output_def split: option.splits)
  have "lf_sized w0 name R kLargeBuffer (l, al_world s)" using assms(1) l(1) by (simp add: files_sized_def)
  from lf_sized_flush[OF this] l(2) have "lf_sized w0 name R kLargeBuffer x" by auto
  then show ?thesis using assms(1) l(3) by (auto simp: files_sized_def lf_sized_def)
qed

lemma buf_ok_length: "buf_ok b \<Longrightarrow> length (text_of [b]) \<le> kLargeBuffer"
  by (auto simp: buf_ok_def fb_toString_def fb_length_def fb_end_def)

lemma files_sized_fold:
  assumes "0 \<le> R"
  shows "\<forall>b\<in>set bs. buf_ok b \<Longrightarrow> files_sized w0 name R s \<Longrightarrow> fold_opt be_write_one bs s = Some s' \<Longrightarrow> files_sized w0 name R s'"
proof (induction bs arbitrary: s)
  case (Cons b bs)
  then obtain s1 where s1: "on_output (LogFile_append (text_of [b])) s = Some s1" "fold_opt be_write_one bs s1 = Some s'"
    by (auto simp: be_write_one_buf split: option.splits)
  have "files_sized w0 name R s1"
    using files_sized_put[OF Cons.prems(2) s1(1) buf_ok_length assms] Cons.prems(1) by simp
  with Cons.IH[OF _ _ s1(2)] Cons.prems(1) show ?case by simp
qed simp

lemma drop_notice_length: "length (drop_notice tv n) \<le> kLargeBuffer"
proof -
  have "length (drop_notice tv n) \<le> 256"
    unfolding drop_notice_def until_NUL_def
    by (rule order.trans[OF length_takeWhile_le]) (simp add: snprintf_mem_def)
  then show ?thesis by (simp add: kLargeBuffer_def)
qed

lemma files_sized_write:
  assumes "files_sized w0 name R s" "async_inv s" "al_pc s = Writing" "be_write tv s = Some s'" "0 \<le> R"
  shows "files_sized w0 name R s'"
proof -
  have i: "\<forall>b \<in> set (al_toWrite s). buf_ok b" using assms(2,3) by (auto simp: async_inv_def back_ok_def)
  obtain s1 s2 s3 s4 where s: "be_drop tv s = Some s1" "fold_opt be_write_one (al_toWrite s1) s1 = Some s2"
    "be_recycle s2 = Some s3" "on_output LogFile_flush s3 = Some s4" "s' = s4\<lparr>al_pc := Testing\<rparr>"
    using assms(4) by (auto simp: be_write_def bind_eq_Some_conv split: if_splits)
  have "files_sized w0 name R s1 \<and> (\<forall>b \<in> set (al_toWrite s1). buf_ok b)"
  proof (cases "25 < length (al_toWrite s)")
    case False
    then show ?thesis using s(1) assms(1) i by (simp add: be_drop_def)
  next
    case True
    let ?buf = "drop_notice tv (length (al_toWrite s))"
    let ?s = "s\<lparr>al_stderr := al_stderr s @ ?buf\<rparr>"
    obtain s0 where s0: "on_output (LogFile_append ?buf) ?s = Some s0" "s1 = s0\<lparr>al_toWrite := take 2 (al_toWrite s0)\<rparr>"
      using s(1) True by (auto simp: be_drop_def Let_def)
    have "files_sized w0 name R ?s" using assms(1) by (simp add: files_sized_def)
    from files_sized_put[OF this s0(1) drop_notice_length assms(5)] s0(2)
      only_sink_simps(1)[OF on_output_only_sink[OF s0(1)]] i
    show ?thesis by (auto simp: files_sized_def dest: in_set_takeD)
  qed
  with files_sized_fold[where ?w0.0 = w0 and name = name, OF assms(5) _ _ s(2)] have "files_sized w0 name R s2" by blast
  moreover have "al_output s3 = al_output s2" "al_world s3 = al_world s2" "al_rollSize s3 = al_rollSize s2" "al_basename s3 = al_basename s2"
    using s(3) by (auto simp: be_recycle_def Let_def bind_eq_Some_conv)
  ultimately have "files_sized w0 name R s3" by (simp add: files_sized_def)
  from files_sized_sync[OF this s(4)] show ?thesis by (simp add: s(5) files_sized_def)
qed

lemma files_sized_step:
  assumes "async_step s e s'" "async_inv s" "files_sized w0 name R s" "0 \<le> R"
  shows "files_sized w0 name R s'"
  using assms(1)
proof (cases rule: async_step.cases)
  case start
  then show ?thesis using assms(3) by (simp add: async_start_def files_sized_def)
next
  case (append junk mem m n)
  then show ?thesis
    using async_append_keeps[OF assms(2) append(2-6)] assms(3) by (auto simp: same_back_def files_sized_def)
next
  case (backend junk1 junk2 tv)
  show ?thesis
  proof (cases "al_pc s")
    case Starting
    then have i: "world_ok (al_world s)" "al_output s = None" using assms(2) by (auto simp: async_inv_def back_ok_def)
    obtain l w where l: "LogFile_new (al_basename s) (al_rollSize s) False 3 1024 (al_world s) = Some (l, w)" "lf_ok (l, w)"
      "lf_config l = (al_basename s, al_rollSize s, 3, 1024)" "lf_lastRoll l = w_clock (al_world s) (w_ticks (al_world s))"
      "w_ticks w = Suc (w_ticks (al_world s))" "world_moves (al_world s) w"
      "lf_log l w = [(log_name (al_basename s) (w_clock (al_world s) (w_ticks (al_world s))) (al_world s), [])]"
      using LogFile_new_ok[of "al_world s" "al_basename s" "al_rollSize s" False 3 1024] i(1) unfolding world_ok_def by metis
    have m: "world_moves w0 (al_world s)" "al_rollSize s = R" "al_basename s = name" using assms(3) by (auto simp: files_sized_def)
    have moved: "world_moves w0 w" by (rule world_moves_trans[OF m(1) l(6)])
    have "log_name name n (al_world s) = log_name name n w0" "w_clock (al_world s) = w_clock w0" for n
      using m(1) by (auto simp: world_moves_def log_name_def)
    then have "lf_sized w0 name R kLargeBuffer (l, w)"
      using lf_sized_start[OF l(2) _ _ moved, of R name "w_ticks (al_world s)" "[]"] l m(2,3) assms(4) by (simp add: lf_config_def)
    moreover note moved
    ultimately show ?thesis
      using backend(4) Starting l(1) assms(3) by (auto simp: backend_step_def be_start_def files_sized_def split: if_splits)
  next
    case Testing
    then show ?thesis
      using backend(4) assms(3) files_sized_sync[OF assms(3)]
      by (auto simp: backend_step_def be_test_def files_sized_def split: if_splits)
  next
    case Writing
    then show ?thesis using files_sized_write[OF assms(3,2) _ _ assms(4)] backend(4) by (simp add: backend_step_def)
  qed (use backend(4) assms(3) in \<open>auto simp: backend_step_def be_lock_def be_exchange_def Let_def files_sized_def split: if_splits\<close>)
next
  case stop
  then show ?thesis using assms(3) by (simp add: async_stop_def files_sized_def)
qed

lemma files_sized_run:
  assumes "async_run s es s'" "async_inv s" "files_sized w0 name R s" "0 \<le> R"
  shows "files_sized w0 name R s'"
  using assms(1-3)
proof (induction rule: async_run.induct)
  case (run_snoc s es s1 e s2)
  have "async_inv s1" using run_snoc async_run_inv by blast
  from files_sized_step[where ?w0.0 = w0 and name = name, OF run_snoc.hyps(2) this _ assms(4)] run_snoc show ?case by blast
qed

section \<open>The files of a process\<close>

text \<open>The lines of the statements that passed the level, and the messages that reach the logger.\<close>

definition lines_of :: "async log_globals \<Rightarrow> process_event list \<Rightarrow> bytes list" where
  "lines_of g es = filter (\<lambda>m. m \<noteq> []) (map (line_of g) es)"

lemma process_run_sent:
  assumes "process_run g p es p'" and "process_ok g p" and "\<forall>e\<in>set es. fits g e" and "g_flush g = defaultFlush"
  shows "\<exists>aes. async_run (logger_of p) aes (logger_of p') \<and> process_ok g p' \<and> sent aes = lines_of g es"
  using assms
proof (induction rule: process_run.induct)
  case (nil p)
  then show ?case by (intro exI[of _ "[]"]) (simp add: async_run.run_nil sent_def lines_of_def)
next
  case (snoc p es p1 e p2)
  then obtain aes where a: "async_run (logger_of p) aes (logger_of p1)" "process_ok g p1" "sent aes = lines_of g es"
    by auto
  obtain aes1 where b: "async_run (logger_of p1) aes1 (logger_of p2)" "process_ok g p2" "length aes1 \<le> 1"
    "concat (map accepted_by aes1) = line_of g e"
    using process_step_logger[OF snoc.hyps(2) a(2)] snoc.prems by auto
  have "sent aes1 = lines_of g [e]"
    using b(3,4) by (cases aes1) (auto simp: sent_def lines_of_def)
  with a b async_run_trans[OF b(1) a(1)] show ?case
    by (intro exI[of _ "aes @ aes1"]) (simp add: lines_of_def)
qed

lemma units_inv_files:
  assumes "units_inv s ms"
  shows "\<exists>fg. file_texts s = map units_text fg \<and> subseq (messages (concat fg)) ms
    \<and> (al_stderr s = [] \<longrightarrow> prefix (messages (concat fg)) ms) \<and> concat (notices (concat fg)) = al_stderr s"
proof -
  obtain fg ws where g: "file_texts s = map units_text fg" "subseq (messages (concat fg) @ ws) ms"
    "al_stderr s = [] \<longrightarrow> messages (concat fg) @ ws = ms" "concat (notices (concat fg)) = al_stderr s"
    using assms unfolding units_inv_def by blast
  have "subseq (messages (concat fg)) (messages (concat fg) @ ws)" by (intro prefix_imp_subseq) simp
  with g(2) have "subseq (messages (concat fg)) ms" by (rule subseq_order.trans[rotated])
  with g show ?thesis by (intro exI[of _ fg]) auto
qed

text \<open>The return of \<open>threadFunc\<close> destroys its local log file, which closes the last file.\<close>

definition be_return :: "async \<Rightarrow> world option" where
  "be_return s =
     (if al_pc s = Finished then Option.bind (al_output s) (\<lambda>l. LogFile_destroy (l, al_world s)) else None)"

lemma be_return_files:
  assumes "async_inv s" "al_pc s = Finished"
  shows "\<exists>w. be_return s = Some w \<and> map f_stream (w_closed w) = file_texts s
    \<and> f_flushed (last (w_closed w)) = length (f_stream (last (w_closed w)))"
proof -
  obtain l where l: "al_output s = Some l" "lf_ok (l, al_world s)" using assms by (auto simp: async_inv_def back_ok_def sink_ok_def)
  then show ?thesis using assms(2)
    by (auto simp: be_return_def lf_ok_def LogFile_destroy_def file_texts_def lf_files_def AppendFile_close_def fflush_def Let_def)
qed

text \<open>C5: The files hold whole lines.  However the statements of any number of threads, the steps of the logging
  thread, \<open>start\<close>, \<open>stop\<close> and new threads interleave, every file of the log is a sequence of whole log lines
  and drop notices: no line is torn or continued in the next file.  The lines in the files, taken together, are
  statements' lines in the order of the statements; the notices are those on the standard error stream.  Without
  a notice they are the lines of the first statements: those after them, as for instance what is logged between the
  last round and the return of the logging thread, are in no file.  When the logging thread returns, it
  closes the last of these files, and they stay as they are.\<close>

theorem process_files_whole:
  assumes "process_run g (process_new locals out (AsyncLogging_new basename rollSize flushInterval j1 j2 w)) es p"
    and "world_ok w" and "length j1 = kLargeBuffer" and "length j2 = kLargeBuffer"
    and "\<And>n. locals_ok (g_logTimeZone g) n (locals n)" and "g_flush g = defaultFlush" and "\<forall>e\<in>set es. fits g e"
  shows "\<exists>units. file_texts (logger_of p) = map units_text units \<and> subseq (messages (concat units)) (lines_of g es)
    \<and> (al_stderr (logger_of p) = [] \<longrightarrow> prefix (messages (concat units)) (lines_of g es))
    \<and> concat (notices (concat units)) = al_stderr (logger_of p)
    \<and> (al_pc (logger_of p) = Finished \<longrightarrow>
         (\<exists>w'. be_return (logger_of p) = Some w' \<and> map f_stream (w_closed w') = map units_text units))"
proof -
  obtain aes where a: "async_run (AsyncLogging_new basename rollSize flushInterval j1 j2 w) aes (logger_of p)"
    "sent aes = lines_of g es"
    using process_run_sent[OF assms(1) process_new_ok[OF assms(2-5)] assms(7,6)] by auto
  have "units_inv (logger_of p) ([] @ sent aes)"
    by (rule units_inv_run[OF a(1) async_new_inv(1)[OF assms(2-4)] units_inv_new[OF assms(3)]])
  from units_inv_files[OF this] obtain units where u: "file_texts (logger_of p) = map units_text units"
    "subseq (messages (concat units)) (lines_of g es)"
    "al_stderr (logger_of p) = [] \<longrightarrow> prefix (messages (concat units)) (lines_of g es)"
    "concat (notices (concat units)) = al_stderr (logger_of p)" using a(2) by auto
  have "async_inv (logger_of p)" by (rule async_run_inv[OF a(1) async_new_inv(1)[OF assms(2-4)]])
  from be_return_files[OF this] u show ?thesis by (intro exI[of _ units]) auto
qed

text \<open>C12: How large the files become, whatever the clock shows.  Every file of the asynchronous logger is named
  after the second of some \<open>r\<close>-th reading of the clock, and is larger than \<open>rollSize\<close> by at most one large buffer
  for each reading, from the \<open>r\<close>-th on, that is not past this second: by one buffer where the clock has moved on by
  the next reading, and by more only while it stands, however much the threads log and whether messages are
  dropped or not.\<close>

theorem async_file_size:
  assumes "async_run (AsyncLogging_new basename rollSize flushInterval j1 j2 w) es s"
    "world_ok w" "length j1 = kLargeBuffer" "length j2 = kLargeBuffer" "0 \<le> rollSize" "al_output s = Some l"
  shows "\<forall>f \<in> set (lf_files (l, al_world s)). \<exists>r < w_ticks (al_world s). f_name f = log_name basename (w_clock w r) w
    \<and> int (length (f_stream f)) \<le> rollSize + 4000000 * int (stuck_readings (w_clock w) r (w_ticks (al_world s)))"
proof -
  have "files_sized w basename rollSize (AsyncLogging_new basename rollSize flushInterval j1 j2 w)"
    by (simp add: files_sized_def AsyncLogging_new_def world_moves_def)
  from files_sized_run[OF assms(1) async_new_inv(1)[OF assms(2-4)] this assms(5)]
  have "lf_sized w basename rollSize kLargeBuffer (l, al_world s)" using assms(6) by (simp add: files_sized_def)
  from lf_sized_files[OF this] show ?thesis by (simp add: file_sized_def kLargeBuffer_def)
qed

section \<open>At a concrete process\<close>

theorem process_files_whole_witness:
  "\<exists>p units. process_run log_globals_new demo_process [Starts, hi_event] p \<and> file_texts (logger_of p) = map units_text units
     \<and> prefix (messages (concat units)) [''20210514 08:59:42.000123Z  4711 WARN  hi - main.cc:27'' @ [CHR 0x0A]]"
proof -
  obtain p where p: "process_run log_globals_new demo_process [Starts, hi_event] p" "al_stderr (logger_of p) = []"
    by (rule demo_process_run)
  have "lines_of log_globals_new [Starts, hi_event] = [line_of log_globals_new hi_event]"
    by (simp add: lines_of_def hi_line del: hi_event_def)
  with process_files_whole[OF p(1)[unfolded demo_process_def demo_logger_def] demo_world_ok length_junk_buffer length_junk_buffer
        locals_ok_new demo_globals(3)] hi_fits p
  show ?thesis by (auto simp only: hi_line list.set fits.simps simp_thms ball_simps insert_iff empty_iff)
qed

theorem async_file_size_witness:
  "\<exists>es s l f r. async_run demo_logger es s \<and> al_output s = Some l \<and> f \<in> set (lf_files (l, al_world s))
    \<and> f_name f = log_name ''log'' (w_clock demo_world r) demo_world
    \<and> int (length (f_stream f)) \<le> 500 + 4000000 * int (stuck_readings (w_clock demo_world) r (w_ticks (al_world s)))"
proof -
  obtain es s where s: "async_run demo_logger es s" "al_pc s = Writing" by (rule demo_run_writing) blast
  have "sink_ok s" using async_run_inv[OF s(1) demo_logger_inv(1)] s(2) by (simp add: async_inv_def back_ok_def)
  then obtain l where l: "al_output s = Some l" "lf_ok (l, al_world s)" by (auto simp: sink_ok_def)
  then obtain f where f: "f \<in> set (lf_files (l, al_world s))" by (force simp: lf_ok_def lf_files_def)
  from async_file_size[OF s(1)[unfolded demo_logger_def] _ _ _ _ l(1)] f
  obtain r where "f_name f = log_name ''log'' (w_clock demo_world r) demo_world"
    "int (length (f_stream f)) \<le> 500 + 4000000 * int (stuck_readings (w_clock demo_world) r (w_ticks (al_world s)))"
    by auto
  then show ?thesis using s(1) l(1) f by blast
qed

end
