(* ===== verification/ThreadPool.thy ===== *)
theory ThreadPool
  imports Thread
begin

text \<open>The thread pool (ThreadPool.h, ThreadPool.cc): a task queue with an optional bound, worker threads
  that take tasks, callers that queue them, two condition variables.

  Workers and callers are numbered; each has a program point.  A critical section of \<open>run\<close>, \<open>take\<close> or
  \<open>stop\<close> is one step, from the mutex being taken to its release or to the wait.  \<open>notify\<close> wakes at least one
  of the threads asleep, if there is one; which ones, is an argument of the operation, and threads may also
  wake up for no reason.  Tasks are values; running one is a step of its own.  Two history lists record the
  tasks queued and the tasks taken.\<close>

section \<open>State\<close>

datatype 'task worker_pc = WInit | WTest | WTake | WAsleep | WAwake | WExec 'task | WDone

datatype 'task caller_pc = CIdle | CAsleep 'task | CAwake 'task

record 'task pool =
  tp_queue :: "'task list"
  tp_maxQueueSize :: nat
  tp_running :: bool
  tp_threads :: nat
  tp_worker :: "nat \<Rightarrow> 'task worker_pc"
  tp_callers :: nat
  tp_caller :: "nat \<Rightarrow> 'task caller_pc"
  tp_queued :: "'task list"
  tp_taken :: "'task list"

text \<open>\<open>start(numThreads)\<close> on a new pool with the given bound, used by \<open>callers\<close> threads.\<close>

definition pool_start :: "nat \<Rightarrow> nat \<Rightarrow> nat \<Rightarrow> 'task pool" where
  "pool_start maxSize nThreads callers =
     \<lparr>tp_queue = [], tp_maxQueueSize = maxSize, tp_running = True, tp_threads = nThreads,
      tp_worker = (\<lambda>w. WInit), tp_callers = callers, tp_caller = (\<lambda>c. CIdle), tp_queued = [], tp_taken = []\<rparr>"

definition worker_name :: "bytes \<Rightarrow> nat \<Rightarrow> bytes" where
  "worker_name name i = name @ takeWhile (\<lambda>c. c \<noteq> NUL) (snprintf_mem 32 (fmt_d (int i + 1)))"

definition isFull :: "'task pool \<Rightarrow> bool" where
  "isFull s \<longleftrightarrow> 0 < tp_maxQueueSize s \<and> tp_maxQueueSize s \<le> length (tp_queue s)"

definition queueSize :: "'task pool \<Rightarrow> nat" where
  "queueSize s = length (tp_queue s)"

definition workers_asleep :: "'task pool \<Rightarrow> nat set" where
  "workers_asleep s = {w. w < tp_threads s \<and> tp_worker s w = WAsleep}"

definition workers_awake :: "'task pool \<Rightarrow> nat set" where
  "workers_awake s = {w. w < tp_threads s \<and> tp_worker s w = WAwake}"

definition callers_asleep :: "'task pool \<Rightarrow> nat set" where
  "callers_asleep s = {c. c < tp_callers s \<and> (\<exists>task. tp_caller s c = CAsleep task)}"

definition callers_awake :: "'task pool \<Rightarrow> nat set" where
  "callers_awake s = {c. c < tp_callers s \<and> (\<exists>task. tp_caller s c = CAwake task)}"

definition wake_workers :: "nat set \<Rightarrow> 'task pool \<Rightarrow> 'task pool" where
  "wake_workers W s =
     s\<lparr>tp_worker := (\<lambda>w. if w \<in> W \<and> tp_worker s w = WAsleep then WAwake else tp_worker s w)\<rparr>"

fun wake_pc :: "bool \<Rightarrow> 'task caller_pc \<Rightarrow> 'task caller_pc" where
  "wake_pc woken (CAsleep task) = (if woken then CAwake task else CAsleep task)"
| "wake_pc woken CIdle = CIdle"
| "wake_pc woken (CAwake task) = CAwake task"

definition wake_callers :: "nat set \<Rightarrow> 'task pool \<Rightarrow> 'task pool" where
  "wake_callers C s = s\<lparr>tp_caller := (\<lambda>c. wake_pc (c \<in> C) (tp_caller s c))\<rparr>"

text \<open>What \<open>pthread_cond_signal\<close> may do with the threads asleep.\<close>

definition signal_ok :: "nat set \<Rightarrow> nat set \<Rightarrow> bool" where
  "signal_ok asleep woken \<longleftrightarrow> woken \<subseteq> asleep \<and> (asleep \<noteq> {} \<longrightarrow> woken \<noteq> {})"

section \<open>Operations\<close>

text \<open>\<open>run(task)\<close> by the caller \<open>c\<close>, from the test of the loop on; \<open>None\<close> if the assertion fails.\<close>

definition pool_run :: "nat set \<Rightarrow> nat \<Rightarrow> 'task \<Rightarrow> 'task pool \<Rightarrow> 'task pool option" where
  "pool_run W c task s =
     (if tp_running s \<and> isFull s then Some (s\<lparr>tp_caller := (tp_caller s)(c := CAsleep task)\<rparr>)
      else if \<not> tp_running s then Some (s\<lparr>tp_caller := (tp_caller s)(c := CIdle)\<rparr>)
      else if isFull s then None
      else Some (wake_workers W (s\<lparr>tp_queue := tp_queue s @ [task], tp_queued := tp_queued s @ [task],
                   tp_caller := (tp_caller s)(c := CIdle)\<rparr>)))"

text \<open>Without threads the caller runs the task itself.\<close>

definition pool_run_inline :: "('task \<Rightarrow> 'e \<Rightarrow> 'e) \<Rightarrow> 'task \<Rightarrow> 'e \<Rightarrow> 'e" where
  "pool_run_inline execute task env = execute task env"

text \<open>\<open>take()\<close> by the worker \<open>w\<close>, from the test of the loop on, and what \<open>runInThread\<close> does with the result:
  an empty \<open>Task\<close>, which is what \<open>take\<close> returns for an empty queue, is skipped.\<close>

definition pool_take :: "nat set \<Rightarrow> nat \<Rightarrow> 'task pool \<Rightarrow> 'task pool" where
  "pool_take C w s =
     (if tp_running s \<and> tp_queue s = [] then s\<lparr>tp_worker := (tp_worker s)(w := WAsleep)\<rparr>
      else case tp_queue s of
        [] \<Rightarrow> s\<lparr>tp_worker := (tp_worker s)(w := WTest)\<rparr>
      | task # rest \<Rightarrow>
          let s1 = s\<lparr>tp_queue := rest, tp_taken := tp_taken s @ [task], tp_worker := (tp_worker s)(w := WExec task)\<rparr>
          in if 0 < tp_maxQueueSize s then wake_callers C s1 else s1)"

definition pool_loop_test :: "nat \<Rightarrow> 'task pool \<Rightarrow> 'task pool" where
  "pool_loop_test w s = s\<lparr>tp_worker := (tp_worker s)(w := if tp_running s then WTake else WDone)\<rparr>"

definition pool_stop :: "'task pool \<Rightarrow> 'task pool" where
  "pool_stop s =
     (let s1 = s\<lparr>tp_running := False\<rparr> in wake_callers (callers_asleep s1) (wake_workers (workers_asleep s1) s1))"

text \<open>What a worker does by itself between its waits and its tasks.\<close>

inductive worker_step :: "nat \<Rightarrow> 'task pool \<Rightarrow> 'task pool \<Rightarrow> bool" for w where
  init: "tp_worker s w = WInit \<Longrightarrow> worker_step w s (s\<lparr>tp_worker := (tp_worker s)(w := WTest)\<rparr>)"
| loop_test: "tp_worker s w = WTest \<Longrightarrow> worker_step w s (pool_loop_test w s)"
| take_task: "tp_worker s w = WTake \<or> tp_worker s w = WAwake \<Longrightarrow> signal_ok (callers_asleep s) C \<Longrightarrow>
     worker_step w s (pool_take C w s)"

text \<open>The task of a worker returns.\<close>

definition task_returns :: "nat \<Rightarrow> 'task pool \<Rightarrow> 'task pool" where
  "task_returns w s = s\<lparr>tp_worker := (tp_worker s)(w := WTest)\<rparr>"

text \<open>All steps.  Callers queue tasks only where there are threads (without threads, \<open>run\<close> is \<open>pool_run_inline\<close>); the
  last two rules are the spurious wake-ups.\<close>

inductive pool_step :: "'task pool \<Rightarrow> 'task pool \<Rightarrow> bool" where
  worker: "w < tp_threads s \<Longrightarrow> worker_step w s s' \<Longrightarrow> pool_step s s'"
| execute: "w < tp_threads s \<Longrightarrow> tp_worker s w = WExec task \<Longrightarrow> pool_step s (task_returns w s)"
| run: "0 < tp_threads s \<Longrightarrow> c < tp_callers s \<Longrightarrow> tp_caller s c = CIdle \<or> tp_caller s c = CAwake task \<Longrightarrow>
     signal_ok (workers_asleep s) W \<Longrightarrow> pool_run W c task s = Some s' \<Longrightarrow> pool_step s s'"
| stop: "pool_step s (pool_stop s)"
| wake_caller: "c \<in> callers_asleep s \<Longrightarrow> pool_step s (wake_callers {c} s)"
| wake_worker: "w \<in> workers_asleep s \<Longrightarrow> pool_step s (wake_workers {w} s)"

lemmas pool_worker = pool_step.worker[OF _ worker_step.init] pool_step.worker[OF _ worker_step.loop_test]
  pool_step.worker[OF _ worker_step.take_task]

lemma pool_step_cases [consumes 1, case_names init run wake_caller loop_test take_task wake_worker execute stop]:
  assumes "pool_step s s'"
    and "\<And>w. s' = s\<lparr>tp_worker := (tp_worker s)(w := WTest)\<rparr> \<Longrightarrow> w < tp_threads s \<Longrightarrow> tp_worker s w = WInit \<Longrightarrow> P"
    and "\<And>c task W. c < tp_callers s \<Longrightarrow> tp_caller s c = CIdle \<or> tp_caller s c = CAwake task \<Longrightarrow>
      signal_ok (workers_asleep s) W \<Longrightarrow> pool_run W c task s = Some s' \<Longrightarrow> P"
    and "\<And>c. s' = wake_callers {c} s \<Longrightarrow> c \<in> callers_asleep s \<Longrightarrow> P"
    and "\<And>w. s' = pool_loop_test w s \<Longrightarrow> w < tp_threads s \<Longrightarrow> tp_worker s w = WTest \<Longrightarrow> P"
    and "\<And>w C. s' = pool_take C w s \<Longrightarrow> w < tp_threads s \<Longrightarrow> tp_worker s w = WTake \<or> tp_worker s w = WAwake \<Longrightarrow>
      signal_ok (callers_asleep s) C \<Longrightarrow> P"
    and "\<And>w. s' = wake_workers {w} s \<Longrightarrow> w \<in> workers_asleep s \<Longrightarrow> P"
    and "\<And>w task. s' = s\<lparr>tp_worker := (tp_worker s)(w := WTest)\<rparr> \<Longrightarrow> w < tp_threads s \<Longrightarrow> tp_worker s w = WExec task \<Longrightarrow> P"
    and "s' = pool_stop s \<Longrightarrow> P"
  shows P
  using assms(1)
proof cases
  case (worker w)
  from worker(2) show ?thesis by cases (use worker(1) assms in blast)+
qed (use assms in \<open>auto simp: task_returns_def\<close>)

inductive pool_reachable :: "'task pool \<Rightarrow> 'task pool \<Rightarrow> bool" for s0 where
  start: "pool_reachable s0 s0"
| step: "pool_reachable s0 s \<Longrightarrow> pool_step s s' \<Longrightarrow> pool_reachable s0 s'"

text \<open>What the step relation leaves open: without threads, \<open>start\<close> runs the initial callback itself.\<close>

definition pool_start_callback :: "nat \<Rightarrow> ('e \<Rightarrow> 'e) option \<Rightarrow> 'e \<Rightarrow> 'e" where
  "pool_start_callback nThreads threadInitCallback env =
     (if nThreads = 0 then (case threadInitCallback of Some cb \<Rightarrow> cb env | None \<Rightarrow> env) else env)"

text \<open>How \<open>runInThread\<close> of a worker ends, by what its callback or a task does: the text on stderr and the exit.\<close>

definition pool_runInThread_end :: "bytes \<Rightarrow> func_outcome \<Rightarrow> bytes \<times> thread_exit" where
  "pool_runInThread_end name out =
     (let caught = ''exception caught in ThreadPool '' @ until_NUL (c_string name) @ [CHR 0x0A] in
      case out of
        Completes \<Rightarrow> ([], Returns)
      | Throws ex \<Rightarrow>
          (caught @ ''reason: '' @ until_NUL (Exception_what ex) @ [CHR 0x0A]
             @ ''stack trace: '' @ until_NUL (Exception_stackTrace ex) @ [CHR 0x0A], Aborts)
      | Throws_std what \<Rightarrow> (caught @ ''reason: '' @ what @ [CHR 0x0A], Aborts)
      | Throws_other \<Rightarrow> (''unknown '' @ caught, Rethrows))"

text \<open>A worker's \<open>Thread\<close> runs that function: it sees an unknown exception if the pool rethrows one.\<close>

definition pool_worker_exit :: "bytes \<Rightarrow> func_outcome \<Rightarrow> Thread \<Rightarrow> thread_locals \<Rightarrow> bytes \<times> thread_exit" where
  "pool_worker_exit name out th loc =
     (case pool_runInThread_end name out of
        (msg, Returns) \<Rightarrow> (case runInThread_rest Completes th loc of (_, m, e) \<Rightarrow> (msg @ m, e))
      | (msg, Aborts) \<Rightarrow> (msg, Aborts)
      | (msg, Rethrows) \<Rightarrow> (case runInThread_rest Throws_other th loc of (_, m, e) \<Rightarrow> (msg @ m, e)))"

lemma pool_worker_exit_normal: "snd (pool_worker_exit name out th loc) = Returns \<longleftrightarrow> out = Completes"
  by (cases out; simp add: pool_worker_exit_def pool_runInThread_end_def runInThread_rest_def Let_def)

section \<open>The object\<close>

text \<open>The members a pool has besides its queue and its threads' program points: what the setters before \<open>start\<close>
  change.  \<open>'e\<close> is what a callback works on.\<close>

record 'e ThreadPool =
  obj_name :: bytes
  obj_threadInitCallback :: "('e \<Rightarrow> 'e) option"
  obj_threads :: "bytes list"
  obj_maxQueueSize :: nat
  obj_running :: bool

definition ThreadPool_new :: "bytes \<Rightarrow> 'e ThreadPool" where
  "ThreadPool_new name =
     \<lparr>obj_name = name, obj_threadInitCallback = None, obj_threads = [], obj_maxQueueSize = 0, obj_running = False\<rparr>"

text \<open>The parameter is an \<open>int\<close>, the member a \<open>size_t\<close>.\<close>

definition setMaxQueueSize :: "int \<Rightarrow> 'e ThreadPool \<Rightarrow> 'e ThreadPool" where
  "setMaxQueueSize maxSize p = p\<lparr>obj_maxQueueSize := nat (maxSize mod 2 ^ 64)\<rparr>"

definition setThreadInitCallback :: "('e \<Rightarrow> 'e) option \<Rightarrow> 'e ThreadPool \<Rightarrow> 'e ThreadPool" where
  "setThreadInitCallback cb p = p\<lparr>obj_threadInitCallback := cb\<rparr>"

definition ThreadPool_name :: "'e ThreadPool \<Rightarrow> bytes" where
  "ThreadPool_name p = obj_name p"

text \<open>\<open>start\<close>: the threads with their names, in the order of creation, and the effect of the callback that the
  caller runs itself when there are none.  \<open>None\<close> when the assertion fails or \<open>reserve\<close> throws (a negative number becomes
  a size beyond any vector).\<close>

definition ThreadPool_start :: "int \<Rightarrow> 'e ThreadPool \<Rightarrow> 'e \<Rightarrow> ('e ThreadPool \<times> 'e) option" where
  "ThreadPool_start nThreads p env =
     (if obj_threads p \<noteq> [] then None
      else if nThreads < 0 then None
      else Some (p\<lparr>obj_running := True, obj_threads := map (worker_name (obj_name p)) [0 ..< nat nThreads]\<rparr>,
             pool_start_callback (nat nThreads) (obj_threadInitCallback p) env))"

text \<open>The state of the step relation that a started object is in.\<close>

definition pool_of :: "nat \<Rightarrow> 'e ThreadPool \<Rightarrow> 'task pool" where
  "pool_of callers p =
     (pool_start (obj_maxQueueSize p) (length (obj_threads p)) callers)\<lparr>tp_running := obj_running p\<rparr>"

text \<open>The destructor.\<close>

definition ThreadPool_destroy :: "'task pool \<Rightarrow> 'task pool" where
  "ThreadPool_destroy s = (if tp_running s then pool_stop s else s)"

lemma ThreadPool_start_pool:
  assumes "0 \<le> nThreads"
  shows "\<exists>p env'. ThreadPool_start nThreads (setThreadInitCallback cb (setMaxQueueSize maxSize (ThreadPool_new name))) env = Some (p, env')
    \<and> pool_of callers p = pool_start (nat (maxSize mod 2 ^ 64)) (nat nThreads) callers
    \<and> env' = (case cb of Some f \<Rightarrow> if nThreads = 0 then f env else env | None \<Rightarrow> env)"
  using assms
  by (auto simp: ThreadPool_start_def setThreadInitCallback_def setMaxQueueSize_def ThreadPool_new_def pool_of_def
      pool_start_def pool_start_callback_def split: option.splits)

text \<open>The threads' names are the pool's name with the numbers from 1 on, all different.\<close>

lemma worker_names:
  assumes "n \<le> 2 ^ 31 - 1"
  shows "map (worker_name name) [0 ..< n] = map (\<lambda>i. name @ dec_nat (Suc i)) [0 ..< n]"
    and "distinct (map (worker_name name) [0 ..< n])"
proof -
  have "worker_name name i = name @ dec_nat (Suc i)" if "i < n" for i
  proof -
    have "until_NUL (snprintf_mem 32 (fmt_d (int i + 1))) = fmt_d (int i + 1)"
      by (rule printed_int) (use that assms in \<open>simp add: fits_i32_def\<close>)
    then show ?thesis by (simp add: worker_name_def until_NUL_def fmt_d_def nat_add_distrib)
  qed
  then show e: "map (worker_name name) [0 ..< n] = map (\<lambda>i. name @ dec_nat (Suc i)) [0 ..< n]" by simp
  have "inj dec_nat" by (rule inj_on_inverseI[of _ dec_value]) simp
  then show "distinct (map (worker_name name) [0 ..< n])"
    unfolding e by (auto simp: distinct_map intro!: inj_onI dest: injD)
qed

text \<open>A second start fails, unless the first one made no threads.\<close>

lemma ThreadPool_start_twice:
  assumes "ThreadPool_start n p env = Some (p', env')"
  shows "ThreadPool_start m p' env' = None \<longleftrightarrow> 0 < n \<or> m < 0"
  using assms by (auto simp: ThreadPool_start_def split: if_splits)

text \<open>A negative bound is a huge one.\<close>

lemma setMaxQueueSize_negative:
  "obj_maxQueueSize (setMaxQueueSize (- 1) p) = 2 ^ 64 - 1"
  by (simp add: setMaxQueueSize_def)

section \<open>Invariant\<close>

definition queue_inv :: "'task pool \<Rightarrow> bool" where
  "queue_inv s \<longleftrightarrow> (0 < tp_maxQueueSize s \<longrightarrow> length (tp_queue s) \<le> tp_maxQueueSize s)
     \<and> tp_queued s = tp_taken s @ tp_queue s"

text \<open>No worker sleeps while more tasks are queued than workers are on their way to them, and no caller
  while more slots are free than callers are on their way.\<close>

definition wakeup_inv :: "'task pool \<Rightarrow> bool" where
  "wakeup_inv s \<longleftrightarrow>
     (workers_asleep s \<noteq> {} \<longrightarrow> tp_running s \<and> length (tp_queue s) \<le> card (workers_awake s))
     \<and> (callers_asleep s \<noteq> {} \<longrightarrow> tp_running s \<and> 0 < tp_maxQueueSize s
          \<and> tp_maxQueueSize s \<le> length (tp_queue s) + card (callers_awake s))"

lemma finite_sets [simp]:
  "finite (workers_asleep s)" "finite (workers_awake s)" "finite (callers_asleep s)" "finite (callers_awake s)"
  by (simp_all add: workers_asleep_def workers_awake_def callers_asleep_def callers_awake_def)

lemma worker_sets_update:
  assumes "w < tp_threads s"
  shows "workers_asleep (s\<lparr>tp_worker := (tp_worker s)(w := pc)\<rparr>) =
      (if pc = WAsleep then insert w (workers_asleep s) else workers_asleep s - {w})"
    and "workers_awake (s\<lparr>tp_worker := (tp_worker s)(w := pc)\<rparr>) =
      (if pc = WAwake then insert w (workers_awake s) else workers_awake s - {w})"
  using assms by (auto simp: workers_asleep_def workers_awake_def)

lemma caller_sets_update:
  assumes "c < tp_callers s"
  shows "callers_asleep (s\<lparr>tp_caller := (tp_caller s)(c := pc)\<rparr>) =
      (case pc of CAsleep task \<Rightarrow> insert c (callers_asleep s) | _ \<Rightarrow> callers_asleep s - {c})"
    and "callers_awake (s\<lparr>tp_caller := (tp_caller s)(c := pc)\<rparr>) =
      (case pc of CAwake task \<Rightarrow> insert c (callers_awake s) | _ \<Rightarrow> callers_awake s - {c})"
  using assms by (auto simp: callers_asleep_def callers_awake_def split: caller_pc.splits)

lemma unrelated_sets [simp]:
  "workers_asleep (s\<lparr>tp_caller := f\<rparr>) = workers_asleep s" "workers_awake (s\<lparr>tp_caller := f\<rparr>) = workers_awake s"
  "callers_asleep (s\<lparr>tp_worker := g\<rparr>) = callers_asleep s" "callers_awake (s\<lparr>tp_worker := g\<rparr>) = callers_awake s"
  "workers_asleep (s\<lparr>tp_queue := q\<rparr>) = workers_asleep s" "workers_awake (s\<lparr>tp_queue := q\<rparr>) = workers_awake s"
  "callers_asleep (s\<lparr>tp_queue := q\<rparr>) = callers_asleep s" "callers_awake (s\<lparr>tp_queue := q\<rparr>) = callers_awake s"
  "workers_asleep (s\<lparr>tp_queued := q\<rparr>) = workers_asleep s" "workers_awake (s\<lparr>tp_queued := q\<rparr>) = workers_awake s"
  "callers_asleep (s\<lparr>tp_queued := q\<rparr>) = callers_asleep s" "callers_awake (s\<lparr>tp_queued := q\<rparr>) = callers_awake s"
  "workers_asleep (s\<lparr>tp_taken := q\<rparr>) = workers_asleep s" "workers_awake (s\<lparr>tp_taken := q\<rparr>) = workers_awake s"
  "callers_asleep (s\<lparr>tp_taken := q\<rparr>) = callers_asleep s" "callers_awake (s\<lparr>tp_taken := q\<rparr>) = callers_awake s"
  "workers_asleep (s\<lparr>tp_running := r\<rparr>) = workers_asleep s" "workers_awake (s\<lparr>tp_running := r\<rparr>) = workers_awake s"
  "callers_asleep (s\<lparr>tp_running := r\<rparr>) = callers_asleep s" "callers_awake (s\<lparr>tp_running := r\<rparr>) = callers_awake s"
  by (simp_all add: workers_asleep_def workers_awake_def callers_asleep_def callers_awake_def)

lemma worker_sets_taken:
  assumes "w < tp_threads s"
  shows "workers_asleep (s\<lparr>tp_queue := q, tp_taken := tk, tp_worker := (tp_worker s)(w := WExec task)\<rparr>) = workers_asleep s - {w}"
    and "workers_awake (s\<lparr>tp_queue := q, tp_taken := tk, tp_worker := (tp_worker s)(w := WExec task)\<rparr>) = workers_awake s - {w}"
  using assms by (auto simp: workers_asleep_def workers_awake_def)

lemma caller_sets_queued:
  assumes "c < tp_callers s"
  shows "callers_asleep (s\<lparr>tp_queue := q, tp_queued := qd, tp_caller := (tp_caller s)(c := CIdle)\<rparr>) = callers_asleep s - {c}"
    and "callers_awake (s\<lparr>tp_queue := q, tp_queued := qd, tp_caller := (tp_caller s)(c := CIdle)\<rparr>) = callers_awake s - {c}"
  using assms by (auto simp: callers_asleep_def callers_awake_def)

lemma wake_workers_simps [simp]:
  "tp_queue (wake_workers W s) = tp_queue s" "tp_maxQueueSize (wake_workers W s) = tp_maxQueueSize s"
  "tp_running (wake_workers W s) = tp_running s" "tp_queued (wake_workers W s) = tp_queued s"
  "tp_taken (wake_workers W s) = tp_taken s" "tp_caller (wake_workers W s) = tp_caller s"
  "workers_asleep (wake_workers W s) = workers_asleep s - W"
  "W \<subseteq> workers_asleep s \<Longrightarrow> workers_awake (wake_workers W s) = workers_awake s \<union> W"
  "callers_asleep (wake_workers W s) = callers_asleep s" "callers_awake (wake_workers W s) = callers_awake s"
  by (auto simp: wake_workers_def workers_asleep_def workers_awake_def)

lemma wake_pc_asleep [simp]: "(\<exists>t. wake_pc b pc = CAsleep t) \<longleftrightarrow> \<not> b \<and> (\<exists>t. pc = CAsleep t)"
  by (cases pc) auto

lemma wake_pc_awake [simp]: "(\<exists>t. wake_pc b pc = CAwake t) \<longleftrightarrow> (\<exists>t. pc = CAwake t) \<or> b \<and> (\<exists>t. pc = CAsleep t)"
  by (cases pc) auto

lemma wake_callers_simps [simp]:
  "tp_queue (wake_callers C s) = tp_queue s" "tp_maxQueueSize (wake_callers C s) = tp_maxQueueSize s"
  "tp_running (wake_callers C s) = tp_running s" "tp_queued (wake_callers C s) = tp_queued s"
  "tp_taken (wake_callers C s) = tp_taken s" "tp_worker (wake_callers C s) = tp_worker s"
  "callers_asleep (wake_callers C s) = callers_asleep s - C"
  "C \<subseteq> callers_asleep s \<Longrightarrow> callers_awake (wake_callers C s) = callers_awake s \<union> C"
  "workers_asleep (wake_callers C s) = workers_asleep s" "workers_awake (wake_callers C s) = workers_awake s"
  by (simp_all add: wake_callers_def callers_asleep_def callers_awake_def workers_asleep_def workers_awake_def) auto

lemma asleep_awake_disjoint: "workers_asleep s \<inter> workers_awake s = {}" "callers_asleep s \<inter> callers_awake s = {}"
  by (auto simp: workers_asleep_def workers_awake_def callers_asleep_def callers_awake_def)

text \<open>A signal wakes one thread at least, so the number awake grows if anybody slept.\<close>

lemma card_signal:
  assumes "signal_ok A W" "finite A" "finite B" "A \<inter> B = {}" "A \<noteq> {}"
  shows "Suc (card B) \<le> card (B \<union> W)"
proof -
  have "card (B \<union> W) = card B + card W"
    using assms by (intro card_Un_disjoint) (auto simp: signal_ok_def intro: finite_subset)
  moreover have "0 < card W" using assms by (auto simp: signal_ok_def card_gt_0_iff intro: finite_subset)
  ultimately show ?thesis by simp
qed

lemma pool_run_inv:
  assumes "queue_inv s" "wakeup_inv s" "c < tp_callers s" "tp_caller s c = CIdle \<or> tp_caller s c = CAwake task"
    "signal_ok (workers_asleep s) W"
  shows "\<exists>s'. pool_run W c task s = Some s' \<and> queue_inv s' \<and> wakeup_inv s'"
proof -
  have W: "W \<subseteq> workers_asleep s" using assms(5) by (simp add: signal_ok_def)
  have awake: "card (callers_awake s) \<le> Suc (card (callers_awake s - {c}))"
    by (auto simp: card_Diff_singleton_if)
  show ?thesis
  proof (cases "tp_running s \<and> isFull s")
    case True
    then have "tp_maxQueueSize s \<le> length (tp_queue s)" by (simp add: isFull_def)
    then show ?thesis
      using assms(1,2) True
      by (auto simp: pool_run_def queue_inv_def wakeup_inv_def caller_sets_update[OF assms(3)] isFull_def)
  next
    case nf: False
    show ?thesis
    proof (cases "tp_running s")
      case False
      then show ?thesis
        using assms(1,2) by (auto simp: pool_run_def queue_inv_def wakeup_inv_def caller_sets_update[OF assms(3)])
    next
      case True
      let ?s = "wake_workers W (s\<lparr>tp_queue := tp_queue s @ [task], tp_queued := tp_queued s @ [task],
                   tp_caller := (tp_caller s)(c := CIdle)\<rparr>)"
      have nfull: "\<not> isFull s" using nf True by simp
      have a: "\<forall>x. x \<in> workers_asleep s \<longrightarrow> length (tp_queue s) < card (workers_awake s \<union> W)"
        using assms(2) card_signal[OF assms(5) _ _ asleep_awake_disjoint(1)] by (force simp: wakeup_inv_def)
      have b: "\<forall>x. x \<in> callers_asleep s \<longrightarrow>
          tp_maxQueueSize s \<le> Suc (length (tp_queue s) + card (callers_awake s - {c}))"
        using assms(2) awake by (auto simp: wakeup_inv_def)
      have "queue_inv ?s \<and> wakeup_inv ?s"
        using assms(1,2) nfull W True a b
        by (auto simp: queue_inv_def wakeup_inv_def isFull_def caller_sets_queued[OF assms(3)])
      then show ?thesis using True nfull by (simp add: pool_run_def)
    qed
  qed
qed

lemma pool_take_inv:
  assumes "queue_inv s" "wakeup_inv s" "w < tp_threads s" "tp_worker s w = WTake \<or> tp_worker s w = WAwake"
    "signal_ok (callers_asleep s) C"
  shows "queue_inv (pool_take C w s) \<and> wakeup_inv (pool_take C w s)"
proof -
  have C: "C \<subseteq> callers_asleep s" using assms(5) by (simp add: signal_ok_def)
  have awake: "card (workers_awake s) \<le> Suc (card (workers_awake s - {w}))"
    by (auto simp: card_Diff_singleton_if)
  show ?thesis
  proof (cases "tp_queue s")
    case Nil
    then show ?thesis
      using assms(1,2) by (auto simp: pool_take_def queue_inv_def wakeup_inv_def worker_sets_update[OF assms(3)])
  next
    case (Cons task rest)
    have a: "\<forall>x. x \<in> workers_asleep s - {w} \<longrightarrow> length rest \<le> card (workers_awake s - {w})"
      using assms(2) Cons awake by (auto simp: wakeup_inv_def)
    have b: "\<forall>x. x \<in> callers_asleep s - C \<longrightarrow> tp_maxQueueSize s \<le> length rest + card (callers_awake s \<union> C)"
      using assms(2) Cons card_signal[OF assms(5) _ _ asleep_awake_disjoint(2)] by (force simp: wakeup_inv_def)
    show ?thesis
      using assms(1,2) a b C Cons
      by (auto simp: pool_take_def Let_def queue_inv_def wakeup_inv_def worker_sets_taken[OF assms(3)])
  qed
qed

lemma wakeup_inv_change:
  assumes "wakeup_inv s" "tp_running s' = tp_running s" "tp_queue s' = tp_queue s" "tp_maxQueueSize s' = tp_maxQueueSize s"
    "workers_asleep s' \<subseteq> workers_asleep s" "workers_awake s \<subseteq> workers_awake s'"
    "callers_asleep s' \<subseteq> callers_asleep s" "callers_awake s \<subseteq> callers_awake s'"
  shows "wakeup_inv s'"
  using assms card_mono[OF finite_sets(2)[of s'] assms(6)] card_mono[OF finite_sets(4)[of s'] assms(8)]
  unfolding wakeup_inv_def by fastforce

lemma pool_step_inv:
  assumes "pool_step s s'" "queue_inv s" "wakeup_inv s"
  shows "queue_inv s' \<and> wakeup_inv s'"
  using assms(1)
proof (cases rule: pool_step_cases)
  case (init w)
  then have "wakeup_inv s'"
    by (intro wakeup_inv_change[OF assms(3)]) (auto simp: worker_sets_update workers_awake_def)
  then show ?thesis using assms(2) init by (simp add: queue_inv_def)
next
  case (run c task W)
  then show ?thesis using pool_run_inv[OF assms(2,3), of c task W] by auto
next
  case (wake_caller c)
  then have "wakeup_inv s'" by (intro wakeup_inv_change[OF assms(3)]) auto
  then show ?thesis using assms(2) wake_caller by (simp add: queue_inv_def)
next
  case (loop_test w)
  then have "wakeup_inv s'"
    by (intro wakeup_inv_change[OF assms(3)]) (auto simp: pool_loop_test_def worker_sets_update workers_awake_def)
  then show ?thesis using assms(2) loop_test by (simp add: queue_inv_def pool_loop_test_def)
next
  case (take_task w C)
  then show ?thesis using pool_take_inv[OF assms(2,3)] by blast
next
  case (wake_worker w)
  then have "wakeup_inv s'" by (intro wakeup_inv_change[OF assms(3)]) auto
  then show ?thesis using assms(2) wake_worker by (simp add: queue_inv_def)
next
  case (execute w task)
  then have "wakeup_inv s'"
    by (intro wakeup_inv_change[OF assms(3)]) (auto simp: worker_sets_update workers_awake_def)
  then show ?thesis using assms(2) execute by (simp add: queue_inv_def)
next
  case stop
  then show ?thesis using assms(2) by (simp add: pool_stop_def Let_def queue_inv_def wakeup_inv_def)
qed

lemma pool_reachable_inv:
  "pool_reachable (pool_start maxSize nThreads callers) s \<Longrightarrow> queue_inv s \<and> wakeup_inv s"
proof (induction rule: pool_reachable.induct)
  case start
  then show ?case
    by (simp add: queue_inv_def wakeup_inv_def pool_start_def workers_asleep_def callers_asleep_def)
next
  case (step s s')
  then show ?case using pool_step_inv by blast
qed

section \<open>Properties\<close>

text \<open>C21: The queue is bounded and first-in-first-out in every reachable state: it never holds more than the
  maximal number of tasks (where there is one), and the tasks taken so far are, in their order and each once, the first
  of those that were accepted, while the others are in the queue in the order in which they came; whether they are
  taken later is not stated.  The assertion in \<open>run\<close> holds at every call.\<close>

theorem pool_queue:
  assumes "pool_reachable (pool_start maxSize nThreads callers) s"
    "c < tp_callers s" "tp_caller s c = CIdle \<or> tp_caller s c = CAwake task" "signal_ok (workers_asleep s) W"
  shows "(0 < tp_maxQueueSize s \<longrightarrow> queueSize s \<le> tp_maxQueueSize s)
    \<and> tp_queued s = tp_taken s @ tp_queue s \<and> pool_run W c task s \<noteq> None"
  using pool_reachable_inv[OF assms(1)] pool_run_inv[OF _ _ assms(2-4)] by (auto simp: queue_inv_def queueSize_def)

definition demo_pool :: "nat pool" where
  "demo_pool = pool_start 2 1 1"

theorem pool_queue_witness:
  "queueSize demo_pool \<le> 2 \<and> pool_run {} 0 7 demo_pool \<noteq> None"
  using pool_queue[of 2 1 1 demo_pool 0 7 "{}"] pool_reachable.start[of demo_pool]
  by (simp add: demo_pool_def pool_start_def signal_ok_def workers_asleep_def)

text \<open>C22: No wake-up is lost.  In every reachable state, if tasks are queued and workers sleep, at least as
  many workers as there are tasks have been woken and are about to take one; if slots are free and callers
  sleep, as many callers have been woken; and after \<open>stop\<close> nobody sleeps.\<close>

theorem pool_no_lost_wakeup:
  assumes "pool_reachable (pool_start maxSize nThreads callers) s"
  shows "(workers_asleep s \<noteq> {} \<longrightarrow> length (tp_queue s) \<le> card (workers_awake s))
    \<and> (callers_asleep s \<noteq> {} \<longrightarrow> 0 < tp_maxQueueSize s
         \<and> tp_maxQueueSize s - length (tp_queue s) \<le> card (callers_awake s))
    \<and> (\<not> tp_running s \<longrightarrow> workers_asleep s = {} \<and> callers_asleep s = {})"
  using pool_reachable_inv[OF assms] by (auto simp: wakeup_inv_def)

lemma demo_pool_run:
  obtains s where "pool_reachable (pool_start 2 1 1) (s :: nat pool)" "workers_asleep s = {0}" "tp_queue s = []"
proof -
  let ?s0 = "pool_start 2 1 1 :: nat pool"
  let ?s1 = "?s0\<lparr>tp_worker := (tp_worker ?s0)(0 := WTest)\<rparr>"
  let ?s2 = "pool_loop_test 0 ?s1"
  let ?s3 = "pool_take {} 0 ?s2"
  have "pool_step ?s0 ?s1" by (rule pool_worker(1)) (simp_all add: pool_start_def)
  moreover have "pool_step ?s1 ?s2" by (rule pool_worker(2)) (simp_all add: pool_start_def)
  moreover have "pool_step ?s2 ?s3"
    by (rule pool_worker(3)) (simp_all add: pool_start_def pool_loop_test_def signal_ok_def callers_asleep_def)
  ultimately have "pool_reachable ?s0 ?s3" by (blast intro: pool_reachable.intros)
  moreover have "workers_asleep ?s3 = {0}" "tp_queue ?s3 = []"
    by (auto simp: pool_take_def pool_loop_test_def pool_start_def workers_asleep_def)
  ultimately show thesis by (rule that)
qed

theorem pool_no_lost_wakeup_witness:
  "\<exists>s. workers_asleep (s :: nat pool) = {0} \<and> length (tp_queue s) \<le> card (workers_awake s)"
proof -
  obtain s where s: "pool_reachable (pool_start 2 1 1) (s :: nat pool)" "workers_asleep s = {0}" by (rule demo_pool_run)
  from pool_no_lost_wakeup[OF s(1)] s(2) show ?thesis by auto
qed

text \<open>How many steps a worker still takes once the pool is stopped.\<close>

fun worker_rank :: "'task worker_pc \<Rightarrow> nat" where
  "worker_rank WDone = 0"
| "worker_rank WTest = 1"
| "worker_rank WInit = 2"
| "worker_rank (WExec task) = 2"
| "worker_rank WTake = 3"
| "worker_rank WAwake = 3"
| "worker_rank WAsleep = 4"

lemma pool_step_stopped:
  assumes "pool_step s s'" "wakeup_inv s" "\<not> tp_running s"
  shows "\<not> tp_running s' \<and> (\<forall>v < tp_threads s. worker_rank (tp_worker s' v) \<le> worker_rank (tp_worker s v))"
proof -
  have asleep: "workers_asleep s = {}" "callers_asleep s = {}" using assms(2,3) by (auto simp: wakeup_inv_def)
  show ?thesis
    using assms(1)
  proof (cases rule: pool_step_cases)
    case (run c task W)
    then show ?thesis using assms(3) by (auto simp: pool_run_def)
  next
    case (wake_caller c)
    then show ?thesis using asleep by simp
  next
    case (wake_worker w)
    then show ?thesis using asleep by simp
  next
    case (loop_test w)
    then show ?thesis using assms(3) by (auto simp: pool_loop_test_def)
  next
    case (take_task w C)
    then show ?thesis using assms(3) by (auto simp: pool_take_def Let_def split: list.splits)
  next
    case stop
    have "wake_workers {} s1 = s1" "tp_worker (wake_callers C s1) = tp_worker s1" for s1 :: "'a pool" and C
      by (simp_all add: wake_workers_def)
    then show ?thesis using stop asleep by (simp add: pool_stop_def Let_def)
  qed (use assms(3) in auto)
qed

text \<open>In a stopped pool a worker that has not ended and is not executing a task goes on by itself.\<close>

lemma stopped_worker_moves:
  assumes "wakeup_inv s" "\<not> tp_running s" "w < tp_threads s" "tp_worker s w \<noteq> WDone"
  shows "(\<exists>task. tp_worker s w = WExec task) \<or> (\<exists>s'. worker_step w s s' \<and> worker_rank (tp_worker s' w) < worker_rank (tp_worker s w))"
proof -
  have "tp_worker s w \<noteq> WAsleep" using assms(1-3) by (auto simp: wakeup_inv_def workers_asleep_def)
  moreover have "signal_ok (callers_asleep s) {}" using assms(1,2) by (auto simp: wakeup_inv_def signal_ok_def)
  moreover have "worker_rank (tp_worker (pool_take {} w s) w) < 3"
    using assms(2) by (auto simp: pool_take_def Let_def split: list.splits)
  moreover have "worker_rank (tp_worker (pool_loop_test w s) w) < 1"
    using assms(2) by (simp add: pool_loop_test_def)
  moreover have "worker_rank (tp_worker (s\<lparr>tp_worker := (tp_worker s)(w := WTest)\<rparr>) w) < 2" by simp
  ultimately show ?thesis
    using assms(4) worker_step.init[of s w] worker_step.loop_test[of s w] worker_step.take_task[of s w "{}"]
    by (cases "tp_worker s w") (fastforce)+
qed

lemma task_returns_rank: "tp_worker s w = WExec task \<Longrightarrow> worker_rank (tp_worker (task_returns w s) w) < worker_rank (tp_worker s w)"
  by (simp add: task_returns_def)

end
