(* ===== verification/PoolStop.thy ===== *)
theory PoolStop
  imports ThreadPool
begin

text \<open>The whole of \<open>ThreadPool::stop\<close>: the critical section that ends the pool, and the loop that joins the
  threads one after the other, interleaved with everything the workers and the callers do meanwhile.\<close>

section \<open>The thread in stop\<close>

datatype stopper = Stop_idle | Stop_joining nat | Stop_returned

text \<open>The loop over the threads; \<open>pthread_join\<close> of the thread \<open>i\<close> returns when its function has.\<close>

definition pool_join :: "nat \<Rightarrow> 'task pool \<Rightarrow> stopper option" where
  "pool_join i s =
     (if tp_threads s \<le> i then Some Stop_returned
      else if tp_worker s i = WDone then Some (Stop_joining (Suc i)) else None)"

inductive stop_step :: "'task pool \<times> stopper \<Rightarrow> 'task pool \<times> stopper \<Rightarrow> bool" where
  pool: "pool_step s s' \<Longrightarrow> stop_step (s, j) (s', j)"
| begins: "stop_step (s, Stop_idle) (pool_stop s, Stop_joining 0)"
| joins: "pool_join i s = Some j \<Longrightarrow> stop_step (s, Stop_joining i) (s, j)"

text \<open>The steps that bring \<open>stop\<close> to its return: the workers by themselves, tasks that return, and the joins.  Spurious
  wake-ups are not among them.\<close>

inductive stop_move :: "'task pool \<times> stopper \<Rightarrow> 'task pool \<times> stopper \<Rightarrow> bool" where
  worker: "w < tp_threads s \<Longrightarrow> worker_step w s s' \<Longrightarrow> stop_move (s, j) (s', j)"
| task: "w < tp_threads s \<Longrightarrow> tp_worker s w = WExec task \<Longrightarrow> stop_move (s, j) (task_returns w s, j)"
| joins: "pool_join i s = Some j \<Longrightarrow> stop_move (s, Stop_joining i) (s, j)"

lemma stop_move_step: "stop_move t t' \<Longrightarrow> stop_step t t'"
  by (induction rule: stop_move.induct) (auto intro: stop_step.intros pool_step.intros)

abbreviation stop_steps :: "'task pool \<times> stopper \<Rightarrow> 'task pool \<times> stopper \<Rightarrow> bool" where
  "stop_steps \<equiv> stop_step\<^sup>*\<^sup>*"

inductive_cases stop_stepE: "stop_step (s, j) t"

section \<open>How far the pool is from its end\<close>

fun stopper_rank :: "nat \<Rightarrow> stopper \<Rightarrow> nat" where
  "stopper_rank n Stop_idle = n + 2"
| "stopper_rank n (Stop_joining i) = Suc (n - i)"
| "stopper_rank n Stop_returned = 0"

definition stop_measure :: "'task pool \<times> stopper \<Rightarrow> nat" where
  "stop_measure t =
     (\<Sum>w<tp_threads (fst t). worker_rank (tp_worker (fst t) w)) + stopper_rank (tp_threads (fst t)) (snd t)"

text \<open>The tasks that may still be taken in a stopped pool: one by each worker past the test of its loop.\<close>

fun may_take :: "'task worker_pc \<Rightarrow> nat" where
  "may_take WTake = 1"
| "may_take WAwake = 1"
| "may_take WAsleep = 1"
| "may_take WInit = 0"
| "may_take WTest = 0"
| "may_take (WExec task) = 0"
| "may_take WDone = 0"

definition tasks_bound :: "'task pool \<Rightarrow> nat" where
  "tasks_bound s = length (tp_taken s) + (\<Sum>w<tp_threads s. may_take (tp_worker s w))"

text \<open>What holds from the critical section of \<open>stop\<close> on.\<close>

fun joined :: "nat \<Rightarrow> stopper \<Rightarrow> nat" where
  "joined n Stop_idle = 0"
| "joined n (Stop_joining i) = min i n"
| "joined n Stop_returned = n"

definition stopping :: "'task pool \<times> stopper \<Rightarrow> bool" where
  "stopping t \<longleftrightarrow> queue_inv (fst t) \<and> wakeup_inv (fst t) \<and> \<not> tp_running (fst t) \<and> snd t \<noteq> Stop_idle
     \<and> (\<forall>w < joined (tp_threads (fst t)) (snd t). tp_worker (fst t) w = WDone)"

lemma wake_simps [simp]:
  "tp_threads (wake_workers W s) = tp_threads s" "tp_threads (wake_callers C s) = tp_threads s"
  "tp_worker (wake_callers C s) = tp_worker s" "tp_running (wake_workers W s) = tp_running s"
  "tp_running (wake_callers C s) = tp_running s" "tp_taken (wake_workers W s) = tp_taken s"
  "tp_taken (wake_callers C s) = tp_taken s" "tp_queued (wake_workers W s) = tp_queued s"
  "tp_queued (wake_callers C s) = tp_queued s" "tp_queue (wake_workers W s) = tp_queue s" "tp_queue (wake_callers C s) = tp_queue s"
  by (simp_all add: wake_workers_def wake_callers_def)

lemma pool_step_threads: "pool_step s s' \<Longrightarrow> tp_threads s' = tp_threads s"
  by (cases rule: pool_step_cases)
    (auto simp: pool_run_def pool_take_def pool_loop_test_def pool_stop_def Let_def split: if_splits list.split)

lemma sum_update:
  fixes f :: "'a \<Rightarrow> nat"
  assumes "(w :: nat) < n"
  shows "(\<Sum>v<n. f ((g(w := x)) v)) + f (g w) = (\<Sum>v<n. f (g v)) + f x"
proof -
  have s: "(\<Sum>v<n. h v) = h w + (\<Sum>v\<in>{..<n} - {w}. h v)" for h :: "nat \<Rightarrow> nat"
    using assms by (intro sum.remove) auto
  have "(\<Sum>v\<in>{..<n} - {w}. f ((g(w := x)) v)) = (\<Sum>v\<in>{..<n} - {w}. f (g v))" by (rule sum.cong) auto
  then show ?thesis using s[of "\<lambda>v. f ((g(w := x)) v)"] s[of "\<lambda>v. f (g v)"] by simp
qed

text \<open>A step of a stopped pool: nobody is sent back, no task is queued, and of the tasks one is taken only by a worker
  that was on its way to it.\<close>

lemma pool_step_after_stop:
  assumes "pool_step s s'" "wakeup_inv s" "\<not> tp_running s"
  shows "tasks_bound s' \<le> tasks_bound s \<and> tp_queued s' = tp_queued s
    \<and> (\<forall>w < tp_threads s. tp_worker s w = WDone \<longrightarrow> tp_worker s' w = WDone)"
proof -
  have asleep: "workers_asleep s = {}" "callers_asleep s = {}" using assms(2,3) by (auto simp: wakeup_inv_def)
  note upd = sum_update[where f = may_take and g = "tp_worker s"]
  show ?thesis
    using assms(1)
  proof (cases rule: pool_step_cases)
    case (init w)
    then show ?thesis using upd[of w "tp_threads s" WTest] by (simp add: tasks_bound_def)
  next
    case (run c task W)
    then show ?thesis using assms(3) by (auto simp: pool_run_def tasks_bound_def)
  next
    case (wake_caller c)
    then show ?thesis using asleep by simp
  next
    case (loop_test w)
    then show ?thesis using assms(3) upd[of w "tp_threads s" WDone] by (auto simp: pool_loop_test_def tasks_bound_def)
  next
    case (take_task w C)
    have one: "may_take (tp_worker s w) = 1" "tp_worker s w \<noteq> WDone" using take_task by auto
    show ?thesis
    proof (cases "tp_queue s")
      case Nil
      then show ?thesis using take_task one assms(3) upd[of w "tp_threads s" WTest] by (auto simp: pool_take_def tasks_bound_def)
    next
      case (Cons task rest)
      then show ?thesis using take_task one assms(3) upd[of w "tp_threads s" "WExec task"]
        by (auto simp: pool_take_def tasks_bound_def Let_def)
    qed
  next
    case (wake_worker w)
    then show ?thesis using asleep by simp
  next
    case (execute w task)
    then show ?thesis using upd[of w "tp_threads s" WTest] by (auto simp: tasks_bound_def)
  next
    case stop
    then show ?thesis using asleep by (simp add: pool_stop_def Let_def tasks_bound_def wake_workers_def)
  qed
qed

section \<open>Every step of a pool that is being stopped\<close>

lemma sum_le_bound:
  assumes "\<And>w. w < (n :: nat) \<Longrightarrow> f w \<le> (g w :: nat)"
  shows "(\<Sum>w<n. f w) \<le> (\<Sum>w<n. g w)"
  by (rule sum_mono) (use assms in simp)

lemma stopping_step:
  assumes "stop_step t t'" "stopping t"
  shows "stopping t' \<and> stop_measure t' \<le> stop_measure t \<and> tasks_bound (fst t') \<le> tasks_bound (fst t)
    \<and> tp_queued (fst t') = tp_queued (fst t) \<and> tp_threads (fst t') = tp_threads (fst t)"
  using assms(1)
proof (cases rule: stop_step.cases)
  case (pool s s' j)
  have i: "queue_inv s" "wakeup_inv s" "\<not> tp_running s" using assms(2) pool by (auto simp: stopping_def)
  have a: "queue_inv s'" "wakeup_inv s'" using pool_step_inv[OF pool(3)] i by auto
  note b = pool_step_stopped[OF pool(3) i(2,3)] and c = pool_step_after_stop[OF pool(3) i(2,3)] and n = pool_step_threads[OF pool(3)]
  have "(\<Sum>w<tp_threads s. worker_rank (tp_worker s' w)) \<le> (\<Sum>w<tp_threads s. worker_rank (tp_worker s w))"
    by (rule sum_le_bound) (use b in blast)
  moreover have "joined (tp_threads s) j \<le> tp_threads s" by (cases j) auto
  ultimately show ?thesis using assms(2) pool a b c n by (auto simp: stopping_def stop_measure_def)
next
  case (begins s)
  then show ?thesis using assms(2) by (simp add: stopping_def)
next
  case (joins i s j)
  then show ?thesis using assms(2)
    by (auto simp: pool_join_def stopping_def stop_measure_def less_Suc_eq split: if_splits)
qed

lemma stopping_steps:
  assumes "stop_steps t t'" "stopping t"
  shows "stopping t' \<and> stop_measure t' \<le> stop_measure t \<and> tasks_bound (fst t') \<le> tasks_bound (fst t)
    \<and> tp_queued (fst t') = tp_queued (fst t) \<and> tp_threads (fst t') = tp_threads (fst t)"
  using assms by (induction rule: rtranclp_induct) (use stopping_step order_trans in fastforce)+

text \<open>The progress: the thread the loop waits for comes nearer to its end by itself or when its task returns, or it
  has ended and is joined.\<close>

lemma rank_sum_less:
  assumes "pool_step s s'" "wakeup_inv s" "\<not> tp_running s" "i < tp_threads s"
    "worker_rank (tp_worker s' i) < worker_rank (tp_worker s i)"
  shows "stop_measure (s', j) < stop_measure (s, j)"
proof -
  have "(\<Sum>v<tp_threads s. worker_rank (tp_worker s' v)) < (\<Sum>v<tp_threads s. worker_rank (tp_worker s v))"
    by (rule sum_strict_mono_ex1) (use pool_step_stopped[OF assms(1-3)] assms(4,5) in auto)
  then show ?thesis by (simp add: stop_measure_def pool_step_threads[OF assms(1)])
qed

lemma stopping_progress:
  assumes "stopping (s, j)" "j \<noteq> Stop_returned"
  shows "\<exists>t. stop_move (s, j) t \<and> stop_measure t < stop_measure (s, j)"
proof -
  obtain i where j: "j = Stop_joining i" using assms by (cases j) (auto simp: stopping_def)
  have w: "wakeup_inv s" "\<not> tp_running s" using assms(1) by (auto simp: stopping_def)
  show ?thesis
  proof (cases "pool_join i s")
    case (Some j')
    then have "stop_measure (s, j') < stop_measure (s, j)"
      by (auto simp: pool_join_def stop_measure_def j split: if_splits)
    with stop_move.joins[OF Some] j show ?thesis by blast
  next
    case None
    then have i: "i < tp_threads s" "tp_worker s i \<noteq> WDone" by (auto simp: pool_join_def split: if_splits)
    from stopped_worker_moves[OF w i] show ?thesis
    proof (elim disjE exE conjE)
      fix task assume t: "tp_worker s i = WExec task"
      show ?thesis
        using stop_move.task[OF i(1) t] rank_sum_less[OF pool_step.execute[OF i(1) t] w i(1) task_returns_rank[OF t]] by blast
    next
      fix s' assume s': "worker_step i s s'" "worker_rank (tp_worker s' i) < worker_rank (tp_worker s i)"
      show ?thesis
        using stop_move.worker[OF i(1) s'(1)] rank_sum_less[OF pool_step.worker[OF i(1) s'(1)] w i(1) s'(2)] by blast
    qed
  qed
qed

lemma stopping_returns: "stopping t \<Longrightarrow> \<exists>s'. stop_move\<^sup>*\<^sup>* t (s', Stop_returned)"
proof (induction "stop_measure t" arbitrary: t rule: less_induct)
  case less
  obtain s j where t: "t = (s, j)" by (cases t)
  show ?case
  proof (cases "j = Stop_returned")
    case False
    then obtain t' where t': "stop_move t t'" "stop_measure t' < stop_measure t"
      using stopping_progress[of s j] less.prems t by blast
    with less.hyps[OF t'(2)] stopping_step[OF stop_move_step[OF t'(1)] less.prems] show ?thesis
      by (blast intro: converse_rtranclp_into_rtranclp)
  qed (use t in blast)
qed

lemma stop_begins:
  assumes "pool_reachable (pool_start maxSize nThreads callers) s"
  shows "stopping (pool_stop s, Stop_joining 0)"
proof -
  have "pool_reachable (pool_start maxSize nThreads callers) (pool_stop s)"
    by (rule pool_reachable.step[OF assms pool_step.stop])
  from pool_reachable_inv[OF this] show ?thesis by (simp add: stopping_def pool_stop_def Let_def)
qed

text \<open>What is taken stays taken.\<close>

lemma pool_step_taken: "pool_step s s' \<Longrightarrow> length (tp_taken s) \<le> length (tp_taken s')"
  by (cases rule: pool_step_cases)
    (auto simp: pool_run_def pool_take_def pool_loop_test_def pool_stop_def Let_def split: if_splits list.split)

lemma stop_steps_taken: "stop_steps t t' \<Longrightarrow> length (tp_taken (fst t)) \<le> length (tp_taken (fst t'))"
proof (induction rule: rtranclp_induct)
  case (step u t')
  from step.hyps(2) have "length (tp_taken (fst u)) \<le> length (tp_taken (fst t'))"
    by (cases rule: stop_step.cases) (auto dest: pool_step_taken simp: pool_stop_def Let_def)
  with step.IH show ?case by simp
qed simp

lemma tasks_bound_limit: "tasks_bound s \<le> length (tp_taken s) + tp_threads s"
proof -
  have "(\<Sum>w<tp_threads s. may_take (tp_worker s w)) \<le> (\<Sum>w<tp_threads s. 1)"
  proof (rule sum_mono)
    show "may_take (tp_worker s w) \<le> 1" for w by (cases "tp_worker s w") auto
  qed
  then show ?thesis by (simp add: tasks_bound_def)
qed

lemma stopping_after_return:
  assumes "stopping (s, Stop_returned)" "stop_steps (s, Stop_returned) (s', j)"
  shows "tp_taken s' = tp_taken s \<and> tp_queue s' = tp_queue s"
proof -
  have q: "tp_queued s = tp_taken s @ tp_queue s" using assms(1) by (simp add: stopping_def queue_inv_def)
  have a: "stopping (s', j)" "tasks_bound s' \<le> tasks_bound s" "tp_queued s = tp_queued s'"
    using stopping_steps[OF assms(2,1)] by simp_all
  have q': "tp_queued s = tp_taken s' @ tp_queue s'" using a(1) unfolding a(3) by (simp add: stopping_def queue_inv_def)
  have "tasks_bound s = length (tp_taken s)" using assms(1) by (simp add: tasks_bound_def stopping_def)
  moreover have "length (tp_taken s') \<le> tasks_bound s'" by (simp add: tasks_bound_def)
  ultimately have "length (tp_taken s') = length (tp_taken s)" using a stop_steps_taken[OF assms(2)] by simp
  with q q' show ?thesis by simp
qed

lemma pool_reachable_threads:
  "pool_reachable (pool_start maxSize nThreads callers) s \<Longrightarrow> tp_threads s = nThreads"
  by (induction rule: pool_reachable.induct) (simp_all add: pool_start_def pool_step_threads)

section \<open>The property\<close>

text \<open>C23: \<open>stop\<close> returns, and what it leaves behind.  From the critical section of \<open>stop\<close> on, whatever the workers and
  callers do, nobody is asleep on a condition variable, and the thread in \<open>stop\<close> can come to its return by steps of
  the workers themselves, the return of their tasks and the joins, without a spurious wake-up: until it has
  returned such a step brings it nearer, and no step of anybody undoes it.  Meanwhile no task is queued, and all
  workers together take at most as many tasks as there are workers.  When \<open>stop\<close> has returned every worker has
  ended, and the tasks still in the queue are lost: none of them is ever taken.\<close>

theorem pool_stop_returns:
  assumes "pool_reachable (pool_start maxSize nThreads callers) s" "stop_steps (pool_stop s, Stop_joining 0) (s', j)"
  shows "workers_asleep s' = {} \<and> callers_asleep s' = {}
    \<and> (\<exists>s''. stop_move\<^sup>*\<^sup>* (s', j) (s'', Stop_returned))
    \<and> (j \<noteq> Stop_returned \<longrightarrow> (\<exists>t. stop_move (s', j) t \<and> stop_measure t < stop_measure (s', j)))
    \<and> (\<forall>t. stop_step (s', j) t \<longrightarrow> stop_measure t \<le> stop_measure (s', j))
    \<and> tp_taken s' @ tp_queue s' = tp_queued s \<and> length (tp_taken s') \<le> length (tp_taken s) + nThreads
    \<and> (j = Stop_returned \<longrightarrow> (\<forall>w < nThreads. tp_worker s' w = WDone)
         \<and> (\<forall>s'' j'. stop_steps (s', j) (s'', j') \<longrightarrow> tp_taken s'' = tp_taken s' \<and> tp_queue s'' = tp_queue s'))"
proof -
  have n: "tp_threads s = nThreads" by (rule pool_reachable_threads[OF assms(1)])
  have stop: "tp_taken (pool_stop s) = tp_taken s" "tp_queued (pool_stop s) = tp_queued s" "tp_threads (pool_stop s) = tp_threads s"
    by (simp_all add: pool_stop_def Let_def)
  have a: "stopping (s', j)" "tasks_bound s' \<le> tasks_bound (pool_stop s)" "tp_queued s' = tp_queued s" "tp_threads s' = nThreads"
    using stopping_steps[OF assms(2) stop_begins[OF assms(1)]] stop n by auto
  have "length (tp_taken s') \<le> tasks_bound s'" by (simp add: tasks_bound_def)
  then have "length (tp_taken s') \<le> length (tp_taken s) + nThreads"
    using a(2) tasks_bound_limit[of "pool_stop s"] stop n by simp
  moreover have "tp_taken s' @ tp_queue s' = tp_queued s" using a(1,3) by (simp add: stopping_def queue_inv_def)
  moreover have "j = Stop_returned \<longrightarrow> (\<forall>w < nThreads. tp_worker s' w = WDone)" using a(1,4) by (auto simp: stopping_def)
  moreover have "workers_asleep s' = {}" "callers_asleep s' = {}" using a(1) by (auto simp: stopping_def wakeup_inv_def)
  ultimately show ?thesis
    using stopping_returns[OF a(1)] stopping_progress[OF a(1)] stopping_step[OF _ a(1)] stopping_after_return a(1) by blast
qed

theorem pool_stop_returns_witness:
  "\<exists>s. pool_stop (demo_pool :: nat pool) \<noteq> demo_pool \<and> stop_steps (pool_stop demo_pool, Stop_joining 0) (s, Stop_returned)
     \<and> tp_worker s 0 = WDone \<and> length (tp_taken s) \<le> 1"
proof -
  note r = pool_reachable.start[of "pool_start 2 1 1 :: nat pool"]
  obtain s where "stop_move\<^sup>*\<^sup>* (pool_stop demo_pool, Stop_joining 0) (s, Stop_returned)"
    using pool_stop_returns[OF r rtranclp.rtrancl_refl] by (auto simp: demo_pool_def)
  then have s: "stop_steps (pool_stop demo_pool, Stop_joining 0) (s, Stop_returned)"
    by (rule rtranclp_mono[THEN predicate2D, rotated]) (blast intro: stop_move_step)
  have "tp_running (demo_pool :: nat pool)" "\<not> tp_running (pool_stop (demo_pool :: nat pool))"
    by (simp_all add: pool_stop_def Let_def demo_pool_def pool_start_def)
  then have "pool_stop (demo_pool :: nat pool) \<noteq> demo_pool" by metis
  with s pool_stop_returns[OF r s[unfolded demo_pool_def]] show ?thesis by (auto simp: pool_start_def)
qed

end
