(* ===== verification/PrintTests.thy ===== *)
theory PrintTests
  imports Date LogStream Timestamp
begin

text \<open>What the programs of Date\_unittest.cc and Timestamp\_unittest.cc print, and the loop that LogStream\_bench.cc
  times.  The answers of the clock, of \<open>gmtime\<close> and of \<open>localtime\<close> are arguments.\<close>

definition printf_line :: "string \<Rightarrow> string" where
  "printf_line s = s @ [CHR 0x0A]"

section \<open>Dates\<close>

definition date_passByConstReference :: "Date \<Rightarrow> string" where
  "date_passByConstReference x = printf_line (Date_toIsoString x)"

definition date_passByValue :: "Date \<Rightarrow> string" where
  "date_passByValue x = printf_line (Date_toIsoString x)"

definition Date_unittest :: "tm \<Rightarrow> tm \<Rightarrow> string list" where
  "Date_unittest t1 t2 =
     (let someDay = Date_ofYMD 2021 5 14; todayUtc = Date_ofTm t1; todayLocal = Date_ofTm t2
      in [printf_line (Date_toIsoString someDay), date_passByConstReference someDay, date_passByValue someDay,
          printf_line (Date_toIsoString todayUtc), printf_line (Date_toIsoString todayLocal),
          printf_line (fmt_d (Date_weekDay todayLocal))])"

text \<open>A date from the broken-down time of a second of the epoch is that second's day, on the same day of the week.\<close>

lemma Date_ofTm_gmtime_r:
  assumes "0 \<le> t" "t < year_10000"
  shows "Date_ofTm (gmtime_r t) = Date_ofJulian (kJulianDayOf1970_01_01 + t div seconds_per_day)"
    "Date_weekDay (Date_ofTm (gmtime_r t)) = tm_wday (gmtime_r t)"
proof -
  let ?g = "gmtime_r t" and ?n = "t div seconds_per_day"
  have d: "0 \<le> ?n" using assms by (simp add: seconds_per_day_def)
  have v: "valid_date (tm_year ?g + 1900) (tm_mon ?g + 1) (tm_mday ?g)" "jdn_range (tm_year ?g + 1900) (tm_mon ?g + 1)"
    using gmtime_r_fields(1)[of t] gmtime_r_printable(2)[OF assms] by (simp_all add: jdn_range_def)
  have j: "getJulianDayNumber (tm_year ?g + 1900) (tm_mon ?g + 1) (tm_mday ?g) = 2440588 + ?n"
    using getJulianDayNumber_correct[OF v] gmtime_r_fields(2)[of t] by simp
  have k: "kJulianDayOf1970_01_01 = 2440588" by (simp add: kJulianDayOf1970_01_01_def getJulianDayNumber_def)
  show "Date_ofTm ?g = Date_ofJulian (kJulianDayOf1970_01_01 + ?n)"
    by (simp add: Date_ofTm_def Date_ofJulian_def j k)
  have "Date_weekDay (Date_ofTm ?g) = (?n + 4) mod 7"
    using weekDay_correct[OF v] j d gmtime_r_fields(2)[of t] by (simp add: Date_ofTm_def Date_ofYMD_def)
  then show "Date_weekDay (Date_ofTm ?g) = tm_wday ?g"
    by (simp add: gmtime_r_def Let_def split: prod.split)
qed

text \<open>The text of a date of a four-digit year has ten columns.\<close>

lemma Date_toIsoString_columns:
  assumes "valid_date y m d" "1000 \<le> y" "y < 10000"
  shows "Date_toIsoString (Date_ofYMD y m d) = fmt_d_zero 4 y @ ''-'' @ fmt_d_zero 2 m @ ''-'' @ fmt_d_zero 2 d"
    "length (Date_toIsoString (Date_ofYMD y m d)) = 10"
proof -
  have b: "1 \<le> m" "m \<le> 12" "1 \<le> d" "d \<le> 31" using assms(1) month_days_bounds[of y m] by (auto simp: valid_date_def)
  have l: "length (fmt_d_zero 4 y) = 4" "length (fmt_d_zero 2 m) = 2" "length (fmt_d_zero 2 d) = 2"
    by (rule length_fmt_d_zero; use b assms in simp)+
  have "fmt_d_space 4 y = fmt_d_zero 4 y" by (rule fmt_d_space_eq_zero) (use assms in simp_all)
  moreover have "Date_yearMonthDay (Date_ofYMD y m d) = \<lparr>ymd_year = y, ymd_month = m, ymd_day = d\<rparr>"
    unfolding Date_yearMonthDay_def Date_ofYMD_def
    using getYearMonthDay_of_valid[OF assms(1)] assms(2) by (simp add: jdn_range_def)
  ultimately show "Date_toIsoString (Date_ofYMD y m d) = fmt_d_zero 4 y @ ''-'' @ fmt_d_zero 2 m @ ''-'' @ fmt_d_zero 2 d"
    by (simp add: Date_toIsoString_def Let_def l)
  then show "length (Date_toIsoString (Date_ofYMD y m d)) = 10" by (simp add: l)
qed

text \<open>What the program prints at the second \<open>t\<close> in a place where it is \<open>u\<close> on the clock.\<close>

lemma Date_unittest_prints:
  assumes "0 \<le> t" "t < year_10000" "0 \<le> u" "u < year_10000"
  shows "take 3 (Date_unittest (gmtime_r t) (gmtime_r u)) = replicate 3 (printf_line ''2021-05-14'')"
    "drop 3 (Date_unittest (gmtime_r t) (gmtime_r u)) =
       [printf_line (Date_toIsoString (Date_ofJulian (kJulianDayOf1970_01_01 + t div seconds_per_day))),
        printf_line (Date_toIsoString (Date_ofJulian (kJulianDayOf1970_01_01 + u div seconds_per_day))),
        printf_line (fmt_d (tm_wday (gmtime_r u)))]"
proof -
  have "Date_toIsoString (Date_ofYMD 2021 5 14) = ''2021-05-14''" by code_simp
  then show "take 3 (Date_unittest (gmtime_r t) (gmtime_r u)) = replicate 3 (printf_line ''2021-05-14'')"
    by (simp add: Date_unittest_def Let_def date_passByConstReference_def date_passByValue_def numeral_3_eq_3)
  show "drop 3 (Date_unittest (gmtime_r t) (gmtime_r u)) =
       [printf_line (Date_toIsoString (Date_ofJulian (kJulianDayOf1970_01_01 + t div seconds_per_day))),
        printf_line (Date_toIsoString (Date_ofJulian (kJulianDayOf1970_01_01 + u div seconds_per_day))),
        printf_line (fmt_d (tm_wday (gmtime_r u)))]"
    by (simp add: Date_unittest_def Let_def Date_ofTm_gmtime_r(1)[OF assms(1,2)] Date_ofTm_gmtime_r(2)[OF assms(3,4)]
        flip: Date_ofTm_gmtime_r(1)[OF assms(3,4)])
qed

section \<open>Times\<close>

definition ts_passByConstReference :: "Timestamp \<Rightarrow> string" where
  "ts_passByConstReference x = printf_line (Timestamp_toString x)"

definition ts_passByValue :: "Timestamp \<Rightarrow> string" where
  "ts_passByValue x = printf_line (Timestamp_toString x)"

text \<open>\<open>benchmark\<close> on the answers of \<open>gettimeofday\<close>; \<open>print\<close> is \<open>\"%f\"\<close> of \<open>printf\<close>.  Without a stamp, \<open>front\<close>
  and \<open>back\<close> are undefined.\<close>

definition ts_benchmark :: "(Timestamp \<Rightarrow> Timestamp \<Rightarrow> 'd) \<Rightarrow> ('d \<Rightarrow> string) \<Rightarrow> (int \<times> int) list \<Rightarrow> string list option" where
  "ts_benchmark difference print answers =
     (let stamps = map Timestamp_now answers in
      if stamps = [] then None
      else Some [printf_line (Timestamp_toString (hd stamps)), printf_line (Timestamp_toString (last stamps)),
             printf_line (print (difference (last stamps) (hd stamps)))])"

definition Timestamp_unittest ::
  "(Timestamp \<Rightarrow> Timestamp \<Rightarrow> 'd) \<Rightarrow> ('d \<Rightarrow> string) \<Rightarrow> int \<times> int \<Rightarrow> (int \<times> int) list \<Rightarrow> string list option" where
  "Timestamp_unittest difference print answer answers =
     (let now = Timestamp_now answer in
      map_option (\<lambda>lines. [printf_line (Timestamp_toString now), printf_line (Timestamp_toFormattedString True now),
          ts_passByValue now, ts_passByConstReference now] @ lines)
        (ts_benchmark difference print answers))"

text \<open>The text of a time determines it.\<close>

definition read_toString :: "string \<Rightarrow> int" where
  "read_toString s =
     int (dec_value (take (length s - 7) s)) * kMicroSecondsPerSecond + int (dec_value (drop (length s - 6) s))"

lemma Timestamp_toString_read:
  assumes "0 \<le> us" "us < 2 ^ 63"
  shows "read_toString (Timestamp_toString (Timestamp us)) = us"
proof -
  let ?k = kMicroSecondsPerSecond
  have k: "?k = 1000000" by (simp add: kMicroSecondsPerSecond_def)
  have q: "0 \<le> us div ?k" "us div ?k < 10 ^ 24" "0 \<le> us mod ?k" "us mod ?k < 10 ^ 6"
    using assms by (simp_all add: k)
  then have s: "length (fmt_d (us div ?k)) \<le> 24" "length (fmt_d_zero 6 (us mod ?k)) = 6"
    using length_dec_nat_le[of "nat (us div ?k)" 24] by (simp_all add: fmt_d_def nat_less_iff length_fmt_d_zero)
  have t: "Timestamp_toString (Timestamp us) = fmt_d (us div ?k) @ ''.'' @ fmt_d_zero 6 (us mod ?k)"
    using s assms(1) k by (simp add: Timestamp_toString_def Let_def sdiv_nonneg smod_nonneg)
  have "int (dec_value (fmt_d (us div ?k))) = us div ?k" using q(1) by (simp add: fmt_d_def)
  moreover have "int (dec_value (fmt_d_zero 6 (us mod ?k))) = us mod ?k" by (rule dec_value_fmt_d_zero[OF q(3)])
  ultimately show ?thesis using s by (simp add: t read_toString_def)
qed

section \<open>The loop of the benchmark\<close>

text \<open>\<open>benchLogStream\<close>: \<open>ins\<close> is the insertion of the loop counter, converted to the type of the benchmark.\<close>

definition benchLogStream_step :: "(nat \<Rightarrow> ls_op) \<Rightarrow> nat \<Rightarrow> log_stream \<Rightarrow> log_stream option" where
  "benchLogStream_step ins i os = map_option ls_resetBuffer (ls_apply (ins i) os)"

definition benchLogStream :: "(nat \<Rightarrow> ls_op) \<Rightarrow> nat \<Rightarrow> bytes \<Rightarrow> log_stream option" where
  "benchLogStream ins n junk = fold_opt (benchLogStream_step ins) [0 ..< n] (ls_new junk)"

definition bench_int :: "nat \<Rightarrow> ls_op" where "bench_int i = InsInt (of_nat i)"
definition bench_int64 :: "nat \<Rightarrow> ls_op" where "bench_int64 i = InsLong (of_nat i)"
definition bench_pointer :: "nat \<Rightarrow> ls_op" where "bench_pointer i = InsPointer (of_nat i)"
definition bench_double :: "(nat \<Rightarrow> string) \<Rightarrow> nat \<Rightarrow> ls_op" where "bench_double g i = InsDouble (g i)"

lemma bench_ops:
  "op_ok (bench_int i) \<and> op_need (bench_int i) = 32" "op_ok (bench_int64 i) \<and> op_need (bench_int64 i) = 32"
  "op_ok (bench_pointer i) \<and> op_need (bench_pointer i) = 32"
  "length (g i) < 32 \<Longrightarrow> op_ok (bench_double g i) \<and> op_need (bench_double g i) = 32"
  by (simp_all add: bench_int_def bench_int64_def bench_pointer_def bench_double_def op_ok_def op_need_def kMaxNumericSize_def)

text \<open>Every insertion of the loop finds an empty buffer, writes its number, and the loop ends with an empty buffer.\<close>

definition bench_ready :: "nat \<Rightarrow> log_stream \<Rightarrow> bool" where
  "bench_ready room os \<longleftrightarrow> ls_wf os \<and> ls_text os = [] \<and> fb_end (buffer os) = room"

lemma bench_ready_room: "bench_ready room os \<Longrightarrow> ls_room os = room"
  using length_fb_toString[of "buffer os"] by (simp add: bench_ready_def ls_room_def ls_wf_def ls_text_def)

lemma bench_ready_new: "length junk = kSmallBuffer \<Longrightarrow> bench_ready kSmallBuffer (ls_new junk)"
  by (simp add: kSmallBuffer_def bench_ready_def ls_wf_def ls_new_def fb_new_def fb_wf_def ls_text_def fb_toString_def fb_end_def fb_length_def)

lemma benchLogStream_step_ready:
  assumes "bench_ready room os" "op_ok (ins i)" "op_need (ins i) \<le> room"
  shows "\<exists>s. ls_apply (ins i) os = Some s \<and> ls_text s = op_text (ins i)
    \<and> benchLogStream_step ins i os = Some (ls_resetBuffer s) \<and> bench_ready room (ls_resetBuffer s)"
proof -
  obtain s where "ls_apply (ins i) os = Some s" "ls_wf s" "fb_end (buffer s) = room" "ls_text s = op_text (ins i)"
    using ls_apply_appends[of os "ins i"] assms bench_ready_room[OF assms(1)] by (auto simp: bench_ready_def)
  then show ?thesis
    by (auto simp: benchLogStream_step_def bench_ready_def ls_resetBuffer_def fb_reset_def ls_wf_def fb_wf_def ls_text_def
        fb_toString_def fb_length_def fb_end_def)
qed

lemma benchLogStream_ends:
  assumes "\<And>i. op_ok (ins i) \<and> op_need (ins i) \<le> kSmallBuffer" "length junk = kSmallBuffer"
  shows "\<exists>os. benchLogStream ins n junk = Some os \<and> bench_ready kSmallBuffer os"
proof (induction n)
  case 0
  then show ?case using bench_ready_new[OF assms(2)] by (simp add: benchLogStream_def)
next
  case (Suc n)
  then obtain os where os: "benchLogStream ins n junk = Some os" "bench_ready kSmallBuffer os" by blast
  with benchLogStream_step_ready[of kSmallBuffer os ins n] assms(1)[of n] show ?case
    by (auto simp: benchLogStream_def fold_opt_append)
qed

lemma benchLogStream_all:
  assumes "length junk = kSmallBuffer" "\<And>i. length (g i) < 32"
  shows "benchLogStream bench_int n junk \<noteq> None" "benchLogStream bench_int64 n junk \<noteq> None"
    "benchLogStream bench_pointer n junk \<noteq> None" "benchLogStream (bench_double g) n junk \<noteq> None"
  using benchLogStream_ends[of bench_int junk n] benchLogStream_ends[of bench_int64 junk n]
    benchLogStream_ends[of bench_pointer junk n] benchLogStream_ends[of "bench_double g" junk n] bench_ops assms
  by (simp_all add: kSmallBuffer_def) (metis option.distinct(1))+

end
