(* ===== verification/Programs.thy ===== *)
theory Programs
  imports Process
begin

text \<open>The programs of tests/ that drive the whole library: LogFile_test.cc, which logs straight into a log file, and
  the statements of the two benchmarks of the asynchronous logger.\<close>

section \<open>LogFile\_test.cc\<close>

definition outputFunc :: "bytes \<Rightarrow> int \<Rightarrow> (LogFile \<times> world) io \<Rightarrow> (LogFile \<times> world) io option" where
  "outputFunc msg len o' = map_option (\<lambda>s. o'\<lparr>io_rest := s\<rparr>) (LogFile_append (take (nat len) msg) (io_rest o'))"

definition test_line :: string where
  "test_line = ''1234567890 abcdefghijklmnopqrstuvwxyz ABCDEFGHIJKLMNOPQRSTUVWXYZ ''"

text \<open>The body of the loop; \<open>site i\<close> is what the i-th execution of the statement finds around it.\<close>

definition log_file_step ::
  "(LogFile \<times> world) log_globals \<Rightarrow> (nat \<Rightarrow> log_site) \<Rightarrow> nat
     \<Rightarrow> log_locals \<times> (LogFile \<times> world) io \<Rightarrow> (log_locals \<times> (LogFile \<times> world) io) option" where
  "log_file_step g site i st =
     (case log_statement g LOG_INFO (site i) [InsString test_line, InsInt (of_nat i)] st of
        Some (Goes_on, st') \<Rightarrow> Some st'
      | _ \<Rightarrow> None)"

definition log_file_main ::
  "(LogFile \<times> world) log_globals \<Rightarrow> bytes \<Rightarrow> (nat \<Rightarrow> log_site) \<Rightarrow> log_locals \<Rightarrow> FILE \<Rightarrow> world
     \<Rightarrow> (log_locals \<times> (LogFile \<times> world) io) option" where
  "log_file_main g basename site l out w =
     Option.bind (LogFile_new basename 200000 True 3 1024 w)
       (\<lambda>s. fold_opt (log_file_step (setOutput outputFunc g) site) [0..<10000] (l, \<lparr>io_stdout = out, io_rest = s\<rparr>))"

definition test_text :: "'x log_globals \<Rightarrow> (nat \<Rightarrow> log_site) \<Rightarrow> nat \<Rightarrow> bytes" where
  "test_text g site i =
     log_line LOG_INFO (site_tm (g_logTimeZone g) (site i)) (g_logTimeZone g) (site i) [InsString test_line, InsInt (of_nat i)]"

text \<open>Each call site is sound and leaves room for the message.\<close>

definition quiet_site :: "TimeZone \<Rightarrow> int \<Rightarrow> log_site \<Rightarrow> bool" where
  "quiet_site tz n site \<longleftrightarrow> site_ok tz site \<and> ls_gettid site = n \<and> site_need site \<le> 800"

lemma test_ops:
  "\<forall>op\<in>set [InsString test_line, InsInt (of_nat i)]. op_ok op"
  "sum_list (map op_need [InsString test_line, InsInt (of_nat i)]) \<le> 200"
proof -
  have t: "length test_line = 65" "NUL \<notin> set test_line" by (simp_all add: test_line_def)
  from string_ops [OF t(2)] t(1) show
    "\<forall>op\<in>set [InsString test_line, InsInt (of_nat i)]. op_ok op"
    "sum_list (map op_need [InsString test_line, InsInt (of_nat i)]) \<le> 200"
    by (simp_all add: op_ok_def op_need_def kMaxNumericSize_def)
qed

lemma log_file_step_appends:
  assumes "logLevel g \<le> INFO" and "quiet_site (g_logTimeZone g) n (site i)" and "locals_ok (g_logTimeZone g) n l"
    and "LogFile_append (test_text g site i) s = Some s'"
  shows "\<exists>l'. log_file_step (setOutput outputFunc g) site i (l, \<lparr>io_stdout = out, io_rest = s\<rparr>)
      = Some (l', \<lparr>io_stdout = out, io_rest = s'\<rparr>) \<and> locals_ok (g_logTimeZone g) n l'"
proof -
  let ?g = "setOutput outputFunc g"
  have f: "logLevel ?g = logLevel g" "g_logTimeZone ?g = g_logTimeZone g" "g_output ?g = outputFunc"
    by (simp_all add: setOutput_def logLevel_def)
  have "macro_guard LOG_INFO (logLevel ?g)" "site_ok (g_logTimeZone ?g) (site i)"
    "locals_ok (g_logTimeZone ?g) (ls_gettid (site i)) l" using assms(1-3) by (simp_all add: f quiet_site_def)
  moreover have "sum_list (map op_need [InsString test_line, InsInt (of_nat i)]) + site_need (site i) \<le> kSmallBuffer"
    using test_ops(2) [of i] assms(2) by (simp add: quiet_site_def kSmallBuffer_def)
  ultimately obtain mem l' where r: "locals_ok (g_logTimeZone g) n l'" "take (length (test_text g site i)) mem = test_text g site i"
    "log_statement ?g LOG_INFO (site i) [InsString test_line, InsInt (of_nat i)] (l, \<lparr>io_stdout = out, io_rest = s\<rparr>) =
       map_option (\<lambda>o1. (Goes_on, l', o1)) (outputFunc mem (int (length (test_text g site i))) \<lparr>io_stdout = out, io_rest = s\<rparr>)"
    using log_statement_hands_over [of LOG_INFO ?g "site i" l "[InsString test_line, InsInt (of_nat i)]"
        "\<lparr>io_stdout = out, io_rest = s\<rparr>", OF _ _ _ test_ops(1)] assms(2)
    by (auto simp: f test_text_def quiet_site_def)
  have "outputFunc mem (int (length (test_text g site i))) \<lparr>io_stdout = out, io_rest = s\<rparr> = Some \<lparr>io_stdout = out, io_rest = s'\<rparr>"
    using r(2) assms(4) by (simp add: outputFunc_def)
  with r(1,3) show ?thesis by (simp add: log_file_step_def)
qed

lemma log_file_loop:
  assumes "logLevel g \<le> INFO" and "\<And>i. quiet_site (g_logTimeZone g) n (site i)" and "locals_ok (g_logTimeZone g) n l"
    and "fold_opt lf_apply (map (\<lambda>i. LfAppend (test_text g site i)) is) s = Some s'"
  shows "\<exists>l'. fold_opt (log_file_step (setOutput outputFunc g) site) is (l, \<lparr>io_stdout = out, io_rest = s\<rparr>)
    = Some (l', \<lparr>io_stdout = out, io_rest = s'\<rparr>)"
  using assms(3,4)
proof (induction "is" arbitrary: l s)
  case Nil
  then show ?case by simp
next
  case (Cons i "is")
  then obtain s1 where s1: "LogFile_append (test_text g site i) s = Some s1"
    "fold_opt lf_apply (map (\<lambda>i. LfAppend (test_text g site i)) is) s1 = Some s'" by (auto split: option.splits)
  from log_file_step_appends [OF assms(1,2) Cons.prems(1) s1(1)] obtain l1 where
    "log_file_step (setOutput outputFunc g) site i (l, \<lparr>io_stdout = out, io_rest = s\<rparr>) = Some (l1, \<lparr>io_stdout = out, io_rest = s1\<rparr>)"
    "locals_ok (g_logTimeZone g) n l1" by blast
  with Cons.IH [OF _ s1(2)] show ?case by simp
qed

lemma lf_lines_appends [simp]: "lf_lines (map (\<lambda>i. LfAppend (f i)) is) = map f is"
  by (induction "is") simp_all

text \<open>The program LogFile\_test.cc.  Logging synchronously into a log file, its 10000 statements all go
  on, and the files it leaves behind hold, oldest file first, exactly the 10000 formatted lines in the order
  of the loop, no line split over two files.\<close>

theorem log_file_main_lines:
  assumes "w_healthy w" and "0 < w_clock w (w_ticks w)" and "w_closed w = []"
    and "logLevel g \<le> INFO" and "\<And>i. quiet_site (g_logTimeZone g) n (site i)" and "locals_ok (g_logTimeZone g) n l"
  shows "\<exists>l' s groups. log_file_main g basename site l out w = Some (l', \<lparr>io_stdout = out, io_rest = s\<rparr>)
    \<and> map f_stream (lf_files s) = map concat groups \<and> concat groups = map (test_text g site) [0..<10000]"
proof -
  obtain l1 w1 where n: "LogFile_new basename 200000 True 3 1024 w = Some (l1, w1)"
    "lf_ok (l1, w1)" "map snd (lf_log l1 w1) = map concat [[]]"
    using LogFile_new_ok [OF assms(1-3), of basename 200000 True 3 1024] by auto
  from lf_run_grouped [OF n(2,3), of "map (\<lambda>i. LfAppend (test_text g site i)) [0..<10000]"] obtain l2 w2 groups where
    r: "fold_opt lf_apply (map (\<lambda>i. LfAppend (test_text g site i)) [0..<10000]) (l1, w1) = Some (l2, w2)"
      "map snd (lf_log l2 w2) = map concat groups" "concat groups = map (test_text g site) [0..<10000]"
    unfolding lf_lines_appends by auto
  from log_file_loop [OF assms(4-6) r(1)] obtain l' where
    "fold_opt (log_file_step (setOutput outputFunc g) site) [0..<10000] (l, \<lparr>io_stdout = out, io_rest = (l1, w1)\<rparr>)
       = Some (l', \<lparr>io_stdout = out, io_rest = (l2, w2)\<rparr>)" by blast
  with n(1) have "log_file_main g basename site l out w = Some (l', \<lparr>io_stdout = out, io_rest = (l2, w2)\<rparr>)"
    by (simp add: log_file_main_def)
  moreover have "map f_stream (lf_files (l2, w2)) = map concat groups" using r(2) by (simp add: lf_log_def comp_def)
  ultimately show ?thesis using r(3) by blast
qed

theorem log_file_main_lines_witness:
  "\<exists>l' s groups. log_file_main log_globals_new ''log'' (\<lambda>_. demo_site ''main'') (log_locals_new thread_locals_new)
       (io_stdout (demo_io ())) demo_world = Some (l', \<lparr>io_stdout = io_stdout (demo_io ()), io_rest = s\<rparr>)
    \<and> map f_stream (lf_files s) = map concat groups \<and> length (concat groups) = 10000"
proof -
  let ?g = "log_globals_new :: (LogFile \<times> world) log_globals"
  have g: "g_logTimeZone ?g = TimeZone_none" "logLevel ?g = INFO" by (simp_all add: log_globals_new_def logLevel_def)
  have "quiet_site (g_logTimeZone ?g) 4711 (demo_site ''main'')"
    using demo_site_ok [of "''main''"] unfolding g by (simp add: quiet_site_def) (simp add: demo_site_def site_need_def)
  with log_file_main_lines [of demo_world ?g 4711 "\<lambda>_. demo_site ''main''" "log_locals_new thread_locals_new" "''log''" "io_stdout (demo_io ())"]
  obtain l' s groups where "log_file_main ?g ''log'' (\<lambda>_. demo_site ''main'') (log_locals_new thread_locals_new)
       (io_stdout (demo_io ())) demo_world = Some (l', \<lparr>io_stdout = io_stdout (demo_io ()), io_rest = s\<rparr>)"
    "map f_stream (lf_files s) = map concat groups" "concat groups = map (test_text ?g (\<lambda>_. demo_site ''main'')) [0..<10000]"
    using locals_ok_new by (auto simp: g(2))
  moreover from this(3) have "length (concat groups) = 10000" by simp
  ultimately show ?thesis by blast
qed

section \<open>The statements of the benchmarks\<close>

text \<open>\<open>bench\<close> of AsyncLogging\_test.cc, in the iteration with counter \<open>cnt\<close>, and of AsyncLogging\_bench.cc.\<close>

definition bench_ops :: "bool \<Rightarrow> nat \<Rightarrow> ls_op list" where
  "bench_ops longLog cnt =
     [InsCstr (Some (c_string ''Hello 0123456789'')), InsCstr (Some (c_string '' abcdefghijklmnopqrstuvwxyz '')),
      InsString (if longLog then replicate 3000 CHR ''X'' @ '' '' else '' ''), InsInt (of_nat cnt)]"

definition bench100_ops :: "nat \<Rightarrow> ls_op list" where
  "bench100_ops cnt =
     [InsCstr (Some (c_string ''Hello 0123456789'')), InsCstr (Some (c_string '' abcdefghijklmnopqrstuvwxyz '')),
      InsCstr (Some (c_string '' '')), InsInt (of_nat cnt)]"

text \<open>All of them fit, the ones with the long string as well.\<close>

lemma four_fit:
  assumes "quiet_site (g_logTimeZone g) n site"
    and "NUL \<notin> set a" and "NUL \<notin> set b" and "NUL \<notin> set t" and "length a + length b + length t \<le> 3100"
  shows "fits g (Says junk LOG_INFO site [InsCstr (Some (c_string a)), InsCstr (Some (c_string b)), InsString t, InsInt v])"
    and "fits g (Says junk LOG_INFO site [InsCstr (Some (c_string a)), InsCstr (Some (c_string b)), InsCstr (Some (c_string t)), InsInt v])"
  using assms string_ops [OF assms(2)] string_ops [OF assms(3)] string_ops [OF assms(4)] int_op [of v]
  by (simp_all add: quiet_site_def kSmallBuffer_def del: op_text.simps)

lemma bench_fits:
  assumes "quiet_site (g_logTimeZone g) n site"
  shows "fits g (Says junk LOG_INFO site (bench_ops longLog cnt))" and "fits g (Says junk LOG_INFO site (bench100_ops cnt))"
  unfolding bench_ops_def bench100_ops_def
  by (rule four_fit [OF assms]; simp)+

end
