(* ===== verification/LoggingTest.thy ===== *)
theory LoggingTest
  imports Programs
begin

text \<open>Logging\_test.cc: the output function that counts bytes in a global \<open>int\<close>, and the benchmark of a million
  statements.  The counter is checked against \<open>int\<close> at every addition.\<close>

text \<open>\<open>io_rest\<close> holds \<open>g_total\<close> and \<open>g_file\<close>, \<open>None\<close> for the null pointer.  An overflow of \<open>g_total\<close> is undefined
  behaviour.\<close>

definition dummyOutput :: "bytes \<Rightarrow> int \<Rightarrow> (int \<times> FILE option) io \<Rightarrow> (int \<times> FILE option) io option" where
  "dummyOutput msg len o' =
     (case io_rest o' of
        (g_total, g_file) \<Rightarrow>
          map_option (\<lambda>cnt. o'\<lparr>io_rest :=
              (cnt, map_option (\<lambda>f. snd (fwrite_unlocked (take (nat len) msg) f)) g_file)\<rparr>)
            (chk (g_total + len)))"

definition logging_bench_ops :: "nat \<Rightarrow> ls_op list" where
  "logging_bench_ops i =
     (let kLongLog = False; empty = '' ''; longStr = replicate 3000 CHR ''X'' @ '' ''
      in [InsCstr (Some (c_string ''Hello 0123456789'')), InsCstr (Some (c_string '' abcdefghijklmnopqrstuvwxyz'')),
          InsString (if kLongLog then longStr else empty), InsInt (of_nat i)])"

definition logging_bench_step ::
  "(int \<times> FILE option) log_globals \<Rightarrow> (nat \<Rightarrow> log_site) \<Rightarrow> nat
     \<Rightarrow> log_locals \<times> (int \<times> FILE option) io \<Rightarrow> (log_locals \<times> (int \<times> FILE option) io) option" where
  "logging_bench_step g site i st =
     (case log_statement g LOG_INFO (site i) (logging_bench_ops i) st of
        Some (Goes_on, st') \<Rightarrow> Some st'
      | _ \<Rightarrow> None)"

text \<open>\<open>bench\<close>: it installs the output function and starts counting at 0.\<close>

definition logging_bench ::
  "(int \<times> FILE option) log_globals \<Rightarrow> (nat \<Rightarrow> log_site) \<Rightarrow> nat \<Rightarrow> log_locals \<Rightarrow> (int \<times> FILE option) io
     \<Rightarrow> (log_locals \<times> (int \<times> FILE option) io) option" where
  "logging_bench g site n l o' =
     fold_opt (logging_bench_step (setOutput dummyOutput g) site) [0 ..< n]
       (l, o'\<lparr>io_rest := (0, snd (io_rest o'))\<rparr>)"

definition bench_text :: "'x log_globals \<Rightarrow> (nat \<Rightarrow> log_site) \<Rightarrow> nat \<Rightarrow> bytes" where
  "bench_text g site i =
     log_line LOG_INFO (site_tm (g_logTimeZone g) (site i)) (g_logTimeZone g) (site i) (logging_bench_ops i)"

lemma logging_bench_ops_fit:
  "\<forall>op\<in>set (logging_bench_ops i). op_ok op" "sum_list (map op_need (logging_bench_ops i)) \<le> 200"
proof -
  have "NUL \<notin> set ''Hello 0123456789''" "NUL \<notin> set '' abcdefghijklmnopqrstuvwxyz''" "NUL \<notin> set '' ''" by simp_all
  from this[THEN string_ops(1)] this[THEN string_ops(3)] this[THEN string_ops(4)] this[THEN string_ops(6)] int_op[of "of_nat i"]
  show "\<forall>op\<in>set (logging_bench_ops i). op_ok op" "sum_list (map op_need (logging_bench_ops i)) \<le> 200"
    by (simp_all add: logging_bench_ops_def)
qed

lemma logging_bench_step_counts:
  assumes "logLevel g \<le> INFO" and "quiet_site (g_logTimeZone g) n (site i)" and "locals_ok (g_logTimeZone g) n l"
    and "0 \<le> cnt" "cnt < 2 ^ 31 - 1000"
  shows "\<exists>l' f'. logging_bench_step (setOutput dummyOutput g) site i (l, o'\<lparr>io_rest := (cnt, f)\<rparr>)
      = Some (l', o'\<lparr>io_rest := (cnt + int (length (bench_text g site i)), f')\<rparr>)
    \<and> locals_ok (g_logTimeZone g) n l' \<and> length (bench_text g site i) \<le> 1000"
proof -
  let ?g = "setOutput dummyOutput g"
  have f: "logLevel ?g = logLevel g" "g_logTimeZone ?g = g_logTimeZone g" "g_output ?g = dummyOutput"
    by (simp_all add: setOutput_def logLevel_def)
  have guard: "macro_guard LOG_INFO (logLevel ?g)" and site: "site_ok (g_logTimeZone ?g) (site i)"
    and loc: "locals_ok (g_logTimeZone ?g) (ls_gettid (site i)) l"
    using assms(1-3) by (simp_all add: f quiet_site_def)
  have need: "sum_list (map op_need (logging_bench_ops i)) + site_need (site i) \<le> 1000"
    using logging_bench_ops_fit(2)[of i] assms(2) by (simp add: quiet_site_def)
  obtain l1 where l1: "time_ready (g_logTimeZone ?g) (site i) (site_tm (g_logTimeZone ?g) (site i)) l l1"
    "locals_ok (g_logTimeZone ?g) (ls_gettid (site i)) (l1\<lparr>lg_thread := site_thread (site i) l1\<rparr>)"
    using time_ready_fresh[OF site loc] by blast
  obtain mem where m: "length (bench_text g site i) \<le> 1000"
    "log_statement ?g LOG_INFO (site i) (logging_bench_ops i) (l, o'\<lparr>io_rest := (cnt, f)\<rparr>) =
      map_option (\<lambda>o1. (Goes_on, l1\<lparr>lg_thread := site_thread (site i) l1\<rparr>, o1))
        (dummyOutput mem (int (length (bench_text g site i))) (o'\<lparr>io_rest := (cnt, f)\<rparr>))"
    using log_statement_chain[OF guard site l1(1) logging_bench_ops_fit(1)[of i], of "o'\<lparr>io_rest := (cnt, f)\<rparr>"] need
    by (auto simp: f bench_text_def kSmallBuffer_def)
  moreover have "chk (cnt + int (length (bench_text g site i))) = Some (cnt + int (length (bench_text g site i)))"
    using m(1) assms(4,5) by (intro chk_Some) linarith+
  ultimately show ?thesis
    using l1(2) assms(2) by (auto simp: logging_bench_step_def dummyOutput_def f(2) quiet_site_def intro!: exI)
qed

text \<open>The benchmark of up to two million statements: all go on, and the global counter ends as the number of
  bytes of all lines, without an overflow on the way.\<close>

theorem logging_bench_total:
  assumes "logLevel g \<le> INFO" and "\<And>i. quiet_site (g_logTimeZone g) me (site i)" and "locals_ok (g_logTimeZone g) me l"
    and "n \<le> 2000000"
  shows "\<exists>l' file. logging_bench g site n l o'
      = Some (l', o'\<lparr>io_rest := (\<Sum>i<n. int (length (bench_text g site i)), file)\<rparr>)
    \<and> locals_ok (g_logTimeZone g) me l' \<and> (\<Sum>i<n. int (length (bench_text g site i))) \<le> 1000 * int n"
  using assms(4)
proof (induction n)
  case 0
  then show ?case using assms(3) by (auto simp: logging_bench_def)
next
  case (Suc n)
  let ?sum = "\<Sum>i<n. int (length (bench_text g site i))"
  obtain l1 f1 where l1: "logging_bench g site n l o' = Some (l1, o'\<lparr>io_rest := (?sum, f1)\<rparr>)"
    "locals_ok (g_logTimeZone g) me l1" "?sum \<le> 1000 * int n"
    using Suc by auto
  have "0 \<le> ?sum" "?sum < 2 ^ 31 - 1000" using l1(3) Suc.prems by (auto intro: sum_nonneg)
  from logging_bench_step_counts[where site = site and i = n and o' = o' and f = f1, OF assms(1) _ l1(2) this] assms(2) obtain l2 f2 where
    "logging_bench_step (setOutput dummyOutput g) site n (l1, o'\<lparr>io_rest := (?sum, f1)\<rparr>)
      = Some (l2, o'\<lparr>io_rest := (?sum + int (length (bench_text g site n)), f2)\<rparr>)"
    "locals_ok (g_logTimeZone g) me l2" "length (bench_text g site n) \<le> 1000" by auto
  with l1 show ?case by (auto simp: logging_bench_def fold_opt_append)
qed

end
