(* ===== verification/StreamTest.thy ===== *)
theory StreamTest
  imports LogStream
begin

text \<open>The program LogStream\_test.cc: its test cases as lists of insertions, checks and resets, run on the model
  of the stream from a fresh buffer with any contents.  The cases on floating point numbers and on \<open>Fmt\<close> check
  \<open>snprintf\<close> only, whose texts are arguments of the model, and are left out.\<close>

datatype test_step =
    Insert ls_op
  | Check_text string
  | Check_length int
  | Check_avail int
  | Reset

fun run_test :: "test_step list \<Rightarrow> log_stream \<Rightarrow> bool" where
  "run_test [] os = True"
| "run_test (Insert i # ts) os = (case ls_apply i os of None \<Rightarrow> False | Some os' \<Rightarrow> run_test ts os')"
| "run_test (Check_text t # ts) os = (fb_toString (buffer os) = t \<and> run_test ts os)"
| "run_test (Check_length n # ts) os = (int (fb_length (buffer os)) = n \<and> run_test ts os)"
| "run_test (Check_avail n # ts) os = (fb_avail (buffer os) = n \<and> run_test ts os)"
| "run_test (Reset # ts) os = run_test ts (ls_resetBuffer os)"

abbreviation literal :: "string \<Rightarrow> ls_op" where
  "literal t \<equiv> InsCstr (Some (c_string t))"

text \<open>A character is passed by value: what follows it on the stack is up to the compiler, but for the \<open>strcpy\<close>
  of \<open>append\<close> to be defined it must hold a NUL.\<close>

definition testLogStreamBooleans :: "bytes \<Rightarrow> test_step list" where
  "testLogStreamBooleans stack =
     [Check_text '''', Insert (InsBool True), Check_text ''1'', Insert (InsChar stack CHR 0x0A),
      Check_text (''1'' @ [CHR 0x0A]), Insert (InsBool False), Check_text (''1'' @ [CHR 0x0A] @ ''0'')]"

definition testLogStreamIntegers :: "bytes \<Rightarrow> test_step list" where
  "testLogStreamIntegers stack =
     [Check_text '''', Insert (InsInt 1), Check_text ''1'', Insert (InsInt 0), Check_text ''10'',
      Insert (InsInt (-1)), Check_text ''10-1'', Reset,
      Insert (InsInt 0), Insert (literal '' ''), Insert (InsInt 123), Insert (InsChar stack CHR ''x''),
      Insert (InsInt 0x64), Check_text ''0 123x100'']"

definition testLogStreamIntegerLimits :: "bytes \<Rightarrow> test_step list" where
  "testLogStreamIntegerLimits stack =
     [Insert (InsInt (-2147483647)), Check_text ''-2147483647'',
      Insert (InsInt (-2147483647 - 1)), Check_text ''-2147483647-2147483648'',
      Insert (InsChar stack CHR '' ''), Insert (InsInt 2147483647),
      Check_text ''-2147483647-2147483648 2147483647'', Reset,
      Insert (InsShort (-32768)), Check_text ''-32768'', Reset,
      Insert (InsShort 32767), Check_text ''32767'', Reset,
      Insert (InsUShort 0), Check_text ''0'', Reset,
      Insert (InsUShort 65535), Check_text ''65535'', Reset,
      Insert (InsInt (-2147483648)), Check_text ''-2147483648'', Reset,
      Insert (InsInt 2147483647), Check_text ''2147483647'', Reset,
      Insert (InsUInt 0), Check_text ''0'', Reset,
      Insert (InsUInt 4294967295), Check_text ''4294967295'', Reset,
      Insert (InsLong (-9223372036854775808)), Check_text ''-9223372036854775808'', Reset,
      Insert (InsLong 9223372036854775807), Check_text ''9223372036854775807'', Reset,
      Insert (InsULong 0), Check_text ''0'', Reset,
      Insert (InsULong 18446744073709551615), Check_text ''18446744073709551615'', Reset,
      Insert (InsShort 0), Insert (InsInt 0), Insert (InsLong 0), Check_text ''000'']"

definition testLogStreamVoid :: "test_step list" where
  "testLogStreamVoid =
     [Insert (InsPointer 0), Check_text ''0x0'', Reset, Insert (InsPointer 8888), Check_text ''0x22B8'', Reset]"

definition testLogStreamStrings :: "test_step list" where
  "testLogStreamStrings =
     [Insert (literal ''Hello ''), Check_text ''Hello '', Insert (InsString ''Shuo Chen''), Check_text ''Hello Shuo Chen'']"

definition long_step :: "nat \<Rightarrow> test_step list" where
  "long_step i =
     [Insert (literal ''123456789 ''), Check_length (10 * (int i + 1)), Check_avail (4000 - 10 * (int i + 1))]"

definition testLogStreamLong :: "test_step list" where
  "testLogStreamLong = concat (map long_step [0..<399]) @
     [Insert (literal ''abcdefghi ''), Check_length 3990, Check_avail 10,
      Insert (literal ''abcdefghi''), Check_length 3999, Check_avail 1]"

section \<open>The tests pass\<close>

text \<open>What does not fit is left out.\<close>

definition too_long :: "ls_op \<Rightarrow> nat \<Rightarrow> bool" where
  "too_long i room = (case op_memory i of None \<Rightarrow> False | Some (m, len) \<Rightarrow> room \<le> len)"

lemma too_long_apply:
  assumes "ls_wf s" and "op_ok i" and "too_long i (ls_room s)"
  shows "ls_apply i s = Some s"
proof -
  obtain m len where m: "op_memory i = Some (m, len)" "ls_room s \<le> len"
    using assms(3) by (auto simp: too_long_def split: option.splits)
  have "fb_append m len (buffer s) = Some (buffer s)"
    using fb_remain [of "buffer s"] assms(1) m(2)
    unfolding fb_append_def Let_def by (simp only: ls_wf_def ls_room_def fb_end_def) simp
  then show ?thesis by (simp add: ls_apply_memory [OF m(1) assms(2)] ls_lift_def)
qed

text \<open>The same run on what has been inserted so far; \<open>n\<close> is the size of the buffer.\<close>

fun expect :: "nat \<Rightarrow> test_step list \<Rightarrow> string \<Rightarrow> bool" where
  "expect n [] acc = True"
| "expect n (Insert i # ts) acc = (op_ok i \<and>
     (if op_need i \<le> n - length acc then expect n ts (acc @ op_text i) else too_long i (n - length acc) \<and> expect n ts acc))"
| "expect n (Check_text t # ts) acc = (acc = t \<and> expect n ts acc)"
| "expect n (Check_length k # ts) acc = (int (length acc) = k \<and> expect n ts acc)"
| "expect n (Check_avail k # ts) acc = (int n - int (length acc) = k \<and> expect n ts acc)"
| "expect n (Reset # ts) acc = expect n ts []"

fun inserted :: "nat \<Rightarrow> string \<Rightarrow> test_step \<Rightarrow> string" where
  "inserted n acc (Insert i) = (if op_need i \<le> n - length acc then acc @ op_text i else acc)"
| "inserted n acc Reset = []"
| "inserted n acc _ = acc"

lemma ls_text_length: "ls_wf s \<Longrightarrow> length (ls_text s) = fb_cur (buffer s)"
  by (simp add: ls_text_def fb_toString_def fb_length_def ls_wf_def fb_wf_def)

lemma expect_run:
  "expect n ts (ls_text s) \<Longrightarrow> ls_wf s \<Longrightarrow> fb_end (buffer s) = n \<Longrightarrow> run_test ts s"
proof (induction ts arbitrary: s)
  case (Cons t ts)
  note len = ls_text_length [OF Cons.prems(2)]
  show ?case
  proof (cases t)
    case (Insert i)
    have room: "ls_room s = n - length (ls_text s)" using Cons.prems len by (simp add: ls_room_def)
    show ?thesis
    proof (cases "op_need i \<le> ls_room s")
      case True
      moreover have "op_ok i" using Insert Cons.prems by simp
      ultimately obtain s' where
        "ls_apply i s = Some s'" "ls_wf s'" "fb_end (buffer s') = fb_end (buffer s)" "ls_text s' = ls_text s @ op_text i"
        using ls_apply_appends [OF Cons.prems(2)] by blast
      then show ?thesis using Insert Cons.prems Cons.IH [of s'] True room by simp
    next
      case False
      then have "op_ok i" "too_long i (ls_room s)" using Insert Cons.prems room by simp_all
      with too_long_apply [OF Cons.prems(2)] have "ls_apply i s = Some s" by blast
      then show ?thesis using Insert Cons.prems Cons.IH [of s] False room by simp
    qed
  next
    case Reset
    have "ls_text (ls_resetBuffer s) = []" "ls_wf (ls_resetBuffer s)" "fb_end (buffer (ls_resetBuffer s)) = n"
      using Cons.prems(2,3)
      by (simp_all add: ls_resetBuffer_def fb_reset_def ls_text_def fb_toString_def fb_length_def ls_wf_def fb_wf_def fb_end_def)
    then show ?thesis using Reset Cons.prems Cons.IH [of "ls_resetBuffer s"] by simp
  qed (use Cons.prems Cons.IH [of s] len in \<open>auto simp: ls_text_def fb_avail_def fb_length_def\<close>)
qed simp

lemma expect_append:
  "expect n (ts @ ts') acc = (expect n ts acc \<and> expect n ts' (foldl (inserted n) acc ts))"
  by (induction n ts acc rule: expect.induct) auto

lemma expect_new:
  assumes "length junk = kSmallBuffer" and "expect 4000 ts []"
  shows "run_test ts (ls_new junk)"
  by (rule expect_run) (use assms in \<open>simp_all add: ls_new_def fb_new_def ls_text_def fb_toString_def fb_length_def ls_wf_def
      fb_wf_def fb_end_def kSmallBuffer_def\<close>)

lemmas number_ops = fmt_d_def dec_nat.simps digit_char_def char_of_def bit_Suc_0_iff

lemma number_ok:
  "op_ok (InsShort a)" "op_ok (InsUShort b)" "op_ok (InsInt c)" "op_ok (InsUInt d)" "op_ok (InsLong e)" "op_ok (InsULong f)"
  "op_ok (InsPointer e')" "op_need (InsShort a) = 32" "op_need (InsUShort b) = 32" "op_need (InsInt c) = 32"
  "op_need (InsUInt d) = 32" "op_need (InsLong e) = 32" "op_need (InsULong f) = 32" "op_need (InsPointer e') = 32"
  by (simp_all add: op_ok_def op_need_def kMaxNumericSize_def)

lemma integers_expect:
  assumes "NUL \<in> set stack" and "length stack \<le> 100"
  shows "expect 4000 (testLogStreamIntegers stack) []"
  using char_op [OF assms(1), of "CHR ''x''"] assms(2)
  by (simp add: testLogStreamIntegers_def number_ok string_ops number_ops del: op_text.simps(12-))

lemma limits_expect:
  assumes "NUL \<in> set stack" and "length stack \<le> 100"
  shows "expect 4000 (testLogStreamIntegerLimits stack) []"
  using char_op [OF assms(1), of "CHR '' ''"] assms(2)
  by (simp add: testLogStreamIntegerLimits_def number_ok string_ops number_ops)

lemma booleans_expect:
  assumes "NUL \<in> set stack" and "length stack \<le> 100"
  shows "expect 4000 (testLogStreamBooleans stack) []"
proof -
  have b: "op_ok (InsBool v)" "op_need (InsBool v) = 2" "op_text (InsBool v) = (if v then ''1'' else ''0'')" for v
    by (simp_all add: op_ok_def op_need_def c_string_def)
  show ?thesis
    using char_op [OF assms(1), of "CHR 0x0A"] assms(2) by (simp add: testLogStreamBooleans_def b del: op_text.simps)
qed

lemma void_expect: "expect 4000 testLogStreamVoid []"
  by (simp add: testLogStreamVoid_def number_ok convertHex_def convertHex_loop.simps digitsHex_def)

lemma strings_expect: "expect 4000 testLogStreamStrings []"
  by (simp add: testLogStreamStrings_def string_ops del: op_text.simps)

lemma long_steps:
  assumes "k \<le> 399"
  shows "expect 4000 (concat (map long_step [0..<k])) [] \<and>
    foldl (inserted 4000) [] (concat (map long_step [0..<k])) = concat (replicate k ''123456789 '')"
  using assms
proof (induction k)
  case (Suc k)
  have l: "op_ok (literal ''123456789 '')" "op_need (literal ''123456789 '') = 11" "op_text (literal ''123456789 '') = ''123456789 ''"
    by (simp_all add: string_ops del: op_text.simps)
  have "length (concat (replicate k ''123456789 '')) = 10 * k" by (simp add: length_concat sum_list_replicate)
  moreover have "concat (replicate (Suc k) ''123456789 '') = concat (replicate k ''123456789 '') @ ''123456789 ''"
    by (simp only: replicate_append_same [symmetric] replicate_Suc concat_append concat.simps append_Nil2)
  ultimately show ?case using Suc l
    by (simp add: expect_append long_step_def del: op_text.simps replicate_Suc)
qed simp

lemma long_expect: "expect 4000 testLogStreamLong []"
proof -
  have l: "op_ok (literal ''abcdefghi '')" "op_need (literal ''abcdefghi '') = 11" "too_long (literal ''abcdefghi '') 10"
    "op_ok (literal ''abcdefghi'')" "op_need (literal ''abcdefghi'') = 10" "length (op_text (literal ''abcdefghi'')) = 9"
    by (simp_all add: string_ops too_long_def del: op_text.simps)
  have "length (concat (replicate 399 ''123456789 '')) = 3990" by (simp add: length_concat sum_list_replicate)
  then show ?thesis using long_steps [of 399] l
    by (simp add: testLogStreamLong_def expect_append del: op_text.simps concat.simps)
qed

definition testLogStream :: "bytes \<Rightarrow> test_step list list" where
  "testLogStream stack =
     [testLogStreamBooleans stack, testLogStreamIntegers stack, testLogStreamIntegerLimits stack,
      testLogStreamVoid, testLogStreamStrings, testLogStreamLong]"

text \<open>The repository's own tests of the stream pass.  Run on the byte-level model, from a buffer with arbitrary
  contents, the test cases on booleans, integers, the limits of every integer type, pointers, strings and
  the long stream that fills the buffer up to its last byte and leaves out what does not fit, insert without leaving the buffer, and every
  comparison in them holds, provided a NUL follows the characters that are passed by value.\<close>

theorem testLogStream_passes:
  assumes "length junk = kSmallBuffer" and "NUL \<in> set stack" and "length stack \<le> 100"
  shows "list_all (\<lambda>t. run_test t (ls_new junk)) (testLogStream stack)"
  using assms expect_new [OF assms(1)]
  by (simp add: testLogStream_def booleans_expect integers_expect limits_expect void_expect strings_expect long_expect)

theorem testLogStream_passes_witness:
  "list_all (\<lambda>t. run_test t (ls_new (replicate kSmallBuffer CHR ''z''))) (testLogStream [CHR ''z'', NUL])"
  by (rule testLogStream_passes) simp_all

end
