(* ===== verification/ZoneTest.thy ===== *)
theory ZoneTest
  imports TimeZone
begin

text \<open>The program TimeZone\_unittest.cc: a table of conversions between UTC and New York time, run against the
  model.  The texts of the table are given as numbers, which is what \<open>strptime\<close> and \<open>strftime\<close> turn them into and
  out of; \<open>test\<close> is true where the program prints no WRONG.\<close>

type_synonym civil = "(int \<times> int \<times> int) \<times> (int \<times> int \<times> int)"

definition getTm :: "civil \<Rightarrow> tm" where
  "getTm c = (case c of ((year, month, day), (hour, minute, seconds)) \<Rightarrow>
     tm_zero\<lparr>tm_year := year - 1900, tm_mon := month - 1, tm_mday := day,
             tm_hour := hour, tm_min := minute, tm_sec := seconds\<rparr>)"

definition getGmt :: "civil \<Rightarrow> int" where
  "getGmt c = timegm (getTm c)"

text \<open>A row of the table: the local time comes with its offset, abbreviation and daylight saving flag.\<close>

record TestCase =
  tc_gmt :: civil
  tc_local :: civil
  tc_gmtoff :: int
  tc_zone :: string
  tc_isdst :: bool

definition civil_of :: "tm \<Rightarrow> civil" where
  "civil_of t = ((tm_year t + 1900, tm_mon t + 1, tm_mday t), (tm_hour t, tm_min t, tm_sec t))"

definition test :: "TimeZone \<Rightarrow> TestCase \<Rightarrow> bool" where
  "test tz tc =
     (let gmt = getGmt (tc_gmt tc) in
      (case toLocalTime tz gmt of
         None \<Rightarrow> False
       | Some local \<Rightarrow>
           civil_of local = tc_local tc \<and> tm_gmtoff local = tc_gmtoff tc
           \<and> map_option (takeWhile (\<lambda>c. c \<noteq> NUL)) (tm_zone local) = Some (tc_zone tc) \<and> tm_isdst local = (if tc_isdst tc then 1 else 0))
      \<and> fromLocalTime tz ((getTm (tc_local tc))\<lparr>tm_isdst := (if tc_isdst tc then 1 else 0)\<rparr>) = Some gmt)"

text \<open>The zone file is data outside the repository: these are its entries for the years of the table, the
  changes to and from daylight saving time between October 2005 and March 2012.\<close>

definition new_york_types :: "Localtime list" where
  "new_york_types =
     [\<lparr>gmtOffset = -14400, isDst = True, arrbIdx = 0\<rparr>, \<lparr>gmtOffset = -18000, isDst = False, arrbIdx = 4\<rparr>]"

definition ny_transition :: "int \<Rightarrow> nat \<Rightarrow> Transition" where
  "ny_transition t i = \<lparr>gmttime = t, localtime = t + gmtOffset (new_york_types ! i), localtimeIdx = int i\<rparr>"

definition new_york :: Data where
  "new_york = \<lparr>transitions =
     [ny_transition (1130652000) 1,
     ny_transition (1143961200) 0,
     ny_transition (1162101600) 1,
     ny_transition (1173596400) 0,
     ny_transition (1194156000) 1,
     ny_transition (1205046000) 0,
     ny_transition (1225605600) 1,
     ny_transition (1236495600) 0,
     ny_transition (1257055200) 1,
     ny_transition (1268550000) 0,
     ny_transition (1289109600) 1,
     ny_transition (1299999600) 0,
     ny_transition (1320559200) 1,
     ny_transition (1331449200) 0],
     localtimes = new_york_types, names = [], tz_abbreviation = ''EDT'' @ [NUL] @ ''EST'' @ [NUL]\<rparr>"

text \<open>The table.\<close>

definition new_york_cases :: "TestCase list" where
  "new_york_cases = map (\<lambda>(gmt, local, off, zone, dst).
      \<lparr>tc_gmt = gmt, tc_local = local, tc_gmtoff = off, tc_zone = zone, tc_isdst = dst\<rparr>)
  [(((2006, 3, 7), (0, 0, 0)), ((2006, 3, 6), (19, 0, 0)), -18000, ''EST'', False),
   (((2006, 4, 2), (6, 59, 59)), ((2006, 4, 2), (1, 59, 59)), -18000, ''EST'', False),
   (((2006, 4, 2), (7, 0, 0)), ((2006, 4, 2), (3, 0, 0)), -14400, ''EDT'', True),
   (((2006, 5, 1), (0, 0, 0)), ((2006, 4, 30), (20, 0, 0)), -14400, ''EDT'', True),
   (((2006, 5, 2), (1, 0, 0)), ((2006, 5, 1), (21, 0, 0)), -14400, ''EDT'', True),
   (((2006, 10, 21), (5, 0, 0)), ((2006, 10, 21), (1, 0, 0)), -14400, ''EDT'', True),
   (((2006, 10, 29), (5, 59, 59)), ((2006, 10, 29), (1, 59, 59)), -14400, ''EDT'', True),
   (((2006, 10, 29), (6, 0, 0)), ((2006, 10, 29), (1, 0, 0)), -18000, ''EST'', False),
   (((2006, 10, 29), (6, 59, 59)), ((2006, 10, 29), (1, 59, 59)), -18000, ''EST'', False),
   (((2006, 12, 31), (6, 0, 0)), ((2006, 12, 31), (1, 0, 0)), -18000, ''EST'', False),
   (((2007, 1, 1), (0, 0, 0)), ((2006, 12, 31), (19, 0, 0)), -18000, ''EST'', False),
   (((2007, 3, 7), (0, 0, 0)), ((2007, 3, 6), (19, 0, 0)), -18000, ''EST'', False),
   (((2007, 3, 11), (6, 59, 59)), ((2007, 3, 11), (1, 59, 59)), -18000, ''EST'', False),
   (((2007, 3, 11), (7, 0, 0)), ((2007, 3, 11), (3, 0, 0)), -14400, ''EDT'', True),
   (((2007, 5, 1), (0, 0, 0)), ((2007, 4, 30), (20, 0, 0)), -14400, ''EDT'', True),
   (((2007, 5, 2), (1, 0, 0)), ((2007, 5, 1), (21, 0, 0)), -14400, ''EDT'', True),
   (((2007, 10, 31), (5, 0, 0)), ((2007, 10, 31), (1, 0, 0)), -14400, ''EDT'', True),
   (((2007, 11, 4), (5, 59, 59)), ((2007, 11, 4), (1, 59, 59)), -14400, ''EDT'', True),
   (((2007, 11, 4), (6, 0, 0)), ((2007, 11, 4), (1, 0, 0)), -18000, ''EST'', False),
   (((2007, 11, 4), (6, 59, 59)), ((2007, 11, 4), (1, 59, 59)), -18000, ''EST'', False),
   (((2007, 12, 31), (6, 0, 0)), ((2007, 12, 31), (1, 0, 0)), -18000, ''EST'', False),
   (((2008, 1, 1), (0, 0, 0)), ((2007, 12, 31), (19, 0, 0)), -18000, ''EST'', False),
   (((2009, 3, 7), (0, 0, 0)), ((2009, 3, 6), (19, 0, 0)), -18000, ''EST'', False),
   (((2009, 3, 8), (6, 59, 59)), ((2009, 3, 8), (1, 59, 59)), -18000, ''EST'', False),
   (((2009, 3, 8), (7, 0, 0)), ((2009, 3, 8), (3, 0, 0)), -14400, ''EDT'', True),
   (((2009, 5, 1), (0, 0, 0)), ((2009, 4, 30), (20, 0, 0)), -14400, ''EDT'', True),
   (((2009, 5, 2), (1, 0, 0)), ((2009, 5, 1), (21, 0, 0)), -14400, ''EDT'', True),
   (((2009, 10, 31), (5, 0, 0)), ((2009, 10, 31), (1, 0, 0)), -14400, ''EDT'', True),
   (((2009, 11, 1), (5, 59, 59)), ((2009, 11, 1), (1, 59, 59)), -14400, ''EDT'', True),
   (((2009, 11, 1), (6, 0, 0)), ((2009, 11, 1), (1, 0, 0)), -18000, ''EST'', False),
   (((2009, 11, 1), (6, 59, 59)), ((2009, 11, 1), (1, 59, 59)), -18000, ''EST'', False),
   (((2009, 12, 31), (6, 0, 0)), ((2009, 12, 31), (1, 0, 0)), -18000, ''EST'', False),
   (((2010, 1, 1), (0, 0, 0)), ((2009, 12, 31), (19, 0, 0)), -18000, ''EST'', False),
   (((2010, 3, 13), (0, 0, 0)), ((2010, 3, 12), (19, 0, 0)), -18000, ''EST'', False),
   (((2010, 3, 14), (6, 59, 59)), ((2010, 3, 14), (1, 59, 59)), -18000, ''EST'', False),
   (((2010, 3, 14), (7, 0, 0)), ((2010, 3, 14), (3, 0, 0)), -14400, ''EDT'', True),
   (((2010, 5, 1), (0, 0, 0)), ((2010, 4, 30), (20, 0, 0)), -14400, ''EDT'', True),
   (((2010, 5, 2), (1, 0, 0)), ((2010, 5, 1), (21, 0, 0)), -14400, ''EDT'', True),
   (((2010, 11, 6), (5, 0, 0)), ((2010, 11, 6), (1, 0, 0)), -14400, ''EDT'', True),
   (((2010, 11, 7), (5, 59, 59)), ((2010, 11, 7), (1, 59, 59)), -14400, ''EDT'', True),
   (((2010, 11, 7), (6, 0, 0)), ((2010, 11, 7), (1, 0, 0)), -18000, ''EST'', False),
   (((2010, 11, 7), (6, 59, 59)), ((2010, 11, 7), (1, 59, 59)), -18000, ''EST'', False),
   (((2010, 12, 31), (6, 0, 0)), ((2010, 12, 31), (1, 0, 0)), -18000, ''EST'', False),
   (((2011, 1, 1), (0, 0, 0)), ((2010, 12, 31), (19, 0, 0)), -18000, ''EST'', False),
   (((2011, 3, 1), (0, 0, 0)), ((2011, 2, 28), (19, 0, 0)), -18000, ''EST'', False),
   (((2011, 3, 13), (6, 59, 59)), ((2011, 3, 13), (1, 59, 59)), -18000, ''EST'', False),
   (((2011, 3, 13), (7, 0, 0)), ((2011, 3, 13), (3, 0, 0)), -14400, ''EDT'', True),
   (((2011, 5, 1), (0, 0, 0)), ((2011, 4, 30), (20, 0, 0)), -14400, ''EDT'', True),
   (((2011, 5, 2), (1, 0, 0)), ((2011, 5, 1), (21, 0, 0)), -14400, ''EDT'', True),
   (((2011, 11, 6), (5, 59, 59)), ((2011, 11, 6), (1, 59, 59)), -14400, ''EDT'', True),
   (((2011, 11, 6), (6, 0, 0)), ((2011, 11, 6), (1, 0, 0)), -18000, ''EST'', False),
   (((2011, 11, 6), (6, 59, 59)), ((2011, 11, 6), (1, 59, 59)), -18000, ''EST'', False),
   (((2011, 12, 31), (6, 0, 0)), ((2011, 12, 31), (1, 0, 0)), -18000, ''EST'', False),
   (((2012, 1, 1), (0, 0, 0)), ((2011, 12, 31), (19, 0, 0)), -18000, ''EST'', False)]"

definition testNewYork :: "bytes option \<Rightarrow> bool option" where
  "testNewYork zonefile = map_option (\<lambda>tz. list_all (test tz) new_york_cases) (TimeZone_file zonefile)"

section \<open>The test passes\<close>

lemma cases_2006_2007: "list_all (test (Some new_york)) (take 27 new_york_cases)"
  by code_simp

lemma cases_2008_2012: "list_all (test (Some new_york)) (drop 27 new_york_cases)"
  by code_simp

lemma new_york_pass: "list_all (test (Some new_york)) new_york_cases"
  using cases_2006_2007 cases_2008_2012 by (metis append_take_drop_id list_all_append)

lemma new_york_storable: "storable new_york"
  by (simp add: storable_def new_york_def new_york_types_def ny_transition_def fits_i32_def)

text \<open>The repository's own time zone test passes.  With a zone file that holds the changes of New York's time,
  whatever its version and trailing blocks, the whole way from the bytes of the file through the reader and the
  search gives for each of the 54 instants of the table the listed local time, offset, abbreviation and
  daylight saving flag, also one second before and at each change and in both passes through the
  repeated hour, and from that local time the instant again.\<close>

theorem testNewYork_passes:
  "testNewYork (Some (zone_file 0 0 0 version new_york trailer)) = Some True"
proof -
  have "readTimeZoneFile (Some (zone_file 0 0 0 version new_york trailer)) Data_empty = Some (True, new_york)"
    by (rule zone_file_read [OF new_york_storable]) (simp_all add: fits_i32_def)
  then show ?thesis using new_york_pass by (simp add: testNewYork_def TimeZone_file_def)
qed

end
