(* ===== verification/Monitor.thy ===== *)
theory Monitor
  imports Sync LogFile
begin

text \<open>Objects guarded by a mutex (\<open>MutexLockGuard\<close> of Mutex.h and the members that open a scope with one).

  The mutex system of the theory Sync is run together with the data it guards: a thread that has entered its
  critical section executes the statements of one member function, one at a time, each on the data
  and the thread's own locals, and everything the other threads can do meanwhile is interleaved, also what they
  do to the object without the mutex.  A section ends when its statements are done, at the end of the scope or at a
  wait.  The locale \<open>guarded_object\<close> states what the members of such a class promise when nobody interferes, and
  what keeps the work outside the mutex apart from the sections; inside it, this is shown to be enough for
  every section to look like one step.  The log file with its mutex satisfies it; the asynchronous logger follows
  in the theory AsyncThreads.\<close>

section \<open>Critical sections, statement by statement\<close>

text \<open>A statement is \<open>None\<close> where the process dies in it.\<close>

type_synonym ('d, 'l) statement = "'d \<times> 'l \<Rightarrow> ('d \<times> 'l) option"

text \<open>The operations threads perform on the object: the statements of each, whether it holds the mutex while it
  executes them, and which thread may begin it when.\<close>

record ('d, 'l, 'op) monitor_program =
  pr_code :: "'op \<Rightarrow> ('d, 'l) statement list"
  pr_locked :: "'op \<Rightarrow> bool"
  pr_may :: "int \<Rightarrow> 'op \<Rightarrow> 'd \<Rightarrow> bool"

text \<open>\<open>mon_rest\<close> are the statements a thread has still to execute in its section, \<open>mon_log\<close> the operations in the order
  in which they were begun (a section, when the mutex was acquired), each with its thread; the data is \<open>None\<close> once
  the process has died.\<close>

record ('d, 'l, 'op) monitor =
  mon_sys :: mutex_system
  mon_data :: "'d option"
  mon_local :: "int \<Rightarrow> 'l"
  mon_rest :: "int \<Rightarrow> ('d, 'l) statement list"
  mon_log :: "(int \<times> 'op) list"

definition monitor_new :: "'d \<Rightarrow> (int \<Rightarrow> 'l) \<Rightarrow> ('d, 'l, 'op) monitor" where
  "monitor_new d locals =
     \<lparr>mon_sys = mutex_system_new, mon_data = Some d, mon_local = locals, mon_rest = (\<lambda>t. []), mon_log = []\<rparr>"

definition run_section :: "('d, 'l) statement list \<Rightarrow> 'd \<times> 'l \<Rightarrow> ('d \<times> 'l) option" where
  "run_section fs x = fold_opt (\<lambda>f. f) fs x"

lemma run_section_simps [simp]:
  "run_section [] x = Some x"
  "run_section (f # fs) x = Option.bind (f x) (run_section fs)"
  by (auto simp: run_section_def split: option.splits)

definition in_section :: "mutex_system \<Rightarrow> int \<Rightarrow> bool" where
  "in_section s t \<longleftrightarrow> sys_pc s t = Inside"

definition mon_enter ::
  "('d, 'l, 'op) monitor_program \<Rightarrow> int \<Rightarrow> 'op \<Rightarrow> mutex_system \<Rightarrow> ('d, 'l, 'op) monitor \<Rightarrow> ('d, 'l, 'op) monitor" where
  "mon_enter P t op s' m =
     m\<lparr>mon_sys := s', mon_rest := (mon_rest m)(t := pr_code P op), mon_log := mon_log m @ [(t, op)]\<rparr>"

text \<open>The thread \<open>t\<close> has executed something on the data and its locals, with this result.\<close>

definition mon_result :: "int \<Rightarrow> ('d \<times> 'l) option \<Rightarrow> ('d, 'l, 'op) monitor \<Rightarrow> ('d, 'l, 'op) monitor" where
  "mon_result t x m =
     (case x of
        None \<Rightarrow> m\<lparr>mon_data := None\<rparr>
      | Some (d, v) \<Rightarrow> m\<lparr>mon_data := Some d, mon_local := (mon_local m)(t := v)\<rparr>)"

definition mon_execute ::
  "int \<Rightarrow> ('d, 'l) statement \<Rightarrow> ('d, 'l) statement list \<Rightarrow> ('d, 'l, 'op) monitor \<Rightarrow> ('d, 'l, 'op) monitor" where
  "mon_execute t f fs m =
     (mon_result t (Option.bind (mon_data m) (\<lambda>d. f (d, mon_local m t))) m)\<lparr>mon_rest := (mon_rest m)(t := fs)\<rparr>"

definition mon_unlocked ::
  "('d, 'l, 'op) monitor_program \<Rightarrow> int \<Rightarrow> 'op \<Rightarrow> ('d, 'l, 'op) monitor \<Rightarrow> ('d, 'l, 'op) monitor" where
  "mon_unlocked P t op m =
     (mon_result t (Option.bind (mon_data m) (\<lambda>d. run_section (pr_code P op) (d, mon_local m t))) m)
       \<lparr>mon_log := mon_log m @ [(t, op)]\<rparr>"

text \<open>\<open>outside\<close> is a step of the mutex by which nobody comes into or out of a critical section; \<open>enter\<close> is the end of
  the guard's constructor, or of a wait; \<open>execute\<close> is one statement; \<open>leave\<close> is the begin of the guard's destructor,
  or of a wait; \<open>unlocked\<close> is an operation of a thread that does not hold the mutex.\<close>

inductive monitor_step :: "('d, 'l, 'op) monitor_program \<Rightarrow> ('d, 'l, 'op) monitor \<Rightarrow> ('d, 'l, 'op) monitor \<Rightarrow> bool" for P where
  outside: "mutex_step (mon_sys m) s' \<Longrightarrow> in_section s' = in_section (mon_sys m) \<Longrightarrow>
     monitor_step P m (m\<lparr>mon_sys := s'\<rparr>)"
| enter: "mutex_step (mon_sys m) s' \<Longrightarrow> \<not> in_section (mon_sys m) t \<Longrightarrow> in_section s' t \<Longrightarrow>
     pr_locked P op \<Longrightarrow> mon_data m = Some d \<Longrightarrow> pr_may P t op d \<Longrightarrow> monitor_step P m (mon_enter P t op s' m)"
| execute: "in_section (mon_sys m) t \<Longrightarrow> mon_rest m t = f # fs \<Longrightarrow>
     monitor_step P m (mon_execute t f fs m)"
| leave: "mutex_step (mon_sys m) s' \<Longrightarrow> in_section (mon_sys m) t \<Longrightarrow> \<not> in_section s' t \<Longrightarrow> mon_rest m t = [] \<Longrightarrow>
     monitor_step P m (m\<lparr>mon_sys := s'\<rparr>)"
| unlocked: "\<not> in_section (mon_sys m) t \<Longrightarrow> \<not> pr_locked P op \<Longrightarrow> mon_data m = Some d \<Longrightarrow> pr_may P t op d \<Longrightarrow>
     monitor_step P m (mon_unlocked P t op m)"

inductive monitor_reachable :: "('d, 'l, 'op) monitor_program \<Rightarrow> 'd \<Rightarrow> ('d, 'l, 'op) monitor \<Rightarrow> bool" for P d where
  init: "monitor_reachable P d (monitor_new d locals)"
| step: "monitor_reachable P d m \<Longrightarrow> monitor_step P m m' \<Longrightarrow> monitor_reachable P d m'"

lemma mutex_inv_section_unique:
  "mutex_inv s \<Longrightarrow> in_section s t \<Longrightarrow> in_section s u \<Longrightarrow> t = u"
  unfolding mutex_inv_def owns_def in_section_def by (metis insertCI option.inject)

lemma mon_result_simps [simp]:
  "mon_sys (mon_result t x m) = mon_sys m"
  "mon_rest (mon_result t x m) = mon_rest m"
  "mon_log (mon_result t x m) = mon_log m"
  "mon_data (mon_result t x m) = map_option fst x"
  "u \<noteq> t \<Longrightarrow> mon_local (mon_result t x m) u = mon_local m u"
  by (simp_all add: mon_result_def split: option.splits prod.splits)

lemma mon_execute_simps [simp]:
  "mon_sys (mon_execute t f fs m) = mon_sys m"
  "mon_log (mon_execute t f fs m) = mon_log m"
  "mon_rest (mon_execute t f fs m) = (mon_rest m)(t := fs)"
  by (simp_all add: mon_execute_def)

lemma mon_unlocked_simps [simp]:
  "mon_sys (mon_unlocked P t op m) = mon_sys m"
  "mon_log (mon_unlocked P t op m) = mon_log m @ [(t, op)]"
  "mon_rest (mon_unlocked P t op m) = mon_rest m"
  "u \<noteq> t \<Longrightarrow> mon_local (mon_unlocked P t op m) u = mon_local m u"
  by (simp_all add: mon_unlocked_def)

lemma mutex_step_section:
  "mutex_step s s' \<Longrightarrow> \<exists>t. \<forall>u. u \<noteq> t \<longrightarrow> in_section s' u = in_section s u"
  by (auto elim!: mutex_step.cases simp: goto_pc_def in_section_def)

lemma monitor_mutex_reachable: "monitor_reachable P d m \<Longrightarrow> mutex_reachable (mon_sys m)"
proof (induction rule: monitor_reachable.induct)
  case (init locals)
  then show ?case by (simp add: monitor_new_def mutex_reachable.init)
next
  case (step m m')
  from step.hyps(2) show ?case
    by cases (use step.IH in \<open>auto simp: mon_enter_def intro: mutex_reachable.step\<close>)
qed

lemmas monitor_mutex_inv = mutex_reachable_inv[OF monitor_mutex_reachable]

text \<open>What the data will be when the thread \<open>t\<close> has finished its section.\<close>

definition finished :: "int \<Rightarrow> ('d, 'l, 'op) monitor \<Rightarrow> 'd option" where
  "finished t m = Option.bind (mon_data m) (\<lambda>d. map_option fst (run_section (mon_rest m t) (d, mon_local m t)))"

lemma finished_execute [simp]:
  "mon_rest m t = f # fs \<Longrightarrow> finished t (mon_execute t f fs m) = finished t m"
  by (cases "mon_data m")
    (auto simp: finished_def mon_execute_def mon_result_def split: option.splits Option.bind_splits prod.splits)

section \<open>Sections are atomic\<close>

text \<open>One operation after the other, each begun by a thread that may: the result is \<open>None\<close> if the last one dies.\<close>

inductive serial :: "('d, 'l, 'op) monitor_program \<Rightarrow> ('op \<Rightarrow> 'd \<Rightarrow> 'd option) \<Rightarrow> 'd \<Rightarrow> (int \<times> 'op) list \<Rightarrow> 'd option \<Rightarrow> bool"
  for P effect d0 where
  nil: "serial P effect d0 [] (Some d0)"
| snoc: "serial P effect d0 log (Some d) \<Longrightarrow> pr_may P t op d \<Longrightarrow> serial P effect d0 (log @ [(t, op)]) (effect op d)"

definition doomed :: "('d, 'l, 'op) monitor_program \<Rightarrow> ('op \<Rightarrow> 'd \<Rightarrow> 'd option) \<Rightarrow> 'd \<Rightarrow> (int \<times> 'op) list \<Rightarrow> bool" where
  "doomed P effect d0 log \<longleftrightarrow> (\<exists>n. serial P effect d0 (take n log) None)"

lemma doomed_append: "doomed P effect d0 log \<Longrightarrow> doomed P effect d0 (log @ log')"
proof -
  assume "doomed P effect d0 log"
  then obtain n where "serial P effect d0 (take n log) None" by (auto simp: doomed_def)
  then have "serial P effect d0 (take (min n (length log)) (log @ log')) None"
    by (cases "n \<le> length log") (simp_all add: min_def)
  then show ?thesis unfolding doomed_def by blast
qed

lemma serial_None_doomed: "serial P effect d0 log None \<Longrightarrow> doomed P effect d0 log"
  unfolding doomed_def by (intro exI[of _ "length log"]) simp

text \<open>What the members of a class with a mutex promise: alone, the statements of an operation have the effect it is
  specified to have, whatever is in the locals; and an operation outside the mutex has nothing to do with what the
  statements of another thread's section touch, so that the two commute and the one stays possible.\<close>

locale guarded_object =
  fixes P :: "('d, 'l, 'op) monitor_program"
    and effect :: "'op \<Rightarrow> 'd \<Rightarrow> 'd option"
  assumes code_effect: "map_option fst (run_section (pr_code P op) (d, v)) = effect op d"
    and commutes: "pr_locked P op \<Longrightarrow> \<not> pr_locked P a \<Longrightarrow> pr_may P t op d1 \<Longrightarrow> pr_may P u a d2 \<Longrightarrow> t \<noteq> u \<Longrightarrow>
      f \<in> set (pr_code P op) \<Longrightarrow>
      Option.bind (effect a d) (\<lambda>d'. f (d', v)) = Option.bind (f (d, v)) (\<lambda>(d', v'). map_option (\<lambda>d''. (d'', v')) (effect a d'))"
    and stays_possible: "pr_locked P op \<Longrightarrow> \<not> pr_locked P a \<Longrightarrow> pr_may P t op d1 \<Longrightarrow> pr_may P u a d \<Longrightarrow> t \<noteq> u \<Longrightarrow>
      f \<in> set (pr_code P op) \<Longrightarrow> f (d, v) = Some (d', v') \<Longrightarrow> pr_may P u a d'"
begin

definition section_of :: "int \<Rightarrow> ('d, 'l) statement list \<Rightarrow> bool" where
  "section_of t fs \<longleftrightarrow> (\<exists>op d. pr_locked P op \<and> pr_may P t op d \<and> set fs \<subseteq> set (pr_code P op))"

definition atomic :: "'d \<Rightarrow> ('d, 'l, 'op) monitor \<Rightarrow> bool" where
  "atomic d0 m \<longleftrightarrow>
     (\<forall>t. in_section (mon_sys m) t \<longrightarrow> section_of t (mon_rest m t) \<and> serial P effect d0 (mon_log m) (finished t m))
     \<and> ((\<forall>t. \<not> in_section (mon_sys m) t) \<longrightarrow> serial P effect d0 (mon_log m) (mon_data m))"

lemma atomicI:
  assumes "in_section (mon_sys m) t" "mutex_inv (mon_sys m)" "section_of t (mon_rest m t)"
    "serial P effect d0 (mon_log m) (finished t m)"
  shows "atomic d0 m"
proof -
  have "v = t" if "in_section (mon_sys m) v" for v
    by (rule mutex_inv_section_unique[OF assms(2) that assms(1)])
  then show ?thesis unfolding atomic_def using assms(1,3,4) by metis
qed

lemma commutes_section:
  assumes "section_of t fs" "\<not> pr_locked P a" "pr_may P u a d2" "t \<noteq> u"
  shows "Option.bind (effect a d) (\<lambda>d'. run_section fs (d', v))
    = Option.bind (run_section fs (d, v)) (\<lambda>(d', v'). map_option (\<lambda>d''. (d'', v')) (effect a d'))"
  using assms(1)
proof (induction fs arbitrary: d v)
  case Nil
  then show ?case by (cases "effect a d") simp_all
next
  case (Cons f fs)
  obtain op d1 where op: "pr_locked P op" "pr_may P t op d1" "f \<in> set (pr_code P op)" "section_of t fs"
    using Cons.prems by (auto simp: section_of_def)
  note c = commutes[OF op(1) assms(2) op(2) assms(3,4) op(3), of d v]
  have "Option.bind (effect a d) (\<lambda>d'. run_section (f # fs) (d', v))
      = Option.bind (Option.bind (effect a d) (\<lambda>d'. f (d', v))) (run_section fs)" by simp
  also have "\<dots> = Option.bind (f (d, v)) (\<lambda>(d', v'). Option.bind (effect a d') (\<lambda>d''. run_section fs (d'', v')))"
    unfolding c by (cases "f (d, v)") (auto simp: map_option_case split: option.splits)
  also have "\<dots> = Option.bind (f (d, v)) (\<lambda>x. Option.bind (run_section fs x) (\<lambda>(d', v'). map_option (\<lambda>d''. (d'', v')) (effect a d')))"
    by (cases "f (d, v)") (auto simp: Cons.IH[OF op(4)])
  finally show ?case by simp
qed

lemma stays_possible_section:
  assumes "section_of t fs" "\<not> pr_locked P a" "t \<noteq> u"
  shows "pr_may P u a d \<Longrightarrow> run_section fs (d, v) = Some (d', v') \<Longrightarrow> pr_may P u a d'"
  using assms(1)
proof (induction fs arbitrary: d v)
  case (Cons f fs)
  obtain op d1 where op: "pr_locked P op" "pr_may P t op d1" "f \<in> set (pr_code P op)" "section_of t fs"
    using Cons.prems by (auto simp: section_of_def)
  obtain d2 v2 where s: "f (d, v) = Some (d2, v2)" "run_section fs (d2, v2) = Some (d', v')"
    using Cons.prems(2) by (auto simp: Option.bind_eq_Some_conv)
  show ?case
    by (rule Cons.IH[OF stays_possible[OF op(1) assms(2) op(2) Cons.prems(1) assms(3) op(3) s(1)] s(2) op(4)])
qed simp

text \<open>A step of a thread without the mutex can be moved behind the section of the thread that holds it.\<close>

lemma atomic_unlocked:
  assumes "\<not> in_section (mon_sys m) u" "\<not> pr_locked P a" "mon_data m = Some d" "pr_may P u a d"
    "atomic d0 m" "mutex_inv (mon_sys m)"
  shows "doomed P effect d0 (mon_log m) \<or> atomic d0 (mon_unlocked P u a m)"
proof (cases "\<exists>t. in_section (mon_sys m) t")
  case False
  then have "serial P effect d0 (mon_log m) (Some d)" using assms(3,5) by (auto simp: atomic_def)
  then have "serial P effect d0 (mon_log m @ [(u, a)]) (effect a d)" by (rule serial.snoc[OF _ assms(4)])
  then show ?thesis using False assms(3) by (auto simp: atomic_def mon_unlocked_def code_effect)
next
  case True
  then obtain t where t: "in_section (mon_sys m) t" by blast
  have ne: "t \<noteq> u" using t assms(1) by blast
  have s: "section_of t (mon_rest m t)" "serial P effect d0 (mon_log m) (finished t m)"
    using assms(5) t by (auto simp: atomic_def)
  show ?thesis
  proof (cases "run_section (mon_rest m t) (d, mon_local m t)")
    case None
    then show ?thesis using s(2) assms(3) by (auto simp: finished_def intro: serial_None_doomed)
  next
    case (Some x)
    obtain d' v' where x: "x = (d', v')" by (cases x)
    have "serial P effect d0 (mon_log m @ [(u, a)]) (effect a d')"
      by (rule serial.snoc) (use s(2) assms(3) Some x
        stays_possible_section[OF s(1) assms(2) ne assms(4)] in \<open>auto simp: finished_def\<close>)
    moreover have "finished t (mon_unlocked P u a m)
        = Option.bind (effect a d) (\<lambda>d'. map_option fst (run_section (mon_rest m t) (d', mon_local m t)))"
      using ne assms(3) by (simp add: finished_def) (simp add: mon_unlocked_def code_effect)
    moreover have "\<dots> = map_option fst (Option.bind (effect a d) (\<lambda>d'. run_section (mon_rest m t) (d', mon_local m t)))"
      by (cases "effect a d") simp_all
    moreover have "\<dots> = effect a d'"
      unfolding commutes_section[OF s(1) assms(2,4) ne] by (simp add: Some x option.map_comp comp_def option.map_ident)
    ultimately have "serial P effect d0 (mon_log m @ [(u, a)]) (finished t (mon_unlocked P u a m))" by simp
    then have "atomic d0 (mon_unlocked P u a m)"
      by (intro atomicI[of _ t]) (use s(1) t assms(6) in simp_all)
    then show ?thesis ..
  qed
qed

lemma atomic_step:
  assumes "monitor_step P m m'" "atomic d0 m" "mutex_inv (mon_sys m)" "mutex_inv (mon_sys m')"
  shows "doomed P effect d0 (mon_log m) \<or> atomic d0 m'"
  using assms(1)
proof cases
  case (outside s')
  then show ?thesis using assms(2) by (simp add: atomic_def finished_def)
next
  case (enter s' t op d)
  obtain t' where t': "\<And>u. u \<noteq> t' \<Longrightarrow> in_section s' u = in_section (mon_sys m) u"
    using mutex_step_section[OF enter(2)] by blast
  have u: "u = t" if "in_section s' u" for u
    using mutex_inv_section_unique[OF assms(4), of u t] that enter by (simp add: mon_enter_def)
  have "\<not> in_section (mon_sys m) u" for u
    using t' u enter(3,4) by metis
  then have "serial P effect d0 (mon_log m) (Some d)" using assms(2) enter(6) by (simp add: atomic_def)
  then have "serial P effect d0 (mon_log m') (effect op d)"
    using serial.snoc[of P effect d0 "mon_log m" d t op] enter(1,7) by (simp add: mon_enter_def)
  moreover have "finished t m' = effect op d"
    using enter(1,6) by (simp add: finished_def mon_enter_def code_effect)
  moreover have "section_of t (mon_rest m' t)" using enter by (auto simp: section_of_def mon_enter_def)
  ultimately have "atomic d0 m'"
    by (intro atomicI[of _ t]) (use assms(4) enter(1,4) in \<open>simp_all add: mon_enter_def\<close>)
  then show ?thesis ..
next
  case (execute t f fs)
  have s: "section_of t (f # fs)" "serial P effect d0 (mon_log m) (finished t m)"
    using assms(2) execute(2,3) by (auto simp: atomic_def)
  have "section_of t fs" using s(1) by (auto simp: section_of_def)
  then have "atomic d0 m'"
    by (intro atomicI[of _ t]) (use assms(3) execute s(2) in simp_all)
  then show ?thesis ..
next
  case (leave s' t)
  obtain t' where "\<And>u. u \<noteq> t' \<Longrightarrow> in_section s' u = in_section (mon_sys m) u"
    using mutex_step_section[OF leave(2)] by blast
  then have "\<not> in_section s' u" for u
    using mutex_inv_section_unique[OF assms(3) leave(3), of u] leave(3,4) by metis
  moreover have "finished t m = mon_data m"
    using leave(5) by (cases "mon_data m") (simp_all add: finished_def)
  moreover have "serial P effect d0 (mon_log m) (finished t m)" using assms(2) leave(3) by (simp add: atomic_def)
  ultimately show ?thesis using leave by (simp add: atomic_def)
next
  case (unlocked t op d)
  then show ?thesis using atomic_unlocked[OF unlocked(2-5) assms(2,3)] by simp
qed

lemma reachable_atomic: "monitor_reachable P d0 m \<Longrightarrow> doomed P effect d0 (mon_log m) \<or> atomic d0 m"
proof (induction rule: monitor_reachable.induct)
  case (init locals)
  then show ?case by (simp add: atomic_def monitor_new_def in_section_def mutex_system_new_def serial.nil)
next
  case (step m m')
  have "\<exists>xs. mon_log m' = mon_log m @ xs"
    using step.hyps(2) by cases (auto simp: mon_enter_def)
  then have d: "doomed P effect d0 (mon_log m) \<Longrightarrow> doomed P effect d0 (mon_log m')" using doomed_append by metis
  have "monitor_reachable P d0 m'" by (rule monitor_reachable.step[OF step.hyps])
  then show ?case
    using step.IH atomic_step[OF step.hyps(2) _ monitor_mutex_inv[OF step.hyps(1)] monitor_mutex_inv] d by blast
qed

text \<open>If no sequence of operations makes the process die, then no interleaving does: between two sections the
  data is what the operations so far, one after the other, make of it, and inside one, the rest of it completes the
  sequence.\<close>

lemma between_sections:
  assumes "monitor_reachable P d0 m" "\<And>log. \<not> serial P effect d0 log None" "\<And>t. \<not> in_section (mon_sys m) t"
  shows "serial P effect d0 (mon_log m) (mon_data m)"
  using reachable_atomic[OF assms(1)] assms(2,3) by (auto simp: atomic_def doomed_def)

lemma within_section:
  assumes "monitor_reachable P d0 m" "\<And>log. \<not> serial P effect d0 log None" "in_section (mon_sys m) t"
  shows "serial P effect d0 (mon_log m) (finished t m)"
  using reachable_atomic[OF assms(1)] assms(2,3) by (auto simp: atomic_def doomed_def)

lemma never_dies:
  assumes "monitor_reachable P d0 m" "\<And>log. \<not> serial P effect d0 log None"
  shows "mon_data m \<noteq> None"
proof
  assume n: "mon_data m = None"
  show False
  proof (cases "\<exists>t. in_section (mon_sys m) t")
    case True
    then obtain t where "in_section (mon_sys m) t" ..
    from within_section[OF assms this] show False using n assms(2) by (simp add: finished_def)
  next
    case False
    then show False using between_sections[OF assms] n assms(2) by simp
  qed
qed

end

section \<open>Every sequence of operations can happen\<close>

lemma monitor_finish:
  assumes "monitor_reachable P d0 m" "in_section (mon_sys m) t" "mon_rest m t = fs"
  shows "\<exists>m'. monitor_reachable P d0 m' \<and> mon_sys m' = mon_sys m \<and> mon_rest m' t = [] \<and> mon_log m' = mon_log m
    \<and> mon_data m' = finished t m"
  using assms
proof (induction fs arbitrary: m)
  case Nil
  then show ?case by (cases "mon_data m") (auto simp: finished_def intro!: exI[of _ m])
next
  case (Cons f fs)
  have "monitor_reachable P d0 (mon_execute t f fs m)"
    by (rule monitor_reachable.step[OF Cons.prems(1) monitor_step.execute]) (use Cons.prems in auto)
  from Cons.IH[OF this] show ?case
    using Cons.prems finished_execute[OF Cons.prems(3)] by simp
qed

definition mutex_idle :: "mutex_system \<Rightarrow> bool" where
  "mutex_idle s \<longleftrightarrow> mutex_owner (sys_mutex s) = None \<and> sys_pc s = (\<lambda>t. Outside)"

lemma mutex_idle_section [simp]: "mutex_idle s \<Longrightarrow> \<not> in_section s t"
  by (simp add: mutex_idle_def in_section_def)

lemma monitor_one_section:
  assumes "monitor_reachable P d0 m" "0 < t" "mutex_idle (mon_sys m)"
    "mon_data m = Some d" "pr_may P t op d" "pr_locked P op"
  shows "\<exists>m'. monitor_reachable P d0 m' \<and> mon_log m' = mon_log m @ [(t, op)] \<and> mutex_idle (mon_sys m')
    \<and> mon_data m' = map_option fst (run_section (pr_code P op) (d, mon_local m t))"
proof -
  let ?s = "mon_sys m"
  let ?s1 = "goto_pc t Acquired (\<lambda>_. (sys_mutex ?s)\<lparr>mutex_owner := Some t\<rparr>) ?s"
  let ?s2 = "goto_pc t Inside (assignHolder t) ?s1"
  let ?s3 = "goto_pc t Unlocking unassignHolder ?s2"
  let ?s4 = "goto_pc t Outside pthread_mutex_unlock ?s3"
  note idle = assms(3)[unfolded mutex_idle_def]
  have 1: "mutex_step ?s ?s1" by (rule mutex_step.lock) (use assms(2) idle in \<open>simp_all add: pthread_mutex_lock_def\<close>)
  have 2: "mutex_step ?s1 ?s2" by (rule mutex_step.assign) (simp add: goto_pc_def)
  have 3: "mutex_step ?s2 ?s3" by (rule mutex_step.unassign) (simp add: goto_pc_def)
  have 4: "mutex_step ?s3 ?s4" by (rule mutex_step.unlock) (simp add: goto_pc_def)
  have pcs: "in_section ?s1 = in_section ?s" "\<not> in_section ?s1 t" "in_section ?s2 t" "\<not> in_section ?s3 t"
    "in_section ?s4 = in_section ?s3"
    using idle by (simp_all add: in_section_def goto_pc_def fun_eq_iff)
  let ?m1 = "m\<lparr>mon_sys := ?s1\<rparr>"
  let ?m2 = "mon_enter P t op ?s2 ?m1"
  have r1: "monitor_reachable P d0 ?m1"
    by (rule monitor_reachable.step[OF assms(1) monitor_step.outside]) (use 1 pcs in simp_all)
  have r2: "monitor_reachable P d0 ?m2"
    by (rule monitor_reachable.step[OF r1 monitor_step.enter]) (use 2 pcs assms(4-6) in simp_all)
  have m2: "in_section (mon_sys ?m2) t" "mon_sys ?m2 = ?s2" "mon_log ?m2 = mon_log m @ [(t, op)]"
    "finished t ?m2 = map_option fst (run_section (pr_code P op) (d, mon_local m t))"
    using pcs assms(4) by (simp_all add: mon_enter_def finished_def)
  obtain m3 where r3: "monitor_reachable P d0 m3" and m3: "mon_sys m3 = ?s2" "mon_rest m3 t = []"
    "mon_log m3 = mon_log m @ [(t, op)]" "mon_data m3 = map_option fst (run_section (pr_code P op) (d, mon_local m t))"
    using monitor_finish[OF r2 m2(1) refl] unfolding m2 by blast
  have r4: "monitor_reachable P d0 (m3\<lparr>mon_sys := ?s3\<rparr>)"
    by (rule monitor_reachable.step[OF r3 monitor_step.leave[of _ _ t]]) (use 3 pcs m3 in simp_all)
  have r5: "monitor_reachable P d0 (m3\<lparr>mon_sys := ?s3\<rparr>\<lparr>mon_sys := ?s4\<rparr>)"
    by (rule monitor_reachable.step[OF r4 monitor_step.outside]) (use 4 pcs in simp_all)
  have "mutex_idle ?s4" using idle by (auto simp: mutex_idle_def goto_pc_def pthread_mutex_unlock_def)
  then show ?thesis using r5 m3 by (intro exI[of _ "m3\<lparr>mon_sys := ?s3\<rparr>\<lparr>mon_sys := ?s4\<rparr>"]) simp
qed

context guarded_object
begin

lemma realises:
  assumes "serial P effect d0 log x" "\<forall>e \<in> set log. 0 < fst e"
  shows "\<exists>m. monitor_reachable P d0 m \<and> mon_log m = log \<and> mutex_idle (mon_sys m) \<and> mon_data m = x"
  using assms
proof (induction rule: serial.induct)
  case nil
  show ?case
    by (intro exI[of _ "monitor_new d0 undefined"] conjI monitor_reachable.init)
      (simp_all add: monitor_new_def mutex_system_new_def MutexLock_new_def mutex_idle_def)
next
  case (snoc log d t op)
  then obtain m where m: "monitor_reachable P d0 m" "mon_log m = log" "mutex_idle (mon_sys m)" "mon_data m = Some d"
    by auto
  show ?case
  proof (cases "pr_locked P op")
    case True
    from monitor_one_section[OF m(1) _ m(3,4) snoc.hyps(2) True] snoc.prems m(2) show ?thesis
      by (auto simp: code_effect)
  next
    case False
    have "monitor_reachable P d0 (mon_unlocked P t op m)"
      by (rule monitor_reachable.step[OF m(1) monitor_step.unlocked[OF _ False m(4) snoc.hyps(2)]]) (use m(3) in simp)
    moreover have "mon_data (mon_unlocked P t op m) = effect op d"
      using m(4) by (simp add: mon_unlocked_def code_effect)
    ultimately show ?thesis using m(2,3) by (intro exI[of _ "mon_unlocked P t op m"]) simp
  qed
qed

end

section \<open>The log file with its mutex\<close>

text \<open>A log file made with \<open>threadSafe\<close> and called by any number of threads.  The mutex itself is the one of the
  mutex system, so \<open>lf_mutex\<close> stays as the constructor left it (there is a mutex).  The statements of \<open>append\<close> and
  \<open>flush\<close> inside the guard's scope: the local is the answer of \<open>isNeedRollFile\<close>.\<close>

definition stmt_append :: "bytes \<Rightarrow> (LogFile \<times> world, bool) statement" where
  "stmt_append logline x =
     (case x of ((l, w), need) \<Rightarrow>
        do { f \<leftarrow> lf_file l; f' \<leftarrow> AppendFile_append logline f; Some ((l\<lparr>lf_file := Some f'\<rparr>, w), need) })"

definition stmt_need :: "(LogFile \<times> world, bool) statement" where
  "stmt_need x = (case x of ((l, w), need) \<Rightarrow> map_option (\<lambda>(b, l', w'). ((l', w'), b)) (isNeedRollFile l w))"

definition stmt_roll :: "(LogFile \<times> world, bool) statement" where
  "stmt_roll x =
     (case x of ((l, w), need) \<Rightarrow> if need then map_option (\<lambda>(b, s'). (s', need)) (rollFile l w) else Some ((l, w), need))"

definition stmt_flush :: "(LogFile \<times> world, bool) statement" where
  "stmt_flush x = (case x of ((l, w), need) \<Rightarrow> map_option (\<lambda>s'. (s', need)) (flush_unlock l w))"

fun lf_code :: "lf_op \<Rightarrow> (LogFile \<times> world, bool) statement list" where
  "lf_code (LfAppend logline) = [stmt_append logline, stmt_need, stmt_roll]"
| "lf_code LfFlush = [stmt_flush]"

lemmas lf_statements = stmt_append_def stmt_need_def stmt_roll_def stmt_flush_def

text \<open>Any thread may call at any time, and everything is done under the mutex.\<close>

definition lf_program :: "(LogFile \<times> world, bool, lf_op) monitor_program" where
  "lf_program = \<lparr>pr_code = lf_code, pr_locked = (\<lambda>_. True), pr_may = (\<lambda>_ _ _. True)\<rparr>"

lemma lf_program_simps [simp]:
  "pr_code lf_program = lf_code" "pr_locked lf_program op" "pr_may lf_program t op s"
  by (simp_all add: lf_program_def)

text \<open>The same members as the functions that run while the mutex is held.\<close>

fun lf_body :: "lf_op \<Rightarrow> LogFile \<times> world \<Rightarrow> (LogFile \<times> world) option" where
  "lf_body (LfAppend logline) s = append_unlock logline (fst s) (snd s)"
| "lf_body LfFlush s = flush_unlock (fst s) (snd s)"

lemma lf_code_body: "map_option fst (run_section (lf_code op) (s, need)) = lf_body op s"
  by (cases op; cases s)
    (auto simp: lf_statements append_unlock_def option.map_comp comp_def split_beta option.map_ident
      split: Option.bind_splits)

interpretation lfg: guarded_object lf_program lf_body
  by unfold_locales (simp_all add: lf_code_body)

text \<open>The members do not look at \<open>lf_mutex\<close> while they hold the mutex.\<close>

definition set_mutex :: "bool option \<Rightarrow> LogFile \<times> world \<Rightarrow> LogFile \<times> world" where
  "set_mutex m s = ((fst s)\<lparr>lf_mutex := m\<rparr>, snd s)"

lemma set_mutex_simps [simp]:
  "set_mutex m (set_mutex m' s) = set_mutex m s"
  "lf_mutex (fst (set_mutex m s)) = m"
  by (simp_all add: set_mutex_def)

lemma isNeedRollFile_mutex:
  "isNeedRollFile (l\<lparr>lf_mutex := m\<rparr>) w = map_option (\<lambda>(b, l', w'). (b, l'\<lparr>lf_mutex := m\<rparr>, w')) (isNeedRollFile l w)"
  by (auto simp: isNeedRollFile_def Let_def time_now_def split: option.splits)

lemma rollFile_mutex:
  "rollFile (l\<lparr>lf_mutex := m\<rparr>) w = map_option (\<lambda>(b, l', w'). (b, l'\<lparr>lf_mutex := m\<rparr>, w')) (rollFile l w)"
  by (auto simp: rollFile_def Let_def split: option.splits prod.splits)

lemma lf_body_mutex: "lf_body op (set_mutex m s) = map_option (set_mutex m) (lf_body op s)"
proof (cases op)
  case (LfAppend line)
  have n: "isNeedRollFile ((fst s)\<lparr>lf_mutex := m, lf_file := f\<rparr>) w =
      map_option (\<lambda>(b, l', w'). (b, l'\<lparr>lf_mutex := m\<rparr>, w')) (isNeedRollFile ((fst s)\<lparr>lf_file := f\<rparr>) w)" for f w
  proof -
    have "(fst s)\<lparr>lf_mutex := m, lf_file := f\<rparr> = (fst s)\<lparr>lf_file := f, lf_mutex := m\<rparr>" by simp
    then show ?thesis by (simp only: isNeedRollFile_mutex)
  qed
  show ?thesis
    using LfAppend
    by (auto simp: set_mutex_def append_unlock_def n rollFile_mutex option.map_comp comp_def split_beta
        split: Option.bind_splits cong: option.map_cong)
next
  case LfFlush
  then show ?thesis by (cases "lf_file (fst s)") (auto simp: set_mutex_def flush_unlock_def)
qed

lemma lf_apply_body:
  assumes "lf_mutex (fst s) = Some False"
  shows "lf_apply op s = lf_body op s"
    and "lf_body op s = Some s' \<Longrightarrow> lf_mutex (fst s') = Some False"
proof -
  have id: "set_mutex (Some False) s = s" using assms by (cases s) (simp add: set_mutex_def)
  have mm: "map_option (set_mutex (Some False)) (lf_body op s) = lf_body op s"
    using lf_body_mutex[of op "Some False" s] by (simp add: id)
  then show "lf_body op s = Some s' \<Longrightarrow> lf_mutex (fst s') = Some False"
    using set_mutex_simps(2)[of "Some False" s'] by simp
  have "lf_apply op s = map_option (set_mutex (Some False)) (lf_body op (set_mutex (Some True) s))"
    using assms
    by (cases op) (auto simp: LogFile_append_def LogFile_flush_def with_mutex_def set_mutex_def
        intro!: arg_cong[where f = "\<lambda>g. map_option g _"])
  then show "lf_apply op s = lf_body op s"
    using mm by (simp add: lf_body_mutex option.map_comp comp_def)
qed

lemma fold_lf_apply_mutex:
  "fold_opt lf_apply ops s = Some s' \<Longrightarrow> lf_mutex (fst s) = Some False \<Longrightarrow> lf_mutex (fst s') = Some False"
proof (induction ops arbitrary: s)
  case (Cons op ops)
  then show ?case using lf_apply_body[of s op] by (auto split: option.splits)
qed simp

lemma serial_lf_apply:
  "serial lf_program lf_body s log x \<Longrightarrow> lf_mutex (fst s) = Some False \<Longrightarrow> fold_opt lf_apply (map snd log) s = x"
proof (induction rule: serial.induct)
  case (snoc log d t op)
  then have f: "fold_opt lf_apply (map snd log) s = Some d" by simp
  from lf_apply_body(1)[OF fold_lf_apply_mutex[OF f snoc.prems]] f show ?case
    by (auto simp: fold_opt_append split: option.splits)
qed simp

lemma serial_lf_any: "fold_opt lf_apply (map snd log) s = Some s' \<Longrightarrow> lf_mutex (fst s) = Some False \<Longrightarrow>
  serial lf_program lf_body s log (Some s')"
proof (induction log arbitrary: s' rule: rev_induct)
  case Nil
  then show ?case by (simp add: serial.nil)
next
  case (snoc e log)
  obtain d where d: "fold_opt lf_apply (map snd log) s = Some d" "lf_apply (snd e) d = Some s'"
    using snoc.prems(1) by (auto simp: fold_opt_append split: option.splits)
  from serial.snoc[OF snoc.IH[OF d(1) snoc.prems(2)], of "fst e" "snd e"] lf_apply_body(1)[of d "snd e"]
    fold_lf_apply_mutex[OF d(1) snoc.prems(2)] d(2) show ?case by simp
qed

lemma LogFile_new_mutex:
  "LogFile_new basename rollSize True flushInterval checkEveryN w = Some s \<Longrightarrow> lf_mutex (fst s) = Some False"
  by (auto simp: LogFile_new_def rollFile_def Let_def split: option.splits prod.splits if_splits)

text \<open>A new log file never fails, however it is called.\<close>

lemma lf_new_runs:
  assumes "w_healthy w" "0 < w_clock w (w_ticks w)" "w_closed w = []"
    "LogFile_new basename rollSize True flushInterval checkEveryN w = Some s0"
  obtains s groups where "fold_opt lf_apply ops s0 = Some s" "map f_stream (lf_files s) = map concat groups"
    "concat groups = lf_lines ops"
proof -
  note use = that
  obtain l w1 where n: "s0 = (l, w1)" "lf_ok (l, w1)" "map snd (lf_log l w1) = map concat [[]]"
    using LogFile_new_ok[OF assms(1-3), of basename rollSize True flushInterval checkEveryN] assms(4) by auto
  from lf_run_grouped[OF n(2,3), of ops] n(1) use show thesis by (auto simp: lf_log_def comp_def)
qed

text \<open>C10: A log file with a mutex may be called by any number of threads: their \<open>append\<close> and \<open>flush\<close> are
  interleaved statement by statement, with one another and with the other uses of the mutex, and no thread ever
  makes the process fail; whenever no thread is in its critical section, the file list holds consecutive groups of
  whole lines, which are all the lines in the order in which the threads came to hold the mutex.\<close>

theorem LogFile_threads_whole:
  assumes "w_healthy w" "0 < w_clock w (w_ticks w)" "w_closed w = []"
    "LogFile_new basename rollSize True flushInterval checkEveryN w = Some s0" "monitor_reachable lf_program s0 m"
  shows "mon_data m \<noteq> None
    \<and> ((\<forall>t. sys_pc (mon_sys m) t \<noteq> Inside) \<longrightarrow> (\<exists>s groups. mon_data m = Some s
        \<and> map f_stream (lf_files s) = map concat groups \<and> concat groups = lf_lines (map snd (mon_log m))))"
proof -
  note mutex = LogFile_new_mutex[OF assms(4)]
  have alive: "\<not> serial lf_program lf_body s0 log None" for log
  proof
    assume "serial lf_program lf_body s0 log None"
    then have "fold_opt lf_apply (map snd log) s0 = None" by (rule serial_lf_apply[OF _ mutex])
    moreover obtain s where "fold_opt lf_apply (map snd log) s0 = Some s" by (rule lf_new_runs[OF assms(1-4)])
    ultimately show False by simp
  qed
  have "mon_data m = fold_opt lf_apply (map snd (mon_log m)) s0" if "\<And>t. \<not> in_section (mon_sys m) t"
    using serial_lf_apply[OF lfg.between_sections[OF assms(5) alive that] mutex] by simp
  moreover obtain s groups where "fold_opt lf_apply (map snd (mon_log m)) s0 = Some s"
    "map f_stream (lf_files s) = map concat groups" "concat groups = lf_lines (map snd (mon_log m))"
    by (rule lf_new_runs[OF assms(1-4)])
  ultimately show ?thesis
    using lfg.never_dies[OF assms(5) alive] by (auto simp: in_section_def)
qed

theorem LogFile_threads_whole_witness:
  "\<exists>s0 m s groups. LogFile_new ''log'' 4 True 3 1024 demo_world = Some s0 \<and> monitor_reachable lf_program s0 m
    \<and> mon_log m = [(7, LfAppend ''hello''), (8, LfAppend ''world''), (7, LfFlush), (8, LfAppend ''!'')]
    \<and> mon_data m = Some s \<and> map f_stream (lf_files s) = map concat groups
    \<and> concat groups = [''hello'', ''world'', ''!'']"
proof -
  let ?log = "[(7 :: int, LfAppend ''hello''), (8, LfAppend ''world''), (7, LfFlush), (8, LfAppend ''!'')]"
  obtain s0 where n: "LogFile_new ''log'' 4 True 3 1024 demo_world = Some s0"
    using LogFile_new_ok[of demo_world "''log''" 4 True 3 1024] by auto
  obtain s where "fold_opt lf_apply (map snd ?log) s0 = Some s"
    by (rule lf_new_runs[OF _ _ _ n, of "map snd ?log"]) simp_all
  from lfg.realises[OF serial_lf_any[OF this LogFile_new_mutex[OF n]]] obtain m where
    m: "monitor_reachable lf_program s0 m" "mon_log m = ?log" "mutex_idle (mon_sys m)" by auto
  from LogFile_threads_whole[OF _ _ _ n m(1)] m(3) obtain s groups where
    "mon_data m = Some s" "map f_stream (lf_files s) = map concat groups" "concat groups = lf_lines (map snd (mon_log m))"
    by (auto simp: mutex_idle_def)
  moreover have "lf_lines (map snd (mon_log m)) = [''hello'', ''world'', ''!'']" unfolding m(2) by simp
  ultimately show ?thesis using n m(1,2) by metis
qed

end
