(* ===== verification/ConcurrentTests.thy ===== *)
theory ConcurrentTests
  imports Monitor ThreadPool "HOL-Library.Multiset"
begin

text \<open>Two programs of src/log/tests/ that run threads against each other: Mutex\_unittest.cc, whose threads push
  into one vector under a mutex, and ThreadPool\_test.cc, which fills a pool and stops it.  The vector is a second
  interpretation of the locale \<open>guarded_object\<close>; the pool runs on the step relation of the theory ThreadPool.\<close>

section \<open>Mutex\_unittest.cc\<close>

text \<open>One turn of the loop of \<open>threadFunc\<close>: \<open>push_back\<close> inside the guard's scope reads the vector and stores the
  longer one, two statements between which another thread's would be lost.\<close>

datatype mt_op = PushBack int

definition mt_load :: "(int list, int list) statement" where
  "mt_load x = (case x of (g_vec, loaded) \<Rightarrow> Some (g_vec, g_vec))"

definition mt_store :: "int \<Rightarrow> (int list, int list) statement" where
  "mt_store i x = (case x of (g_vec, loaded) \<Rightarrow> Some (loaded @ [i], loaded))"

fun mt_code :: "mt_op \<Rightarrow> (int list, int list) statement list" where
  "mt_code (PushBack i) = [mt_load, mt_store i]"

fun pushed :: "mt_op \<Rightarrow> int" where
  "pushed (PushBack i) = i"

text \<open>All turns of one thread.\<close>

definition mt_threadFunc :: "nat \<Rightarrow> mt_op list" where
  "mt_threadFunc kCount = map (\<lambda>i. PushBack (int i)) [0 ..< kCount]"

definition mt_program :: "(int list, int list, mt_op) monitor_program" where
  "mt_program = \<lparr>pr_code = mt_code, pr_locked = (\<lambda>_. True), pr_may = (\<lambda>_ _ _. True)\<rparr>"

lemma mt_program_simps [simp]:
  "pr_code mt_program = mt_code" "pr_locked mt_program op" "pr_may mt_program t op d"
  by (simp_all add: mt_program_def)

definition mt_effect :: "mt_op \<Rightarrow> int list \<Rightarrow> int list option" where
  "mt_effect op d = Some (d @ [pushed op])"

lemma mt_code_effect: "map_option fst (run_section (mt_code op) (d, v)) = mt_effect op d"
  by (cases op) (simp add: mt_load_def mt_store_def mt_effect_def)

interpretation mt: guarded_object mt_program mt_effect
  by unfold_locales (simp_all add: mt_code_effect)

lemma serial_push: "serial mt_program mt_effect d log x \<Longrightarrow> x = Some (d @ map pushed (map snd log))"
  by (induction rule: serial.induct) (auto simp: mt_effect_def)

lemma serial_push_any: "serial mt_program mt_effect d log (Some (d @ map pushed (map snd log)))"
proof (induction log rule: rev_induct)
  case Nil
  then show ?case by (simp add: serial.nil)
next
  case (snoc e log)
  from serial.snoc[OF snoc, of "fst e" "snd e"] show ?case by (simp add: mt_effect_def)
qed

definition ops_of :: "int \<Rightarrow> (int \<times> 'op) list \<Rightarrow> 'op list" where
  "ops_of t log = map snd (filter (\<lambda>x. fst x = t) log)"

lemma count_by_thread:
  assumes "finite T" "fst ` set log \<subseteq> T"
  shows "count (mset (map snd log)) op = (\<Sum>t\<in>T. count (mset (ops_of t log)) op)"
  using assms(2)
proof (induction log)
  case Nil
  then show ?case by (simp add: ops_of_def)
next
  case (Cons x log)
  have "(\<Sum>t\<in>T. count (mset (ops_of t (x # log))) op)
      = (\<Sum>t\<in>T. count (mset (ops_of t log)) op + (if t = fst x then of_bool (snd x = op) else 0))"
    by (rule sum.cong) (auto simp: ops_of_def)
  also have "\<dots> = (\<Sum>t\<in>T. count (mset (ops_of t log)) op) + of_bool (snd x = op)"
    using Cons.prems assms(1) by (simp add: sum.distrib)
  finally show ?case using Cons by simp
qed

text \<open>However the threads are scheduled, when all have come to the end of their loops the vector holds every
  number once per thread: no push is lost, although each reads and writes the vector in two statements.\<close>

theorem Mutex_unittest_pushes:
  assumes "monitor_reachable mt_program [] m" "\<And>t. sys_pc (mon_sys m) t \<noteq> Inside"
    and "finite T" "fst ` set (mon_log m) \<subseteq> T" "\<And>t. t \<in> T \<Longrightarrow> ops_of t (mon_log m) = mt_threadFunc kCount"
  shows "\<exists>g_vec. mon_data m = Some g_vec \<and> mset g_vec = repeat_mset (card T) (mset (map int [0 ..< kCount]))"
proof -
  let ?g_vec = "map pushed (map snd (mon_log m))"
  have alive: "\<not> serial mt_program mt_effect [] log None" for log using serial_push by fastforce
  have d: "mon_data m = Some ?g_vec"
    using serial_push[OF mt.between_sections[OF assms(1) alive]] assms(2) by (simp add: in_section_def)
  have "mset (map snd (mon_log m)) = repeat_mset (card T) (mset (mt_threadFunc kCount))"
  proof (rule multiset_eqI)
    fix x
    have "(\<Sum>t\<in>T. count (mset (ops_of t (mon_log m))) x) = (\<Sum>t\<in>T. count (mset (mt_threadFunc kCount)) x)"
      by (rule sum.cong) (simp_all add: assms(5))
    then show "count (mset (map snd (mon_log m))) x = count (repeat_mset (card T) (mset (mt_threadFunc kCount))) x"
      unfolding count_by_thread[OF assms(3,4)] by simp
  qed
  then have "mset ?g_vec = image_mset pushed (repeat_mset (card T) (mset (mt_threadFunc kCount)))"
    unfolding mset_map[of pushed] by simp
  also have "image_mset pushed (repeat_mset n M) = repeat_mset n (image_mset pushed M)" for n M
    by (induction n) simp_all
  finally show ?thesis
    by (simp add: d mt_threadFunc_def multiset.map_comp comp_def)
qed

theorem Mutex_unittest_pushes_witness:
  "\<exists>m g_vec. monitor_reachable mt_program [] m \<and> fst ` set (mon_log m) = {7, 8} \<and> mon_data m = Some g_vec
    \<and> mset g_vec = {#0, 1, 0, 1#}"
proof -
  let ?log = "[(7, PushBack 0), (8, PushBack 0), (8, PushBack 1), (7, PushBack 1)]"
  obtain m where m: "monitor_reachable mt_program [] m" "mon_log m = ?log" "mutex_idle (mon_sys m)"
    using mt.realises[OF serial_push_any, of ?log "[]"] by auto
  have "\<exists>g_vec. mon_data m = Some g_vec \<and> mset g_vec = repeat_mset (card {7, 8 :: int}) (mset (map int [0 ..< 2]))"
    by (rule Mutex_unittest_pushes[OF m(1)])
      (use m in \<open>auto simp: ops_of_def mt_threadFunc_def upt_rec mutex_idle_def\<close>)
  moreover have "repeat_mset (card {7, 8 :: int}) (mset (map int [0 ..< 2])) = {#0, 1, 0, 1#}"
    by (simp add: upt_rec numeral_2_eq_2)
  ultimately show ?thesis using m by auto
qed

text \<open>\<open>foo\<close>, called once inside \<open>MCHECK\<close>: the result, the mutex afterwards and the counter; \<open>None\<close> if the mutex is
  not free.\<close>

definition foo :: "int \<Rightarrow> MutexLock \<Rightarrow> int \<Rightarrow> (int \<times> MutexLock \<times> int) option" where
  "foo t g_mutex g_count =
     map_option (\<lambda>m. let locked = assignHolder t m; out = pthread_mutex_unlock (unassignHolder locked)
                 in if \<not> isLockedByThisThread t locked then (- 1, out, g_count) else (0, out, g_count + 1))
       (pthread_mutex_lock t g_mutex)"

definition main_check :: "int \<Rightarrow> MutexLock option" where
  "main_check t =
     do { (ret, m, g_count) \<leftarrow> foo t MutexLock_new 0;
          u \<leftarrow> MCHECK ret;
          if g_count \<noteq> 1 then None else Some m }"

lemma main_check_passes: "main_check t = Some MutexLock_new"
  by (simp add: main_check_def foo_def mutex_defs MutexLock_new_def isLockedByThisThread_def MCHECK_def Let_def)

section \<open>ThreadPool\_test.cc\<close>

datatype pool_test_task = Print | PrintString bytes | CountDown

definition task_text :: "nat \<Rightarrow> bytes" where
  "task_text i = until_NUL (snprintf_mem 32 (''task '' @ fmt_d (int i)))"

text \<open>What \<open>test\<close> queues, in order, before it waits for the latch and stops the pool.\<close>

definition pool_test_tasks :: "pool_test_task list" where
  "pool_test_tasks = [Print, Print] @ map (\<lambda>i. PrintString (task_text i)) [0 ..< 100] @ [CountDown]"

text \<open>When the latch lets \<open>test\<close> go on to \<open>stop\<close>, a worker has run the last task, so all tasks have been taken: the early
  end of a stopped pool loses none of them, with any bound on the queue and any number of workers.\<close>

theorem ThreadPool_test_all_taken:
  assumes "pool_reachable (pool_start maxSize nThreads callers) s"
    "tp_queued s = pool_test_tasks" "CountDown \<in> set (tp_taken s)"
  shows "tp_queue s = [] \<and> tp_taken s = pool_test_tasks"
proof -
  have "tp_taken s @ tp_queue s = butlast pool_test_tasks @ [CountDown]"
  proof -
    have "pool_test_tasks = butlast pool_test_tasks @ [CountDown]" by (simp add: pool_test_tasks_def)
    then show ?thesis using pool_reachable_inv[OF assms(1)] assms(2) by (simp add: queue_inv_def)
  qed
  moreover have "CountDown \<notin> set (butlast pool_test_tasks)"
    by (auto simp: pool_test_tasks_def butlast_append)
  ultimately have "tp_queue s = []"
    using assms(3) by (cases "tp_queue s" rule: rev_cases) (auto, metis Un_iff set_append)
  then show ?thesis using pool_reachable_inv[OF assms(1)] assms(2) by (simp add: queue_inv_def)
qed

text \<open>\<open>test2\<close> runs a task after \<open>stop\<close>: it is dropped and the call returns.\<close>

theorem ThreadPool_run_after_stop:
  "\<exists>s'. pool_run W c task (pool_stop s) = Some s' \<and> tp_caller s' c = CIdle
    \<and> tp_queue s' = tp_queue s \<and> tp_queued s' = tp_queued s"
  by (auto simp: pool_run_def pool_stop_def Let_def wake_workers_def wake_callers_def)

end
