(* ===== verification/AsyncThreads.thy ===== *)
theory AsyncThreads
  imports Monitor AsyncLogging
begin

text \<open>The asynchronous logger at the granularity of statements.

  The theory AsyncLogging takes the code between taking and releasing the mutex as one step.  Here it is executed
  statement by statement: \<open>append\<close> by any number of threads and the exchange by the logging thread hold the mutex of
  the mutex system, while \<open>start\<close>, \<open>stop\<close> and the logging thread's work outside the mutex happen in between.  The
  class is an interpretation of the locale \<open>guarded_object\<close>: what runs outside the mutex does not touch what the
  sections of the other threads touch.  So every interleaving of statements is a run of the atomic steps, and nothing
  is lost.\<close>

section \<open>Statements\<close>

type_synonym al_statement = "(async, bool) statement"

text \<open>\<open>append\<close>; the local is the result of the test.  A \<open>unique_ptr\<close> moved from is null.\<close>

definition ap_test :: "nat \<Rightarrow> al_statement" where
  "ap_test len x =
     (case x of (s, v) \<Rightarrow> map_option (\<lambda>current. (s, int len < fb_avail current)) (al_current s))"

definition ap_current :: "bytes \<Rightarrow> nat \<Rightarrow> async \<Rightarrow> async option" where
  "ap_current logline len s =
     Option.bind (al_current s) (\<lambda>b. map_option (\<lambda>b'. s\<lparr>al_current := Some b'\<rparr>) (fb_append logline (size_t_of (int len)) b))"

definition push_current :: "async \<Rightarrow> async" where
  "push_current s = s\<lparr>al_buffers := al_buffers s @ [al_current s], al_current := None\<rparr>"

definition ap_first :: "bytes \<Rightarrow> nat \<Rightarrow> al_statement" where
  "ap_first logline len x =
     (case x of (s, enough) \<Rightarrow>
        if enough then map_option (\<lambda>s'. (s', enough)) (ap_current logline len s) else Some (push_current s, enough))"

definition ap_next :: "bytes \<Rightarrow> al_statement" where
  "ap_next junk x =
     (case x of (s, enough) \<Rightarrow>
        Some (if enough then s
              else case al_next s of
                Some b \<Rightarrow> s\<lparr>al_current := Some b, al_next := None\<rparr>
              | None \<Rightarrow> s\<lparr>al_current := Some (new_Buffer junk)\<rparr>, enough))"

definition ap_last :: "bytes \<Rightarrow> nat \<Rightarrow> al_statement" where
  "ap_last logline len x =
     (case x of (s, enough) \<Rightarrow>
        if enough then Some (s, enough) else map_option (\<lambda>s'. (s', enough)) (ap_current logline len s))"

text \<open>The logging thread's section.  \<open>move_pc\<close> is the progress of the thread itself; the local says that it goes to
  wait, which ends the section, and the statements after the wait are another one.\<close>

definition move_pc :: "backend_pc \<Rightarrow> backend_pc \<Rightarrow> async \<Rightarrow> async option" where
  "move_pc a b s = (if al_pc s = a then Some (s\<lparr>al_pc := b\<rparr>) else None)"

definition lk_test :: "al_statement" where
  "lk_test x = (case x of (s, v) \<Rightarrow> if al_pc s = Locking then Some (s, al_buffers s = []) else None)"

definition lk_wait :: "al_statement" where
  "lk_wait x =
     (case x of (s, waits) \<Rightarrow> if waits then map_option (\<lambda>s'. (s', waits)) (move_pc Locking Waiting s) else Some (s, waits))"

definition ex_current :: "async \<Rightarrow> async" where
  "ex_current s = s\<lparr>al_current := al_new1 s, al_new1 := None\<rparr>"

definition ex_swap :: "async \<Rightarrow> async" where
  "ex_swap s = s\<lparr>al_toWrite := al_buffers s, al_buffers := al_toWrite s\<rparr>"

definition ex_next :: "async \<Rightarrow> async" where
  "ex_next s = (if al_next s = None then s\<lparr>al_next := al_new2 s, al_new2 := None\<rparr> else s)"

text \<open>A statement on the data alone, which a thread that goes to wait does not reach.\<close>

definition unless_waiting :: "(async \<Rightarrow> async option) \<Rightarrow> al_statement" where
  "unless_waiting f x = (case x of (s, waits) \<Rightarrow> if waits then Some (s, waits) else map_option (\<lambda>s'. (s', waits)) (f s))"

definition ex_code :: "backend_pc \<Rightarrow> (async \<Rightarrow> async option) list" where
  "ex_code pc = [\<lambda>s. Some (push_current s), \<lambda>s. Some (ex_current s), \<lambda>s. Some (ex_swap s), \<lambda>s. Some (ex_next s), move_pc pc Writing]"

definition always :: "(async \<Rightarrow> async option) \<Rightarrow> al_statement" where
  "always f x = (case x of (s, v) \<Rightarrow> map_option (\<lambda>s'. (s', v)) (f s))"

section \<open>Operations\<close>

datatype al_op =
    AlAppend bytes bytes nat
  | AlLock
  | AlWoken
  | AlBackend bytes bytes "int \<times> int"
  | AlStart
  | AlStop

text \<open>The logging thread outside the mutex, and the two operations that start and stop it.\<close>

definition backend_outside :: "bytes \<Rightarrow> bytes \<Rightarrow> int \<times> int \<Rightarrow> async \<Rightarrow> async option" where
  "backend_outside junk1 junk2 tv s =
     (if al_pc s \<in> {Starting, Testing, Writing} then backend_step junk1 junk2 tv s else None)"

definition start_once :: "async \<Rightarrow> async option" where
  "start_once s = (if al_pc s = Unborn then Some (async_start s) else None)"

definition stop_started :: "async \<Rightarrow> async option" where
  "stop_started s = (if al_pc s \<in> {Unborn, Starting} then None else Some (async_stop s))"

fun al_code :: "al_op \<Rightarrow> al_statement list" where
  "al_code (AlAppend junk mem n) = [ap_test n, ap_first mem n, ap_next junk, ap_last mem n]"
| "al_code AlLock = lk_test # lk_wait # map unless_waiting (ex_code Locking)"
| "al_code AlWoken = map always (ex_code Waiting)"
| "al_code (AlBackend junk1 junk2 tv) = [always (backend_outside junk1 junk2 tv)]"
| "al_code AlStart = [always start_once]"
| "al_code AlStop = [always stop_started]"

fun al_locked :: "al_op \<Rightarrow> bool" where
  "al_locked (AlBackend junk1 junk2 tv) = False"
| "al_locked AlStart = False"
| "al_locked AlStop = False"
| "al_locked _ = True"

text \<open>The thread \<open>B\<close> is the logging thread.  As in the theory AsyncLogging, messages are C strings with their
  length, and \<open>stop\<close> is called after \<open>start\<close> has returned.\<close>

fun al_may :: "int \<Rightarrow> int \<Rightarrow> al_op \<Rightarrow> async \<Rightarrow> bool" where
  "al_may B t (AlAppend junk mem n) s \<longleftrightarrow> t \<noteq> B \<and> length junk = kLargeBuffer \<and> c_strlen mem = Some n \<and> n < 2 ^ 31"
| "al_may B t AlLock s \<longleftrightarrow> t = B \<and> al_pc s = Locking"
| "al_may B t AlWoken s \<longleftrightarrow> t = B \<and> al_pc s = Waiting"
| "al_may B t (AlBackend junk1 junk2 tv) s \<longleftrightarrow> t = B \<and> al_pc s \<in> {Starting, Testing, Writing}
     \<and> length junk1 = kLargeBuffer \<and> length junk2 = kLargeBuffer"
| "al_may B t AlStart s \<longleftrightarrow> t \<noteq> B \<and> al_pc s = Unborn"
| "al_may B t AlStop s \<longleftrightarrow> t \<noteq> B \<and> al_pc s \<notin> {Unborn, Starting}"

definition al_program :: "int \<Rightarrow> (async, bool, al_op) monitor_program" where
  "al_program B = \<lparr>pr_code = al_code, pr_locked = al_locked, pr_may = al_may B\<rparr>"

lemma al_program_simps [simp]:
  "pr_code (al_program B) = al_code" "pr_locked (al_program B) = al_locked" "pr_may (al_program B) = al_may B"
  by (simp_all add: al_program_def)

text \<open>The atomic steps.\<close>

fun al_effect :: "al_op \<Rightarrow> async \<Rightarrow> async option" where
  "al_effect (AlAppend junk mem n) s = async_append junk mem (int n) s"
| "al_effect AlLock s = (if al_pc s = Locking then Some (be_lock s) else None)"
| "al_effect AlWoken s = (if al_pc s = Waiting then Some (be_exchange s) else None)"
| "al_effect (AlBackend junk1 junk2 tv) s = backend_outside junk1 junk2 tv s"
| "al_effect AlStart s = start_once s"
| "al_effect AlStop s = stop_started s"

lemmas ap_defs = ap_test_def ap_first_def ap_next_def ap_last_def ap_current_def push_current_def
lemmas ex_defs = lk_test_def lk_wait_def move_pc_def unless_waiting_def always_def push_current_def ex_current_def
  ex_swap_def ex_next_def ex_code_def

lemma append_code_effect:
  "map_option fst (run_section (al_code (AlAppend junk mem n)) (s, v)) = async_append junk mem (int n) s"
  by (cases "al_current s"; cases "al_next s")
    (auto simp: ap_defs async_append_def option.map_comp comp_def split: Option.bind_splits)

lemma exchange_effect:
  "map_option fst (run_section (map unless_waiting (ex_code Locking)) (s, False)) = (if al_pc s = Locking then Some (be_exchange s) else None)"
  "map_option fst (run_section (map always (ex_code Waiting)) (s, v)) = (if al_pc s = Waiting then Some (be_exchange s) else None)"
  by (cases "al_pc s"; auto simp: ex_defs be_exchange_def Let_def)+

lemma lock_code_effect:
  "map_option fst (run_section (al_code AlLock) (s, v)) = (if al_pc s = Locking then Some (be_lock s) else None)"
proof (cases "al_pc s = Locking \<and> al_buffers s \<noteq> []")
  case True
  then show ?thesis using exchange_effect(1)[of s] by (simp add: lk_test_def lk_wait_def be_lock_def)
next
  case False
  then show ?thesis by (auto simp: ex_defs be_lock_def)
qed

lemma always_effect: "map_option fst (run_section [always f] (s, v)) = f s"
  by (cases "f s") (simp_all add: always_def)

lemma al_code_effect: "map_option fst (run_section (al_code op) (s, v)) = al_effect op s"
proof (cases op)
  case (AlAppend junk mem n)
  then show ?thesis using append_code_effect by simp
next
  case AlLock
  then show ?thesis using lock_code_effect by simp
next
  case AlWoken
  then show ?thesis using exchange_effect(2) by simp
qed (simp_all only: al_code.simps al_effect.simps always_effect)

section \<open>What runs outside the mutex leaves the front end alone\<close>

definition front_put :: "fixed_buffer option \<Rightarrow> fixed_buffer option \<Rightarrow> fixed_buffer option list \<Rightarrow> async \<Rightarrow> async" where
  "front_put c n b s = s\<lparr>al_current := c, al_next := n, al_buffers := b\<rparr>"

lemma front_put_simps [simp]:
  "al_pc (front_put c n b s) = al_pc s" "al_running (front_put c n b s) = al_running s"
  "al_output (front_put c n b s) = al_output s" "al_world (front_put c n b s) = al_world s"
  "al_toWrite (front_put c n b s) = al_toWrite s" "al_new1 (front_put c n b s) = al_new1 s"
  "al_new2 (front_put c n b s) = al_new2 s" "al_stderr (front_put c n b s) = al_stderr s"
  "al_basename (front_put c n b s) = al_basename s" "al_rollSize (front_put c n b s) = al_rollSize s"
  "al_current (front_put c n b s) = c" "al_next (front_put c n b s) = n" "al_buffers (front_put c n b s) = b"
  "front_put (al_current s) (al_next s) (al_buffers s) s = s"
  by (simp_all add: front_put_def)

lemma front_put_updates [simp]:
  "(front_put c n b s)\<lparr>al_output := o'\<rparr> = front_put c n b (s\<lparr>al_output := o'\<rparr>)"
  "(front_put c n b s)\<lparr>al_world := w\<rparr> = front_put c n b (s\<lparr>al_world := w\<rparr>)"
  "(front_put c n b s)\<lparr>al_pc := p\<rparr> = front_put c n b (s\<lparr>al_pc := p\<rparr>)"
  "(front_put c n b s)\<lparr>al_running := r\<rparr> = front_put c n b (s\<lparr>al_running := r\<rparr>)"
  "(front_put c n b s)\<lparr>al_new1 := x\<rparr> = front_put c n b (s\<lparr>al_new1 := x\<rparr>)"
  "(front_put c n b s)\<lparr>al_new2 := x\<rparr> = front_put c n b (s\<lparr>al_new2 := x\<rparr>)"
  "(front_put c n b s)\<lparr>al_toWrite := l\<rparr> = front_put c n b (s\<lparr>al_toWrite := l\<rparr>)"
  "(front_put c n b s)\<lparr>al_stderr := e\<rparr> = front_put c n b (s\<lparr>al_stderr := e\<rparr>)"
  by (simp_all add: front_put_def)

text \<open>An operation that neither reads nor writes the front end.\<close>

definition backstage :: "(async \<Rightarrow> async option) \<Rightarrow> bool" where
  "backstage f \<longleftrightarrow> (\<forall>c n b s. f (front_put c n b s) = map_option (front_put c n b) (f s))"

lemma backstageD: "backstage f \<Longrightarrow> f (front_put c n b s) = map_option (front_put c n b) (f s)"
  by (simp add: backstage_def)

lemma backstage_keeps:
  assumes "backstage f" "f s = Some s'"
  shows "al_current s' = al_current s" "al_next s' = al_next s" "al_buffers s' = al_buffers s"
proof -
  have "Some s' = map_option (front_put (al_current s) (al_next s) (al_buffers s)) (Some s')"
    using backstageD[OF assms(1), of "al_current s" "al_next s" "al_buffers s" s] assms(2) by simp
  then have e: "front_put (al_current s) (al_next s) (al_buffers s) s' = s'" by simp
  show "al_current s' = al_current s" "al_next s' = al_next s" "al_buffers s' = al_buffers s"
    by (subst e[symmetric], simp)+
qed

lemma backstage_bind:
  assumes "backstage f" "backstage g"
  shows "backstage (\<lambda>s. Option.bind (f s) g)"
  unfolding backstage_def
proof (intro allI)
  fix c n b s
  show "Option.bind (f (front_put c n b s)) g = map_option (front_put c n b) (Option.bind (f s) g)"
    using assms by (cases "f s") (simp_all add: backstageD)
qed

lemma backstage_output: "backstage (on_output f)"
  unfolding backstage_def
proof (intro allI)
  fix c n b s
  show "on_output f (front_put c n b s) = map_option (front_put c n b) (on_output f s)"
  proof (cases "al_output s")
    case (Some l)
    then show ?thesis by (cases "f (l, al_world s)") (simp_all add: on_output_def split_beta)
  qed (simp add: on_output_def)
qed

lemma backstage_fold: "(\<And>x. backstage (f x)) \<Longrightarrow> backstage (fold_opt f xs)"
proof (induction xs)
  case (Cons x xs)
  have "fold_opt f (x # xs) = (\<lambda>s. Option.bind (f x s) (fold_opt f xs))" by (auto split: option.splits)
  then show ?case using backstage_bind[OF Cons.prems Cons.IH] Cons.prems by simp
qed (simp add: backstage_def)

lemma backstage_drop: "backstage (be_drop tv)"
proof -
  have "backstage (\<lambda>s. map_option (\<lambda>s2. s2\<lparr>al_toWrite := take 2 (al_toWrite s2)\<rparr>)
      (on_output g (s\<lparr>al_stderr := al_stderr s @ buf\<rparr>)))" for g buf
    unfolding backstage_def
    by (simp add: backstageD[OF backstage_output] option.map_comp comp_def)
  then show ?thesis
    unfolding backstage_def be_drop_def Let_def by simp
qed

lemma backstage_write_one: "backstage (be_write_one x)"
  using backstage_output by (cases x) (simp_all add: be_write_one_def backstage_def)

lemma backstage_recycle: "backstage be_recycle"
  by (auto simp: backstage_def be_recycle_def Let_def map_option_bind option.map_comp comp_def split: Option.bind_splits prod.splits)

lemma backstage_write: "backstage (be_write tv)"
  unfolding backstage_def
proof (intro allI)
  fix c n b s
  have e: "be_write tv s = (if al_toWrite s = [] then None else
      Option.bind (Option.bind (Option.bind (Option.bind (be_drop tv s) (\<lambda>s1. fold_opt be_write_one (al_toWrite s1) s1)) be_recycle)
        (on_output LogFile_flush)) (\<lambda>s. Some (s\<lparr>al_pc := Testing\<rparr>)))" for s
    by (simp add: be_write_def)
  have w: "backstage (\<lambda>s1. fold_opt be_write_one (al_toWrite s1) s1)"
    unfolding backstage_def by (simp add: backstageD[OF backstage_fold[OF backstage_write_one]])
  have t: "backstage (\<lambda>s. Some (s\<lparr>al_pc := Testing\<rparr>))" by (simp add: backstage_def)
  note all = backstage_bind[OF backstage_bind[OF backstage_bind[OF backstage_bind[OF backstage_drop w] backstage_recycle]
      backstage_output] t]
  show "be_write tv (front_put c n b s) = map_option (front_put c n b) (be_write tv s)"
    unfolding e using backstageD[OF all] by simp
qed

lemma backstage_outside: "backstage (backend_outside junk1 junk2 tv)"
  unfolding backstage_def
proof (intro allI)
  fix c n b s
  show "backend_outside junk1 junk2 tv (front_put c n b s) = map_option (front_put c n b) (backend_outside junk1 junk2 tv s)"
  proof (cases "al_pc s")
    case Starting
    then show ?thesis
      by (cases "LogFile_new (al_basename s) (al_rollSize s) False 3 1024 (al_world s)")
        (auto simp: backend_outside_def backend_step_def be_start_def)
  next
    case Testing
    then show ?thesis
      by (simp add: backend_outside_def backend_step_def be_test_def backstageD[OF backstage_output] option.map_comp comp_def)
  next
    case Writing
    then show ?thesis by (simp add: backend_outside_def backend_step_def backstageD[OF backstage_write])
  qed (simp_all add: backend_outside_def)
qed

lemma backstage_start_stop: "backstage start_once" "backstage stop_started"
  by (simp_all add: backstage_def start_once_def stop_started_def async_start_def async_stop_def)

lemma unlocked_backstage: "\<not> al_locked a \<Longrightarrow> backstage (al_effect a)"
proof (cases a)
  case (AlBackend junk1 junk2 tv)
  have "al_effect a = backend_outside junk1 junk2 tv" using AlBackend by (simp add: fun_eq_iff)
  then show ?thesis by (simp add: backstage_outside)
next
  case AlStart
  have "al_effect a = start_once" using AlStart by (simp add: fun_eq_iff)
  then show ?thesis by (simp add: backstage_start_stop)
next
  case AlStop
  have "al_effect a = stop_started" using AlStop by (simp add: fun_eq_iff)
  then show ?thesis by (simp add: backstage_start_stop)
qed simp_all

text \<open>A statement of \<open>append\<close> works on the front end only.\<close>

definition frontstage :: "al_statement \<Rightarrow> bool" where
  "frontstage f \<longleftrightarrow> (\<exists>F. \<forall>s v. f (s, v) =
     map_option (\<lambda>(c, n, b, v'). (front_put c n b s, v')) (F (al_current s, al_next s, al_buffers s) v))"

lemma frontstageI:
  assumes "\<And>s v. f (s, v) = map_option (\<lambda>(c, n, b, v'). (front_put c n b s, v')) (F (al_current s, al_next s, al_buffers s) v)"
  shows "frontstage f"
  unfolding frontstage_def by (intro exI[of _ F] allI assms)

lemma ap_current_front:
  "ap_current mem k s = map_option (\<lambda>c. front_put (Some c) (al_next s) (al_buffers s) s)
     (Option.bind (al_current s) (fb_append mem (size_t_of (int k))))"
  by (cases "al_current s") (auto simp: ap_current_def front_put_def option.map_comp comp_def intro!: option.map_cong)

lemma append_frontstage:
  assumes "f \<in> set (al_code (AlAppend junk mem k))"
  shows "frontstage f"
proof -
  consider "f = ap_test k" | "f = ap_first mem k" | "f = ap_next junk" | "f = ap_last mem k" using assms by auto
  then show ?thesis
  proof cases
    case 1
    show ?thesis unfolding 1
      by (rule frontstageI[where F = "\<lambda>(c, n, b) v. map_option (\<lambda>x. (c, n, b, int k < fb_avail x)) c"])
        (simp add: ap_test_def option.map_comp comp_def)
  next
    case 2
    show ?thesis unfolding 2
      by (rule frontstageI[where F = "\<lambda>(c, n, b) v. if v then map_option (\<lambda>x. (Some x, n, b, v))
            (Option.bind c (fb_append mem (size_t_of (int k)))) else Some (None, n, b @ [c], v)"])
        (simp add: ap_first_def ap_current_front option.map_comp comp_def push_current_def front_put_def)
  next
    case 3
    show ?thesis unfolding 3
      by (rule frontstageI[where F = "\<lambda>(c, n, b) v. Some (if v then (c, n, b, v)
            else case n of Some x \<Rightarrow> (Some x, None, b, v) | None \<Rightarrow> (Some (new_Buffer junk), n, b, v))"])
        (simp add: ap_next_def front_put_def split: option.splits)
  next
    case 4
    show ?thesis unfolding 4
      by (rule frontstageI[where F = "\<lambda>(c, n, b) v. if v then Some (c, n, b, v) else map_option (\<lambda>x. (Some x, n, b, v))
            (Option.bind c (fb_append mem (size_t_of (int k))))"])
        (simp add: ap_last_def ap_current_front option.map_comp comp_def)
  qed
qed

lemma frontstage_backstage:
  assumes "frontstage f" "backstage g"
  shows "Option.bind (g s) (\<lambda>s'. f (s', v)) = Option.bind (f (s, v)) (\<lambda>(s', v'). map_option (\<lambda>s''. (s'', v')) (g s'))"
proof -
  obtain F where F: "\<And>s v. f (s, v) = map_option (\<lambda>(c, n, b, v'). (front_put c n b s, v')) (F (al_current s, al_next s, al_buffers s) v)"
    using assms(1) unfolding frontstage_def by blast
  show ?thesis
  proof (cases "g s")
    case None
    then show ?thesis
      by (cases "F (al_current s, al_next s, al_buffers s) v") (auto simp: F backstageD[OF assms(2)])
  next
    case (Some s')
    then show ?thesis
      using backstage_keeps[OF assms(2) Some]
      by (cases "F (al_current s, al_next s, al_buffers s) v") (auto simp: F backstageD[OF assms(2)])
  qed
qed

lemma frontstage_pc: "frontstage f \<Longrightarrow> f (s, v) = Some (s', v') \<Longrightarrow> al_pc s' = al_pc s"
  by (auto simp: frontstage_def)

text \<open>The logging thread's section and the calls of \<open>start\<close> and \<open>stop\<close>.\<close>

lemma exchange_commutes:
  assumes "f \<in> set (al_code AlLock) \<union> set (al_code AlWoken)" "g = start_once \<or> g = stop_started"
  shows "Option.bind (g s) (\<lambda>s'. f (s', v)) = Option.bind (f (s, v)) (\<lambda>(s', v'). map_option (\<lambda>s''. (s'', v')) (g s'))"
  using assms
  by (cases v; cases "al_pc s")
    (auto simp: ex_defs start_once_def stop_started_def async_start_def async_stop_def)

lemma exchange_pc:
  assumes "f \<in> set (al_code AlLock) \<union> set (al_code AlWoken)" "f (s, v) = Some (s', v')"
  shows "al_pc s' = al_pc s \<or> al_pc s \<in> {Locking, Waiting} \<and> al_pc s' \<in> {Waiting, Writing}"
  using assms by (auto simp: ex_defs split: if_splits)

lemma not_al_locked: "\<not> al_locked a \<Longrightarrow> (\<exists>j1 j2 tv. a = AlBackend j1 j2 tv) \<or> a = AlStart \<or> a = AlStop"
  by (cases a) simp_all

interpretation al: guarded_object "al_program B" al_effect for B
proof unfold_locales
  fix op :: al_op and s v
  show "map_option fst (run_section (pr_code (al_program B) op) (s, v)) = al_effect op s"
    using al_code_effect by simp
next
  fix op a :: al_op and t u :: int and s1 s2 s :: async and f :: al_statement and v
  assume h: "pr_locked (al_program B) op" "\<not> pr_locked (al_program B) a" "pr_may (al_program B) t op s1"
    "pr_may (al_program B) u a s2" "t \<noteq> u" "f \<in> set (pr_code (al_program B) op)"
  show "Option.bind (al_effect a s) (\<lambda>s'. f (s', v)) = Option.bind (f (s, v)) (\<lambda>(s', v'). map_option (\<lambda>s''. (s'', v')) (al_effect a s'))"
  proof (cases "\<exists>junk mem n. op = AlAppend junk mem n")
    case True
    then have "frontstage f" using h(6) append_frontstage by auto
    then show ?thesis using frontstage_backstage unlocked_backstage h(2) by simp
  next
    case False
    then have op: "op = AlLock \<or> op = AlWoken" using h(1) by (cases op) simp_all
    then have "a = AlStart \<or> a = AlStop" using not_al_locked[of a] h(2-5) by auto
    then have "al_effect a = start_once \<or> al_effect a = stop_started" by (auto simp: fun_eq_iff)
    then show ?thesis using exchange_commutes[of f "al_effect a"] op h(6) by (auto simp del: al_code.simps)
  qed
next
  fix op a :: al_op and t u :: int and s1 s s' :: async and f :: al_statement and v v'
  assume h: "pr_locked (al_program B) op" "\<not> pr_locked (al_program B) a" "pr_may (al_program B) t op s1"
    "pr_may (al_program B) u a s" "t \<noteq> u" "f \<in> set (pr_code (al_program B) op)" "f (s, v) = Some (s', v')"
  show "pr_may (al_program B) u a s'"
  proof (cases "\<exists>junk mem n. op = AlAppend junk mem n")
    case True
    then have "al_pc s' = al_pc s" using h(6,7) append_frontstage frontstage_pc by fastforce
    then show ?thesis using not_al_locked[of a] h(2,4) by auto
  next
    case False
    then have op: "op = AlLock \<or> op = AlWoken" using h(1) by (cases op) simp_all
    then have "a = AlStart \<or> a = AlStop" using not_al_locked[of a] h(2-5) by auto
    moreover have "al_pc s' = al_pc s \<or> al_pc s \<in> {Locking, Waiting} \<and> al_pc s' \<in> {Waiting, Writing}"
      using exchange_pc[of f s v s' v'] h(7) op h(6) by (auto simp del: al_code.simps)
    ultimately show ?thesis using h(4) by auto
  qed
qed

section \<open>Every interleaving is a run of the atomic steps\<close>

text \<open>The event of the atomic model that an operation is.  A section of the logging thread needs no memory and no
  clock.\<close>

fun al_event :: "al_op \<Rightarrow> async_event" where
  "al_event (AlAppend junk mem n) = EvAppend junk mem n"
| "al_event AlLock = EvBackend junk_buffer junk_buffer (0, 0)"
| "al_event AlWoken = EvBackend junk_buffer junk_buffer (0, 0)"
| "al_event (AlBackend junk1 junk2 tv) = EvBackend junk1 junk2 tv"
| "al_event AlStart = EvStart"
| "al_event AlStop = EvStop"

lemma al_effect_step:
  assumes "al_may B t op s" "async_inv s"
  shows "\<exists>s'. al_effect op s = Some s' \<and> async_step s (al_event op) s'"
proof (cases op)
  case (AlAppend junk mem n)
  then have h: "length junk = kLargeBuffer" "c_strlen mem = Some n" "n < 2 ^ 31" using assms(1) by simp_all
  obtain s' where "async_append junk mem (int n) s = Some s'" using async_append_ok[OF assms(2) h] by blast
  then show ?thesis using AlAppend async_step.append[OF h(1,2) order_refl h(3)] by simp
next
  case AlLock
  then have "backend_step junk_buffer junk_buffer (0, 0) s = al_effect op s" "al_pc s = Locking"
    using assms(1) by (simp_all add: backend_step_def)
  then show ?thesis using AlLock async_step.backend[OF length_junk_buffer length_junk_buffer] by simp
next
  case AlWoken
  then have "backend_step junk_buffer junk_buffer (0, 0) s = al_effect op s" "al_pc s = Waiting"
    using assms(1) by (simp_all add: backend_step_def)
  then show ?thesis using AlWoken async_step.backend[OF length_junk_buffer length_junk_buffer] by simp
next
  case (AlBackend junk1 junk2 tv)
  then have h: "length junk1 = kLargeBuffer" "length junk2 = kLargeBuffer" "al_pc s \<notin> {Unborn, Finished}"
    "al_effect op s = backend_step junk1 junk2 tv s"
    using assms(1) by (auto simp: backend_outside_def)
  obtain s' where "backend_step junk1 junk2 tv s = Some s'" using backend_step_ok[OF assms(2) h(3,1,2)] by blast
  then show ?thesis using AlBackend async_step.backend[OF h(1,2)] h(4) by simp
next
  case AlStart
  then show ?thesis using assms(1) async_step.start[of s] by (simp add: start_once_def)
next
  case AlStop
  then show ?thesis using assms(1) async_step.stop[of s] by (simp add: stop_started_def)
qed

lemma serial_async_run:
  assumes "serial (al_program B) al_effect s0 log x" "async_inv s0"
  shows "\<exists>s. x = Some s \<and> async_run s0 (map (\<lambda>e. al_event (snd e)) log) s"
  using assms
proof (induction rule: serial.induct)
  case nil
  then show ?case by (simp add: async_run.run_nil)
next
  case (snoc log d t op)
  then have r: "async_run s0 (map (\<lambda>e. al_event (snd e)) log) d" by simp
  from al_effect_step[of B t op d] snoc.hyps(2) async_run_inv[OF r snoc.prems] obtain s' where
    "al_effect op d = Some s'" "async_step d (al_event op) s'" by auto
  then show ?case using async_run.run_snoc[OF r] by simp
qed

text \<open>The messages the threads have passed to \<open>append\<close>, in the order in which they acquired the mutex.\<close>

fun al_text :: "al_op \<Rightarrow> bytes" where
  "al_text (AlAppend junk mem n) = accepted mem n"
| "al_text _ = []"

lemma accepted_by_event: "accepted_by (al_event op) = al_text op"
  by (cases op) simp_all

lemma threads_run:
  assumes "world_ok w" "length j1 = kLargeBuffer" "length j2 = kLargeBuffer"
    "monitor_reachable (al_program B) (AsyncLogging_new basename rollSize flushInterval j1 j2 w) m"
  shows "mon_data m \<noteq> None"
    and "(\<And>t. sys_pc (mon_sys m) t \<noteq> Inside) \<Longrightarrow> \<exists>s. mon_data m = Some s
      \<and> async_run (AsyncLogging_new basename rollSize flushInterval j1 j2 w) (map (\<lambda>e. al_event (snd e)) (mon_log m)) s"
proof -
  note inv = async_new_inv(1)[OF assms(1-3)]
  have alive: "\<not> serial (al_program B) al_effect (AsyncLogging_new basename rollSize flushInterval j1 j2 w) log None" for log
    using serial_async_run[OF _ inv] by blast
  show "mon_data m \<noteq> None" by (rule al.never_dies[OF assms(4) alive])
  show "\<exists>s. mon_data m = Some s
      \<and> async_run (AsyncLogging_new basename rollSize flushInterval j1 j2 w) (map (\<lambda>e. al_event (snd e)) (mon_log m)) s"
    if "\<And>t. sys_pc (mon_sys m) t \<noteq> Inside"
    using serial_async_run[OF al.between_sections[OF assms(4) alive] inv] that by (simp add: in_section_def)
qed

text \<open>C2: The asynchronous logger, statement by statement.  However the statements of \<open>append\<close>, called by any number
  of threads, the statements of the exchange, the logging thread's work outside the mutex, \<open>start\<close> and \<open>stop\<close> are
  interleaved, no assertion fails and no null buffer is followed.  Whenever no thread is in a critical section, the
  interleaving has the effect of a run of the whole operations, one after the other in the order in which their
  threads acquired the mutex; and unless a drop has been reported, what the log file has received followed by what
  the buffers hold is the sequence of the accepted messages in that order.\<close>

theorem async_threads_order:
  assumes "world_ok w" "length j1 = kLargeBuffer" "length j2 = kLargeBuffer"
    "monitor_reachable (al_program B) (AsyncLogging_new basename rollSize flushInterval j1 j2 w) m"
  shows "mon_data m \<noteq> None
    \<and> ((\<forall>t. sys_pc (mon_sys m) t \<noteq> Inside) \<longrightarrow> (\<exists>s. mon_data m = Some s
        \<and> async_run (AsyncLogging_new basename rollSize flushInterval j1 j2 w) (map (\<lambda>e. al_event (snd e)) (mon_log m)) s
        \<and> (al_stderr s = [] \<longrightarrow> written s @ pending s = concat (map (\<lambda>e. al_text (snd e)) (mon_log m)))))"
proof -
  have order: "written s @ pending s = concat (map (\<lambda>e. al_text (snd e)) (mon_log m))"
    if "async_run (AsyncLogging_new basename rollSize flushInterval j1 j2 w) (map (\<lambda>e. al_event (snd e)) (mon_log m)) s"
      "al_stderr s = []" for s
    using async_run_text[OF that(1) async_new_inv[OF assms(1-3)] that(2)]
    by (simp add: accepted_by_event comp_def)
  show ?thesis using threads_run[OF assms] order by blast
qed

text \<open>Two threads append, the second one while the logging thread has entered its loop.\<close>

theorem async_threads_order_witness:
  "\<exists>m s. monitor_reachable (al_program 1) demo_logger m \<and> mon_data m = Some s
    \<and> map fst (mon_log m) = [2, 3, 1, 2] \<and> async_run demo_logger (map (\<lambda>e. al_event (snd e)) (mon_log m)) s
    \<and> written s @ pending s = ''hello'' @ ''hello''"
proof -
  let ?app = "AlAppend junk_buffer (c_string ''hello'') 5"
  let ?round = "AlBackend junk_buffer junk_buffer (0, 0)"
  let ?log = "[(2, AlStart), (3, ?app), (1, ?round), (2, ?app)]"
  let ?ser = "serial (al_program 1) al_effect demo_logger"
  have new: "AsyncLogging_new ''log'' 500 3 junk_buffer junk_buffer demo_world = demo_logger" by (simp add: demo_logger_def)
  have len: "c_strlen (c_string ''hello'') = Some 5" by (simp add: c_string_def)
  have acc: "accepted (c_string ''hello'') 5 = ''hello''" using accepted_hello by (simp add: ev_hello_def)
  let ?s1 = "async_start demo_logger"
  have "al_effect AlStart demo_logger = Some ?s1" "al_may 1 2 AlStart demo_logger"
    using demo_logger_inv by (simp_all add: start_once_def)
  then have r1: "?ser [(2, AlStart)] (Some ?s1)" using serial.snoc[OF serial.nil, of "al_program 1" 2 AlStart demo_logger al_effect] by simp
  have i1: "async_inv ?s1"
    by (rule async_step_inv[OF async_step.start demo_logger_inv(1)]) (rule demo_logger_inv)
  have p1: "al_pc ?s1 = Starting" "al_stderr ?s1 = []" using demo_logger_inv by (simp_all add: async_start_def)
  obtain s2 where s2: "async_append junk_buffer (c_string ''hello'') (int 5) ?s1 = Some s2" "async_inv s2" "same_back ?s1 s2"
    using async_append_ok[OF i1 length_junk_buffer len] by auto
  have r2: "?ser [(2, AlStart), (3, ?app)] (Some s2)"
    using serial.snoc[OF r1, of 3 ?app] s2(1) len by simp
  have p2: "al_pc s2 = Starting" "al_stderr s2 = []" using s2(3) p1 by (simp_all add: same_back_def)
  obtain s3 where s3: "backend_step junk_buffer junk_buffer (0, 0) s2 = Some s3" "async_inv s3" "al_stderr s3 = []"
    using backend_step_ok[OF s2(2) _ length_junk_buffer length_junk_buffer, of "(0, 0)"] p2 by auto
  have r3: "?ser [(2, AlStart), (3, ?app), (1, ?round)] (Some s3)"
    using serial.snoc[OF r2, of 1 ?round] s3(1) p2 by (simp add: backend_outside_def)
  obtain s4 where s4: "async_append junk_buffer (c_string ''hello'') (int 5) s3 = Some s4" "same_back s3 s4"
    using async_append_ok[OF s3(2) length_junk_buffer len] by auto
  have r4: "?ser ?log (Some s4)"
    using serial.snoc[OF r3, of 2 ?app] s4(1) len by simp
  obtain m where m: "monitor_reachable (al_program 1) demo_logger m" "mon_log m = ?log" "mutex_idle (mon_sys m)" "mon_data m = Some s4"
    using al.realises[OF r4] by auto
  have "al_stderr s4 = []" using s4(2) s3(3) by (simp add: same_back_def)
  with async_threads_order[OF demo_world_ok length_junk_buffer length_junk_buffer, of 1 "''log''" 500 3 m, unfolded new] m
  have "async_run demo_logger (map (\<lambda>e. al_event (snd e)) (mon_log m)) s4" "written s4 @ pending s4 = ''hello'' @ ''hello''"
    by (simp_all add: mutex_idle_def acc)
  then show ?thesis using m(1,2,4) by (intro exI[of _ m] exI[of _ s4]) simp
qed

end
