(* ===== verification/Singletons.thy ===== *)
theory Singletons
  imports Prelude
begin

text \<open>The objects that exist once (Singleton.h), once per thread (ThreadLocalSingleton.h), and once per thread and
  variable (ThreadLocal.h).  Objects are numbered in the order of their creation; \<open>live\<close> are those created
  and not yet deleted.  \<open>pthread_once\<close>, the thread-specific data of a key and the destructors that run at
  the end of a thread behave as POSIX says.  A failed assertion and a double delete are \<open>None\<close>.\<close>

section \<open>Singleton\<close>

datatype once_state = Once_init | Once_running nat | Once_done

text \<open>Where a caller of \<open>instance\<close> stands: before \<open>pthread_once\<close>, inside \<open>init\<close> (before and after
  \<open>value_ = new T()\<close>), behind \<open>pthread_once\<close>, returned with an object.\<close>

datatype singleton_pc = At_once | In_init | Init_stored | Behind_once | Returned nat

record singleton =
  sg_once :: once_state
  sg_value :: "nat option"
  sg_next :: nat
  sg_live :: "nat list"
  sg_atexit :: nat
  sg_pc :: "nat \<Rightarrow> singleton_pc"

definition singleton_new :: singleton where
  "singleton_new = \<lparr>sg_once = Once_init, sg_value = None, sg_next = 0, sg_live = [], sg_atexit = 0, sg_pc = (\<lambda>_. At_once)\<rparr>"

text \<open>The two halves of \<open>init\<close>, and the end of \<open>instance\<close>.\<close>

definition singleton_init :: "nat \<Rightarrow> singleton \<Rightarrow> singleton option" where
  "singleton_init t s =
     (if sg_value s \<noteq> None then None
      else Some (s\<lparr>sg_value := Some (sg_next s), sg_next := Suc (sg_next s), sg_live := sg_live s @ [sg_next s],
                   sg_pc := (sg_pc s)(t := Init_stored)\<rparr>))"

definition singleton_register :: "nat \<Rightarrow> singleton \<Rightarrow> singleton" where
  "singleton_register t s =
     s\<lparr>sg_atexit := Suc (sg_atexit s), sg_once := Once_done, sg_pc := (sg_pc s)(t := Behind_once)\<rparr>"

definition singleton_return :: "nat \<Rightarrow> singleton \<Rightarrow> singleton option" where
  "singleton_return t s =
     (case sg_value s of None \<Rightarrow> None | Some v \<Rightarrow> Some (s\<lparr>sg_pc := (sg_pc s)(t := Returned v)\<rparr>))"

text \<open>\<open>destory\<close>, which \<open>exit\<close> calls as often as it was registered; \<open>delete\<close> of a null pointer does nothing.\<close>

definition singleton_destory :: "singleton \<Rightarrow> singleton option" where
  "singleton_destory s =
     (case sg_value s of
        None \<Rightarrow> Some s
      | Some v \<Rightarrow> if v \<in> set (sg_live s) then Some (s\<lparr>sg_live := remove1 v (sg_live s), sg_value := None\<rparr>) else None)"

text \<open>The callers interleave freely.  \<open>pthread_once\<close> lets the first one into \<open>init\<close>, makes the others wait while
  it runs, and lets everybody pass when it is done; a caller may come back.\<close>

inductive singleton_step :: "singleton \<Rightarrow> singleton \<Rightarrow> bool" where
  enter: "sg_pc s t = At_once \<Longrightarrow> sg_once s = Once_init \<Longrightarrow>
    singleton_step s (s\<lparr>sg_once := Once_running t, sg_pc := (sg_pc s)(t := In_init)\<rparr>)"
| init: "sg_pc s t = In_init \<Longrightarrow> singleton_init t s = Some s' \<Longrightarrow> singleton_step s s'"
| register: "sg_pc s t = Init_stored \<Longrightarrow> singleton_step s (singleton_register t s)"
| pass: "sg_pc s t = At_once \<Longrightarrow> sg_once s = Once_done \<Longrightarrow>
    singleton_step s (s\<lparr>sg_pc := (sg_pc s)(t := Behind_once)\<rparr>)"
| return: "sg_pc s t = Behind_once \<Longrightarrow> singleton_return t s = Some s' \<Longrightarrow> singleton_step s s'"
| again: "sg_pc s t = Returned v \<Longrightarrow> singleton_step s (s\<lparr>sg_pc := (sg_pc s)(t := At_once)\<rparr>)"

inductive singleton_reachable :: "singleton \<Rightarrow> bool" where
  start: "singleton_reachable singleton_new"
| step: "singleton_reachable s \<Longrightarrow> singleton_step s s' \<Longrightarrow> singleton_reachable s'"

definition singleton_inv :: "singleton \<Rightarrow> bool" where
  "singleton_inv s \<longleftrightarrow>
     (case sg_once s of
        Once_init \<Rightarrow> sg_value s = None \<and> sg_next s = 0 \<and> sg_live s = [] \<and> sg_atexit s = 0 \<and> (\<forall>t. sg_pc s t = At_once)
      | Once_running t \<Rightarrow> sg_atexit s = 0 \<and> (\<forall>u. u \<noteq> t \<longrightarrow> sg_pc s u = At_once)
          \<and> (sg_pc s t = In_init \<and> sg_value s = None \<and> sg_next s = 0 \<and> sg_live s = []
             \<or> sg_pc s t = Init_stored \<and> sg_value s = Some 0 \<and> sg_next s = 1 \<and> sg_live s = [0])
      | Once_done \<Rightarrow> sg_value s = Some 0 \<and> sg_next s = 1 \<and> sg_live s = [0] \<and> sg_atexit s = 1
          \<and> (\<forall>t. sg_pc s t \<in> {At_once, Behind_once, Returned 0}))"

lemma singleton_inside:
  assumes "singleton_inv s" and "sg_pc s t = In_init \<or> sg_pc s t = Init_stored"
  shows "sg_once s = Once_running t"
proof (cases "sg_once s")
  case (Once_running u)
  then have "u \<noteq> t \<Longrightarrow> sg_pc s t = At_once" using assms(1) by (auto simp: singleton_inv_def)
  then show ?thesis using assms(2) Once_running by (cases "u = t") auto
next
  case Once_done
  then have "sg_pc s t \<in> {At_once, Behind_once, Returned 0}" using assms(1) by (simp add: singleton_inv_def)
  then show ?thesis using assms(2) by auto
qed (use assms in \<open>simp add: singleton_inv_def\<close>)

lemma singleton_passed:
  assumes "singleton_inv s" and "sg_pc s t = Behind_once \<or> sg_pc s t = Returned v"
  shows "sg_once s = Once_done"
proof (cases "sg_once s")
  case (Once_running u)
  then have "u \<noteq> t \<Longrightarrow> sg_pc s t = At_once" "sg_pc s u = In_init \<or> sg_pc s u = Init_stored"
    using assms(1) by (auto simp: singleton_inv_def)
  then show ?thesis using assms(2) by (cases "u = t") auto
qed (use assms in \<open>auto simp: singleton_inv_def\<close>)

lemma singleton_step_inv:
  assumes "singleton_step s s'" and "singleton_inv s"
  shows "singleton_inv s'"
  using assms
proof cases
  case (init t)
  then have "sg_once s = Once_running t" using singleton_inside [OF assms(2)] by blast
  then show ?thesis using assms(2) init by (auto simp: singleton_inv_def singleton_init_def)
next
  case (register t)
  then have "sg_once s = Once_running t" using singleton_inside [OF assms(2)] by blast
  then show ?thesis using assms(2) register by (auto simp: singleton_inv_def singleton_register_def)
next
  case (return t)
  then have "sg_once s = Once_done" using singleton_passed [OF assms(2)] by blast
  then show ?thesis using assms(2) return by (auto simp: singleton_inv_def singleton_return_def)
next
  case (again t v)
  then have "sg_once s = Once_done" using singleton_passed [OF assms(2)] by blast
  then show ?thesis using assms(2) again by (auto simp: singleton_inv_def)
qed (auto simp: singleton_inv_def split: once_state.splits)

lemma singleton_reachable_inv: "singleton_reachable s \<Longrightarrow> singleton_inv s"
proof (induction rule: singleton_reachable.induct)
  case start
  show ?case by (simp add: singleton_inv_def singleton_new_def)
next
  case (step s s')
  then show ?case by (blast intro: singleton_step_inv)
qed

text \<open>C35: However the callers of \<open>Singleton::instance\<close> interleave, at most one object is created, every caller
  that returns has that object, no assertion fails (the next step of a caller inside \<open>init\<close> or behind
  \<open>pthread_once\<close> is defined), and the one registered \<open>destory\<close> deletes the object without leaving any.\<close>

theorem singleton_one_object:
  assumes "singleton_reachable s"
  shows "sg_next s \<le> 1 \<and> (\<forall>t v. sg_pc s t = Returned v \<longrightarrow> v = 0 \<and> sg_live s = [0])
    \<and> (\<forall>t. sg_pc s t = In_init \<longrightarrow> singleton_init t s \<noteq> None)
    \<and> (\<forall>t. sg_pc s t = Behind_once \<longrightarrow> singleton_return t s \<noteq> None)
    \<and> (sg_once s = Once_done \<longrightarrow> sg_atexit s = 1 \<and> (\<exists>s'. singleton_destory s = Some s' \<and> sg_live s' = []))"
proof -
  have inv: "singleton_inv s" using assms by (rule singleton_reachable_inv)
  show ?thesis
  proof (cases "sg_once s")
    case Once_init
    then show ?thesis using inv by (simp add: singleton_inv_def)
  next
    case (Once_running u)
    have "sg_pc s t = At_once \<or> t = u" for t using inv Once_running by (auto simp: singleton_inv_def)
    then show ?thesis using inv Once_running
      by (auto simp: singleton_inv_def singleton_init_def) (metis singleton_pc.distinct)+
  next
    case Once_done
    then have pc: "sg_pc s t \<in> {At_once, Behind_once, Returned 0}" for t using inv by (simp add: singleton_inv_def)
    have v: "sg_value s = Some 0" "sg_next s = 1" "sg_live s = [0]" "sg_atexit s = 1"
      using inv Once_done by (simp_all add: singleton_inv_def)
    have "sg_pc s t \<noteq> In_init" "sg_pc s t = Returned w \<Longrightarrow> w = 0" for t w using pc [of t] by auto
    then show ?thesis using v by (simp add: singleton_return_def singleton_destory_def)
  qed
qed

theorem singleton_one_object_witness:
  "\<exists>s s'. sg_pc s 1 = Returned 0 \<and> sg_pc s 2 = Behind_once \<and> sg_live s = [0] \<and> sg_next s \<le> 1
     \<and> singleton_return 2 s \<noteq> None \<and> singleton_destory s = Some s' \<and> sg_live s' = []"
proof -
  define s1 where "s1 = singleton_new\<lparr>sg_once := Once_running 1, sg_pc := (sg_pc singleton_new)(1 := In_init)\<rparr>"
  define s2 where "s2 = s1\<lparr>sg_value := Some 0, sg_next := 1, sg_live := [0], sg_pc := (sg_pc s1)(1 := Init_stored)\<rparr>"
  define s3 where "s3 = singleton_register 1 s2"
  define s4 where "s4 = s3\<lparr>sg_pc := (sg_pc s3)(2 := Behind_once)\<rparr>"
  define s5 where "s5 = s4\<lparr>sg_pc := (sg_pc s4)(1 := Returned 0)\<rparr>"
  have "singleton_reachable s1" unfolding s1_def
    by (rule singleton_reachable.step [OF singleton_reachable.start singleton_step.enter]) (simp_all add: singleton_new_def)
  moreover have "singleton_step s1 s2"
    by (rule singleton_step.init [of _ 1]) (simp_all add: s2_def s1_def singleton_init_def singleton_new_def)
  ultimately have "singleton_reachable s2" by (rule singleton_reachable.step)
  moreover have "singleton_step s2 s3" unfolding s3_def by (rule singleton_step.register) (simp add: s2_def)
  ultimately have "singleton_reachable s3" by (rule singleton_reachable.step)
  moreover have "singleton_step s3 s4" unfolding s4_def
    by (rule singleton_step.pass) (simp_all add: s3_def s2_def s1_def singleton_register_def singleton_new_def)
  ultimately have "singleton_reachable s4" by (rule singleton_reachable.step)
  moreover have "singleton_step s4 s5"
    by (rule singleton_step.return [of _ 1])
      (simp_all add: s5_def s4_def s3_def s2_def s1_def singleton_register_def singleton_return_def)
  ultimately have r: "singleton_reachable s5" by (rule singleton_reachable.step)
  have "sg_pc s5 1 = Returned 0" "sg_pc s5 2 = Behind_once" "sg_once s5 = Once_done"
    by (simp_all add: s5_def s4_def s3_def singleton_register_def)
  with singleton_one_object [OF r] show ?thesis by blast
qed

section \<open>ThreadLocalSingleton\<close>

text \<open>\<open>t_value_\<close> and the specific data of the deleter's key, per thread.\<close>

record tl_singleton =
  ts_value :: "nat \<Rightarrow> nat option"
  ts_key :: "nat \<Rightarrow> nat option"
  ts_next :: nat
  ts_live :: "nat set"

definition tl_singleton_new :: tl_singleton where
  "tl_singleton_new = \<lparr>ts_value = (\<lambda>_. None), ts_key = (\<lambda>_. None), ts_next = 0, ts_live = {}\<rparr>"

definition ts_deleter_set :: "nat \<Rightarrow> nat \<Rightarrow> tl_singleton \<Rightarrow> tl_singleton option" where
  "ts_deleter_set t newobj s =
     (if ts_key s t \<noteq> None then None else Some (s\<lparr>ts_key := (ts_key s)(t := Some newobj)\<rparr>))"

definition ts_instance :: "nat \<Rightarrow> tl_singleton \<Rightarrow> (nat \<times> tl_singleton) option" where
  "ts_instance t s =
     (case ts_value s t of
        Some v \<Rightarrow> Some (v, s)
      | None \<Rightarrow>
          (let v = ts_next s;
               s1 = s\<lparr>ts_value := (ts_value s)(t := Some v), ts_next := Suc v, ts_live := insert v (ts_live s)\<rparr>
           in map_option (\<lambda>s2. (v, s2)) (ts_deleter_set t v s1)))"

definition ts_pointer :: "nat \<Rightarrow> tl_singleton \<Rightarrow> nat option" where
  "ts_pointer t s = ts_value s t"

definition ts_destructor :: "nat \<Rightarrow> nat \<Rightarrow> tl_singleton \<Rightarrow> tl_singleton option" where
  "ts_destructor t obj s =
     (if ts_value s t = Some obj \<and> obj \<in> ts_live s
      then Some (s\<lparr>ts_live := ts_live s - {obj}, ts_value := (ts_value s)(t := None)\<rparr>) else None)"

text \<open>The end of a thread: a non-null specific value is reset and handed to the destructor of the key.\<close>

definition ts_thread_exit :: "nat \<Rightarrow> tl_singleton \<Rightarrow> tl_singleton option" where
  "ts_thread_exit t s =
     (case ts_key s t of
        None \<Rightarrow> Some s
      | Some obj \<Rightarrow> ts_destructor t obj (s\<lparr>ts_key := (ts_key s)(t := None)\<rparr>))"

section \<open>ThreadLocal\<close>

text \<open>One variable: its key (\<open>None\<close> when \<open>~ThreadLocal\<close> has deleted it) with the values of the threads.\<close>

record thread_local =
  tv_key :: "(nat \<Rightarrow> nat option) option"
  tv_next :: nat
  tv_live :: "nat set"

definition ThreadLocal_new :: thread_local where
  "ThreadLocal_new = \<lparr>tv_key = Some (\<lambda>_. None), tv_next = 0, tv_live = {}\<rparr>"

definition ThreadLocal_value :: "nat \<Rightarrow> thread_local \<Rightarrow> (nat \<times> thread_local) option" where
  "ThreadLocal_value t s =
     (case tv_key s of
        None \<Rightarrow> None
      | Some key \<Rightarrow>
          (case key t of
             Some v \<Rightarrow> Some (v, s)
           | None \<Rightarrow> Some (tv_next s, s\<lparr>tv_key := Some (key(t := Some (tv_next s))), tv_next := Suc (tv_next s),
                                        tv_live := insert (tv_next s) (tv_live s)\<rparr>)))"

definition ThreadLocal_destructor :: "nat \<Rightarrow> thread_local \<Rightarrow> thread_local option" where
  "ThreadLocal_destructor p s = (if p \<in> tv_live s then Some (s\<lparr>tv_live := tv_live s - {p}\<rparr>) else None)"

definition ThreadLocal_thread_exit :: "nat \<Rightarrow> thread_local \<Rightarrow> thread_local option" where
  "ThreadLocal_thread_exit t s =
     (case tv_key s of
        None \<Rightarrow> Some s
      | Some key \<Rightarrow>
          (case key t of
             None \<Rightarrow> Some s
           | Some p \<Rightarrow> ThreadLocal_destructor p (s\<lparr>tv_key := Some (key(t := None))\<rparr>)))"

definition ThreadLocal_destroy :: "thread_local \<Rightarrow> thread_local" where
  "ThreadLocal_destroy s = s\<lparr>tv_key := None\<rparr>"

section \<open>One object per thread\<close>

text \<open>What both classes promise: a state has a slot per thread, asking for the object fills the slot, the end
  of the thread empties it, and the live objects are those in the slots, each in one slot only.\<close>

datatype slot_op = Ask nat | Leave nat

fun slot_owners :: "slot_op \<Rightarrow> nat set \<Rightarrow> nat set" where
  "slot_owners (Ask t) A = insert t A"
| "slot_owners (Leave t) A = A - {t}"

definition slot_apply :: "(nat \<Rightarrow> 's \<Rightarrow> (nat \<times> 's) option) \<Rightarrow> (nat \<Rightarrow> 's \<Rightarrow> 's option) \<Rightarrow> slot_op \<Rightarrow> 's \<Rightarrow> 's option" where
  "slot_apply ask leave i s = (case i of Ask t \<Rightarrow> map_option snd (ask t s) | Leave t \<Rightarrow> leave t s)"

locale per_thread_object =
  fixes inv :: "'s \<Rightarrow> bool" and slot :: "'s \<Rightarrow> nat \<Rightarrow> nat option" and live :: "'s \<Rightarrow> nat set"
    and ask :: "nat \<Rightarrow> 's \<Rightarrow> (nat \<times> 's) option" and leave :: "nat \<Rightarrow> 's \<Rightarrow> 's option"
  assumes live_slots: "inv s \<Longrightarrow> live s = {v. \<exists>t. slot s t = Some v}"
    and slots_distinct: "inv s \<Longrightarrow> slot s t = Some v \<Longrightarrow> slot s u = Some v \<Longrightarrow> t = u"
    and ask_law: "inv s \<Longrightarrow> \<exists>v s'. ask t s = Some (v, s') \<and> inv s' \<and> slot s' = (slot s)(t := Some v)
        \<and> (\<forall>w. slot s t = Some w \<longrightarrow> v = w)"
    and leave_law: "inv s \<Longrightarrow> \<exists>s'. leave t s = Some s' \<and> inv s' \<and> slot s' = (slot s)(t := None)"
begin

lemma slot_apply_ok:
  assumes "inv s"
  shows "\<exists>s'. slot_apply ask leave i s = Some s' \<and> inv s' \<and> {t. slot s' t \<noteq> None} = slot_owners i {t. slot s t \<noteq> None}"
proof (cases i)
  case (Ask t)
  obtain v s' where "ask t s = Some (v, s')" "inv s'" "slot s' = (slot s)(t := Some v)"
    using ask_law [OF assms, of t] by blast
  then show ?thesis using Ask by (auto simp: slot_apply_def)
next
  case (Leave t)
  obtain s' where "leave t s = Some s'" "inv s'" "slot s' = (slot s)(t := None)"
    using leave_law [OF assms, of t] by blast
  then show ?thesis using Leave by (auto simp: slot_apply_def)
qed

lemma slots_run:
  assumes "inv s"
  shows "\<exists>s'. fold_opt (slot_apply ask leave) ops s = Some s' \<and> inv s' \<and> {t. slot s' t \<noteq> None} = fold slot_owners ops {t. slot s t \<noteq> None}"
  using assms
proof (induction ops arbitrary: s)
  case Nil
  then show ?case by simp
next
  case (Cons i ops)
  obtain s1 where s1: "slot_apply ask leave i s = Some s1" "inv s1" "{t. slot s1 t \<noteq> None} = slot_owners i {t. slot s t \<noteq> None}"
    using slot_apply_ok [OF Cons.prems] by blast
  from Cons.IH [OF s1(2)] s1 show ?case by simp
qed

lemma no_leak: "inv s \<Longrightarrow> {t. slot s t \<noteq> None} = {} \<Longrightarrow> live s = {}"
  by (auto simp: live_slots)

end

text \<open>The invariant of both: \<open>m\<close> are the slots, \<open>L\<close> the live objects, \<open>n\<close> the next number.\<close>

definition slots_ok :: "(nat \<Rightarrow> nat option) \<Rightarrow> nat set \<Rightarrow> nat \<Rightarrow> bool" where
  "slots_ok m L n \<longleftrightarrow> L = {v. \<exists>t. m t = Some v} \<and> (\<forall>v\<in>L. v < n) \<and> (\<forall>t u v. m t = Some v \<longrightarrow> m u = Some v \<longrightarrow> t = u)"

lemma slots_ok_empty: "slots_ok (\<lambda>_. None) {} 0"
  by (simp add: slots_ok_def)

lemma slots_ok_fill:
  assumes "slots_ok m L n" and "m t = None"
  shows "slots_ok (m(t := Some n)) (insert n L) (Suc n)"
proof -
  have L: "L = {v. \<exists>t. m t = Some v}" and lt: "\<forall>v\<in>L. v < n"
    and inj: "\<And>t u v. m t = Some v \<Longrightarrow> m u = Some v \<Longrightarrow> t = u" using assms(1) by (auto simp: slots_ok_def)
  have fresh: "m u \<noteq> Some n" for u using L lt by auto
  have "insert n L = {v. \<exists>u. (m(t := Some n)) u = Some v}"
    using ran_map_upd [of m t n] assms(2) by (simp add: L ran_def)
  moreover have "\<forall>v\<in>insert n L. v < Suc n" using lt by auto
  ultimately show ?thesis using fresh inj unfolding slots_ok_def by (auto split: if_splits)
qed

lemma slots_ok_clear:
  assumes "slots_ok m L n" and "m t = Some v"
  shows "slots_ok (m(t := None)) (L - {v}) n"
proof -
  have L: "L = {v. \<exists>t. m t = Some v}" and lt: "\<forall>v\<in>L. v < n"
    and inj: "\<And>t u v. m t = Some v \<Longrightarrow> m u = Some v \<Longrightarrow> t = u" using assms(1) by (auto simp: slots_ok_def)
  have "L - {v} = {w. \<exists>u. (m(t := None)) u = Some w}"
  proof (rule set_eqI)
    fix w
    have "m u = Some w \<and> w \<noteq> v \<longleftrightarrow> (m(t := None)) u = Some w" for u
      using assms(2) inj [of u v t] by (cases "u = t") auto
    then show "w \<in> L - {v} \<longleftrightarrow> w \<in> {w. \<exists>u. (m(t := None)) u = Some w}" unfolding L by blast
  qed
  then show ?thesis using lt inj unfolding slots_ok_def by (auto split: if_splits)
qed

definition ts_inv :: "tl_singleton \<Rightarrow> bool" where
  "ts_inv s \<longleftrightarrow> ts_key s = ts_value s \<and> slots_ok (ts_value s) (ts_live s) (ts_next s)"

lemma ts_inv_new: "ts_inv tl_singleton_new"
  by (simp add: ts_inv_def tl_singleton_new_def slots_ok_empty)

lemma ts_ask:
  assumes "ts_inv s"
  shows "\<exists>v s'. ts_instance t s = Some (v, s') \<and> ts_inv s' \<and> ts_value s' = (ts_value s)(t := Some v)
    \<and> (\<forall>w. ts_value s t = Some w \<longrightarrow> v = w)"
proof (cases "ts_value s t")
  case None
  then show ?thesis using assms
    by (auto simp: ts_instance_def Let_def ts_deleter_set_def ts_inv_def slots_ok_fill)
next
  case (Some v)
  then show ?thesis using assms by (auto simp: ts_instance_def fun_upd_idem)
qed

lemma ts_leave:
  assumes "ts_inv s"
  shows "\<exists>s'. ts_thread_exit t s = Some s' \<and> ts_inv s' \<and> ts_value s' = (ts_value s)(t := None)"
proof (cases "ts_value s t")
  case None
  then show ?thesis using assms by (auto simp: ts_thread_exit_def ts_inv_def fun_upd_idem)
next
  case (Some v)
  then have "v \<in> ts_live s" using assms by (auto simp: ts_inv_def slots_ok_def)
  then show ?thesis using assms Some
    by (auto simp: ts_thread_exit_def ts_destructor_def ts_inv_def slots_ok_clear)
qed

interpretation ts: per_thread_object ts_inv ts_value ts_live ts_instance ts_thread_exit
proof unfold_locales
  fix s t u v
  assume "ts_inv s"
  then show "ts_live s = {v. \<exists>t. ts_value s t = Some v}"
    "ts_value s t = Some v \<Longrightarrow> ts_value s u = Some v \<Longrightarrow> t = u"
    by (simp_all add: ts_inv_def slots_ok_def)
qed (fact ts_ask ts_leave)+

definition tv_slot :: "thread_local \<Rightarrow> nat \<Rightarrow> nat option" where
  "tv_slot s = (case tv_key s of None \<Rightarrow> (\<lambda>_. None) | Some key \<Rightarrow> key)"

definition tv_inv :: "thread_local \<Rightarrow> bool" where
  "tv_inv s \<longleftrightarrow> tv_key s \<noteq> None \<and> slots_ok (tv_slot s) (tv_live s) (tv_next s)"

lemma tv_inv_new: "tv_inv ThreadLocal_new"
  by (simp add: tv_inv_def ThreadLocal_new_def tv_slot_def slots_ok_empty)

lemma tv_ask:
  assumes "tv_inv s"
  shows "\<exists>v s'. ThreadLocal_value t s = Some (v, s') \<and> tv_inv s' \<and> tv_slot s' = (tv_slot s)(t := Some v)
    \<and> (\<forall>w. tv_slot s t = Some w \<longrightarrow> v = w)"
proof -
  obtain key where k: "tv_key s = Some key" "tv_slot s = key" "slots_ok key (tv_live s) (tv_next s)"
    using assms by (auto simp: tv_inv_def tv_slot_def)
  show ?thesis
  proof (cases "key t")
    case None
    then show ?thesis using slots_ok_fill [OF k(3) None] k(1,2)
      by (auto simp: ThreadLocal_value_def tv_inv_def tv_slot_def)
  next
    case (Some v)
    then show ?thesis using assms k(1,2) by (auto simp: ThreadLocal_value_def fun_upd_idem)
  qed
qed

lemma tv_leave:
  assumes "tv_inv s"
  shows "\<exists>s'. ThreadLocal_thread_exit t s = Some s' \<and> tv_inv s' \<and> tv_slot s' = (tv_slot s)(t := None)"
proof -
  obtain key where k: "tv_key s = Some key" "tv_slot s = key" "slots_ok key (tv_live s) (tv_next s)"
    using assms by (auto simp: tv_inv_def tv_slot_def)
  show ?thesis
  proof (cases "key t")
    case None
    then show ?thesis using assms k(1,2) by (auto simp: ThreadLocal_thread_exit_def fun_upd_idem)
  next
    case (Some v)
    then have "v \<in> tv_live s" using k(3) by (auto simp: slots_ok_def)
    then show ?thesis using slots_ok_clear [OF k(3) Some] Some k(1,2)
      by (auto simp: ThreadLocal_thread_exit_def ThreadLocal_destructor_def tv_inv_def tv_slot_def)
  qed
qed

interpretation tv: per_thread_object tv_inv tv_slot tv_live ThreadLocal_value ThreadLocal_thread_exit
proof unfold_locales
  fix s t u v
  assume "tv_inv s"
  then show "tv_live s = {v. \<exists>t. tv_slot s t = Some v}"
    "tv_slot s t = Some v \<Longrightarrow> tv_slot s u = Some v \<Longrightarrow> t = u"
    by (simp_all add: tv_inv_def slots_ok_def)
qed (fact tv_ask tv_leave)+

text \<open>\<open>ThreadLocalSingleton\<close>: whatever the threads do, in any order, no assertion fails and nothing is deleted
  twice; a thread owns an object exactly if it has asked for one since it last ended, the live objects are
  exactly the owned ones, no object has two owners, and when every owner has ended nothing is left.\<close>

theorem thread_local_singleton_objects:
  "\<exists>s. fold_opt (slot_apply ts_instance ts_thread_exit) ops tl_singleton_new = Some s
     \<and> {t. ts_pointer t s \<noteq> None} = fold slot_owners ops {}
     \<and> ts_live s = {v. \<exists>t. ts_pointer t s = Some v}
     \<and> (\<forall>t u v. ts_pointer t s = Some v \<longrightarrow> ts_pointer u s = Some v \<longrightarrow> t = u)
     \<and> (fold slot_owners ops {} = {} \<longrightarrow> ts_live s = {})"
proof -
  have "{t. ts_value tl_singleton_new t \<noteq> None} = {}" by (simp add: tl_singleton_new_def)
  then obtain s where s: "fold_opt (slot_apply ts_instance ts_thread_exit) ops tl_singleton_new = Some s" "ts_inv s"
      "{t. ts_value s t \<noteq> None} = fold slot_owners ops {}"
    using ts.slots_run [OF ts_inv_new, of ops] by auto
  show ?thesis
    using s ts.live_slots [OF s(2)] ts.slots_distinct [OF s(2)] ts.no_leak [OF s(2)]
    by (intro exI [of _ s]) (simp add: ts_pointer_def)
qed

theorem thread_local_singleton_objects_witness:
  "\<exists>s s'. fold_opt (slot_apply ts_instance ts_thread_exit) [Ask 1, Ask 2, Ask 1, Leave 1] tl_singleton_new = Some s
     \<and> {t. ts_pointer t s \<noteq> None} = {2}
     \<and> fold_opt (slot_apply ts_instance ts_thread_exit) [Ask 1, Ask 2, Leave 1, Ask 2, Leave 2] tl_singleton_new = Some s'
     \<and> ts_live s' = {}"
proof -
  have "fold slot_owners [Ask 1, Ask 2, Ask 1, Leave 1] {} = {2}"
    and "fold slot_owners [Ask 1, Ask 2, Leave 1, Ask 2, Leave 2] {} = {}"
    by auto
  with thread_local_singleton_objects [of "[Ask 1, Ask 2, Ask 1, Leave 1]"]
    thread_local_singleton_objects [of "[Ask 1, Ask 2, Leave 1, Ask 2, Leave 2]"]
  show ?thesis by metis
qed

text \<open>\<open>ThreadLocal\<close> keeps the same promise only until it is destroyed: \<open>~ThreadLocal\<close> deletes the key, after
  which the end of a thread finds nothing to delete, so every object that was still owned at that moment
  is never freed.\<close>

theorem thread_local_leak:
  "\<exists>s. fold_opt (slot_apply ThreadLocal_value ThreadLocal_thread_exit) ops ThreadLocal_new = Some s \<and> card (tv_live s) = card (fold slot_owners ops {})
     \<and> (\<exists>s'. fold_opt ThreadLocal_thread_exit ts (ThreadLocal_destroy s) = Some s' \<and> tv_live s' = tv_live s)"
proof -
  have "{t. tv_slot ThreadLocal_new t \<noteq> None} = {}" by (simp add: tv_slot_def ThreadLocal_new_def)
  then obtain s where s: "fold_opt (slot_apply ThreadLocal_value ThreadLocal_thread_exit) ops ThreadLocal_new = Some s" "tv_inv s"
      "{t. tv_slot s t \<noteq> None} = fold slot_owners ops {}"
    using tv.slots_run [OF tv_inv_new, of ops] by auto
  have "inj_on (\<lambda>t. the (tv_slot s t)) {t. tv_slot s t \<noteq> None}"
    using tv.slots_distinct [OF s(2)] by (auto intro!: inj_onI)
  moreover have "(\<lambda>t. the (tv_slot s t)) ` {t. tv_slot s t \<noteq> None} = tv_live s"
    unfolding tv.live_slots [OF s(2)] by (auto simp: image_iff) (metis option.sel option.distinct(1))
  ultimately have "bij_betw (\<lambda>t. the (tv_slot s t)) {t. tv_slot s t \<noteq> None} (tv_live s)"
    by (simp add: bij_betw_def)
  then have "card (tv_live s) = card (fold slot_owners ops {})" unfolding s(3) by (simp add: bij_betw_same_card)
  moreover have "fold_opt ThreadLocal_thread_exit ts (ThreadLocal_destroy s) = Some (ThreadLocal_destroy s)"
    by (induction ts) (simp_all add: ThreadLocal_thread_exit_def ThreadLocal_destroy_def)
  ultimately show ?thesis using s(1) by (auto simp: ThreadLocal_destroy_def)
qed

end
