(* ===== verification/ObjectTests.thy ===== *)
theory ObjectTests
  imports Singletons
begin

text \<open>Singleton\_test.cc, ThreadLocal\_test.cc and ThreadLocalSingleton\_test.cc: programs whose threads give names to
  the objects of the theory Singletons and print them.  The threads of the last two interleave freely between
  their statements; a locale extends \<open>per_thread_object\<close> with the proof that each thread sees what it would
  see alone, and both classes interpret it.\<close>

section \<open>Programs over objects with names\<close>

text \<open>The statements of the tests' threads; \<open>nat\<close> is the variable (\<open>testObj1\<close>, \<open>testObj2\<close>) or the thread.\<close>

datatype obj_stmt = SetName nat bytes | PrintName nat | StartThread nat | JoinThread nat

text \<open>What the class \<open>Test\<close> and the threads print: thread, variable, object, name.\<close>

datatype obj_line = Constructing nat nat nat | Named nat nat nat bytes | Destructing nat nat nat bytes

datatype obj_phase = Th_new | Th_running | Th_exiting | Th_ended

record 's objects =
  ob_vars :: "nat \<Rightarrow> 's"
  ob_name :: "nat \<Rightarrow> nat \<Rightarrow> bytes"
  ob_code :: "nat \<Rightarrow> obj_stmt list"
  ob_phase :: "nat \<Rightarrow> obj_phase"
  ob_lines :: "obj_line list"

text \<open>The object of thread \<open>t\<close> in variable \<open>v\<close>.  The constructor of \<open>Test\<close> prints and leaves the name empty.\<close>

definition ob_get ::
  "('s \<Rightarrow> nat \<Rightarrow> nat option) \<Rightarrow> (nat \<Rightarrow> 's \<Rightarrow> (nat \<times> 's) option) \<Rightarrow> nat \<Rightarrow> nat \<Rightarrow> 's objects \<Rightarrow> (nat \<times> 's objects) option" where
  "ob_get slot ask t v s =
     (case ask t (ob_vars s v) of
        None \<Rightarrow> None
      | Some (obj, x) \<Rightarrow>
          (let s1 = s\<lparr>ob_vars := (ob_vars s)(v := x)\<rparr> in
           Some (obj, if slot (ob_vars s v) t = None
                      then s1\<lparr>ob_name := (ob_name s)(v := (ob_name s v)(obj := [])), ob_lines := ob_lines s @ [Constructing t v obj]\<rparr>
                      else s1)))"

definition ob_exec ::
  "('s \<Rightarrow> nat \<Rightarrow> nat option) \<Rightarrow> (nat \<Rightarrow> 's \<Rightarrow> (nat \<times> 's) option) \<Rightarrow> nat \<Rightarrow> obj_stmt \<Rightarrow> 's objects \<Rightarrow> 's objects option" where
  "ob_exec slot ask t c s =
     (case c of
        SetName v n \<Rightarrow>
          map_option (\<lambda>(obj, s1). s1\<lparr>ob_name := (ob_name s1)(v := (ob_name s1 v)(obj := n))\<rparr>) (ob_get slot ask t v s)
      | PrintName v \<Rightarrow>
          map_option (\<lambda>(obj, s1). s1\<lparr>ob_lines := ob_lines s1 @ [Named t v obj (ob_name s1 v obj)]\<rparr>) (ob_get slot ask t v s)
      | StartThread u \<Rightarrow> if ob_phase s u = Th_new then Some (s\<lparr>ob_phase := (ob_phase s)(u := Th_running)\<rparr>) else None
      | JoinThread u \<Rightarrow> Some s)"

text \<open>\<open>join\<close> waits for the thread to end.\<close>

fun ob_waits :: "'s objects \<Rightarrow> obj_stmt \<Rightarrow> bool" where
  "ob_waits s (JoinThread u) \<longleftrightarrow> ob_phase s u \<noteq> Th_ended"
| "ob_waits s c \<longleftrightarrow> False"

text \<open>A thread at the end of its function (the main thread calls \<open>pthread_exit\<close>) has its objects in the \<open>n\<close>
  variables destroyed, in any order.\<close>

inductive ob_step ::
  "('s \<Rightarrow> nat \<Rightarrow> nat option) \<Rightarrow> (nat \<Rightarrow> 's \<Rightarrow> (nat \<times> 's) option) \<Rightarrow> (nat \<Rightarrow> 's \<Rightarrow> 's option) \<Rightarrow> nat
     \<Rightarrow> 's objects \<Rightarrow> 's objects \<Rightarrow> bool"
  for slot ask leave n where
  exec: "ob_phase s t = Th_running \<Longrightarrow> ob_code s t = c # cs \<Longrightarrow> \<not> ob_waits s c
    \<Longrightarrow> ob_exec slot ask t c (s\<lparr>ob_code := (ob_code s)(t := cs)\<rparr>) = Some s' \<Longrightarrow> ob_step slot ask leave n s s'"
| exits: "ob_phase s t = Th_running \<Longrightarrow> ob_code s t = []
    \<Longrightarrow> ob_step slot ask leave n s (s\<lparr>ob_phase := (ob_phase s)(t := Th_exiting)\<rparr>)"
| destroy: "ob_phase s t = Th_exiting \<Longrightarrow> v < n \<Longrightarrow> slot (ob_vars s v) t = Some obj \<Longrightarrow> leave t (ob_vars s v) = Some x
    \<Longrightarrow> ob_step slot ask leave n s
          (s\<lparr>ob_vars := (ob_vars s)(v := x), ob_lines := ob_lines s @ [Destructing t v obj (ob_name s v obj)]\<rparr>)"
| ended: "ob_phase s t = Th_exiting \<Longrightarrow> (\<And>v. v < n \<Longrightarrow> slot (ob_vars s v) t = None)
    \<Longrightarrow> ob_step slot ask leave n s (s\<lparr>ob_phase := (ob_phase s)(t := Th_ended)\<rparr>)"

definition ob_start :: "'s \<Rightarrow> (nat \<Rightarrow> obj_stmt list) \<Rightarrow> 's objects" where
  "ob_start fresh prog =
     \<lparr>ob_vars = (\<lambda>_. fresh), ob_name = (\<lambda>_ _. []), ob_code = prog,
      ob_phase = (\<lambda>t. if t = 0 then Th_running else Th_new), ob_lines = []\<rparr>"

inductive ob_reachable ::
  "('s \<Rightarrow> nat \<Rightarrow> nat option) \<Rightarrow> (nat \<Rightarrow> 's \<Rightarrow> (nat \<times> 's) option) \<Rightarrow> (nat \<Rightarrow> 's \<Rightarrow> 's option) \<Rightarrow> nat
     \<Rightarrow> 's objects \<Rightarrow> 's objects \<Rightarrow> bool"
  for slot ask leave n s0 where
  refl: "ob_reachable slot ask leave n s0 s0"
| step: "ob_reachable slot ask leave n s0 s \<Longrightarrow> ob_step slot ask leave n s s' \<Longrightarrow> ob_reachable slot ask leave n s0 s'"

text \<open>The threads of ThreadLocal\_test.cc (variables 0 and 1) and of ThreadLocalSingleton\_test.cc (variable 0);
  thread 0 is the main thread.\<close>

definition tl_print :: "obj_stmt list" where
  "tl_print = [PrintName 0, PrintName 1]"

definition tl_threadFunc :: "obj_stmt list" where
  "tl_threadFunc = tl_print @ [SetName 0 ''changed 1'', SetName 1 ''changed 42''] @ tl_print"

definition tl_main :: "obj_stmt list" where
  "tl_main = [SetName 0 ''main one''] @ tl_print @ [StartThread 1, JoinThread 1, SetName 1 ''main two''] @ tl_print"

definition tl_threads :: "nat \<Rightarrow> obj_stmt list" where
  "tl_threads t = (if t = 0 then tl_main else if t = 1 then tl_threadFunc else [])"

definition ts_threadFunc :: "bytes \<Rightarrow> obj_stmt list" where
  "ts_threadFunc changeTo = [PrintName 0, SetName 0 changeTo, PrintName 0]"

definition ts_main :: "obj_stmt list" where
  "ts_main = [SetName 0 ''main one'', StartThread 1, StartThread 2, JoinThread 1, PrintName 0, JoinThread 2]"

definition ts_threads :: "nat \<Rightarrow> obj_stmt list" where
  "ts_threads t = (if t = 0 then ts_main else if t = 1 then ts_threadFunc ''thread1''
     else if t = 2 then ts_threadFunc ''thread2'' else [])"

section \<open>Each thread as if it were alone\<close>

text \<open>What a thread prints when its variables are its own: the names it gave them, at first empty.\<close>

fun alone :: "obj_stmt list \<Rightarrow> (nat \<Rightarrow> bytes) \<Rightarrow> (nat \<times> bytes) list" where
  "alone [] m = []"
| "alone (SetName v x # cs) m = alone cs (m(v := x))"
| "alone (PrintName v # cs) m = (v, m v) # alone cs m"
| "alone (StartThread u # cs) m = alone cs m"
| "alone (JoinThread u # cs) m = alone cs m"

fun shown_by :: "nat \<Rightarrow> obj_line list \<Rightarrow> (nat \<times> bytes) list" where
  "shown_by t [] = []"
| "shown_by t (Named u v obj x # ls) = (if u = t then (v, x) # shown_by t ls else shown_by t ls)"
| "shown_by t (Constructing _ _ _ # ls) = shown_by t ls"
| "shown_by t (Destructing _ _ _ _ # ls) = shown_by t ls"

lemma shown_by_append [simp]: "shown_by t (ls @ ms) = shown_by t ls @ shown_by t ms"
  by (induction t ls rule: shown_by.induct) auto

definition ob_mine :: "('s \<Rightarrow> nat \<Rightarrow> nat option) \<Rightarrow> 's objects \<Rightarrow> nat \<Rightarrow> nat \<Rightarrow> bytes" where
  "ob_mine slot s t v = (case slot (ob_vars s v) t of None \<Rightarrow> [] | Some obj \<Rightarrow> ob_name s v obj)"

text \<open>What a thread has printed, followed by what it will still print if nobody disturbs it.\<close>

definition ob_story :: "('s \<Rightarrow> nat \<Rightarrow> nat option) \<Rightarrow> 's objects \<Rightarrow> nat \<Rightarrow> (nat \<times> bytes) list" where
  "ob_story slot s t = shown_by t (ob_lines s) @ alone (ob_code s t) (ob_mine slot s t)"

text \<open>The programs a run can finish: only the main thread starts and joins threads, each at most once and in
  this order, and there are \<open>n\<close> variables.\<close>

fun own_stmt :: "nat \<Rightarrow> obj_stmt \<Rightarrow> bool" where
  "own_stmt n (SetName v x) \<longleftrightarrow> v < n"
| "own_stmt n (PrintName v) \<longleftrightarrow> v < n"
| "own_stmt n c \<longleftrightarrow> False"

fun main_ok :: "nat \<Rightarrow> nat set \<Rightarrow> obj_stmt list \<Rightarrow> bool" where
  "main_ok n A [] \<longleftrightarrow> True"
| "main_ok n A (StartThread u # cs) \<longleftrightarrow> u \<noteq> 0 \<and> u \<notin> A \<and> main_ok n (insert u A) cs"
| "main_ok n A (JoinThread u # cs) \<longleftrightarrow> u \<in> A \<and> main_ok n A cs"
| "main_ok n A (c # cs) \<longleftrightarrow> own_stmt n c \<and> main_ok n A cs"

definition program_ok :: "nat \<Rightarrow> (nat \<Rightarrow> obj_stmt list) \<Rightarrow> bool" where
  "program_ok n prog \<longleftrightarrow> main_ok n {} (prog 0) \<and> (\<forall>t c. t \<noteq> 0 \<longrightarrow> c \<in> set (prog t) \<longrightarrow> own_stmt n c)"

definition thread_starts :: "obj_stmt list \<Rightarrow> nat set" where
  "thread_starts cs = {u. StartThread u \<in> set cs}"

definition started_threads :: "'s objects \<Rightarrow> nat set" where
  "started_threads s = {t. t \<noteq> 0 \<and> ob_phase s t \<noteq> Th_new}"

fun phase_rank :: "obj_phase \<Rightarrow> nat" where
  "phase_rank Th_new = 3"
| "phase_rank Th_running = 2"
| "phase_rank Th_exiting = 1"
| "phase_rank Th_ended = 0"

definition thread_left :: "('s \<Rightarrow> nat \<Rightarrow> nat option) \<Rightarrow> nat \<Rightarrow> 's objects \<Rightarrow> nat \<Rightarrow> nat" where
  "thread_left slot n s t =
     2 * length (ob_code s t) + card {v. v < n \<and> (\<exists>obj. slot (ob_vars s v) t = Some obj)} + phase_rank (ob_phase s t)"

definition ob_left :: "('s \<Rightarrow> nat \<Rightarrow> nat option) \<Rightarrow> nat \<Rightarrow> nat set \<Rightarrow> 's objects \<Rightarrow> nat" where
  "ob_left slot n T s = (\<Sum>t\<in>T. thread_left slot n s t)"

locale object_threads = per_thread_object +
  fixes fresh
  assumes fresh_inv: "inv fresh" and fresh_slot: "slot fresh = (\<lambda>_. None)"
begin

lemma ob_get_law:
  assumes vars: "\<And>v. inv (ob_vars s v)"
  shows "\<exists>obj s1. ob_get slot ask t v s = Some (obj, s1) \<and> (\<forall>w. inv (ob_vars s1 w))
    \<and> slot (ob_vars s1 v) = (slot (ob_vars s v))(t := Some obj) \<and> (\<forall>w. w \<noteq> v \<longrightarrow> ob_vars s1 w = ob_vars s w)
    \<and> ob_mine slot s1 = ob_mine slot s \<and> ob_name s1 v obj = ob_mine slot s t v
    \<and> ob_code s1 = ob_code s \<and> ob_phase s1 = ob_phase s \<and> (\<forall>u. shown_by u (ob_lines s1) = shown_by u (ob_lines s))"
proof -
  obtain obj x where x: "ask t (ob_vars s v) = Some (obj, x)" "inv x" "slot x = (slot (ob_vars s v))(t := Some obj)"
    "\<And>w. slot (ob_vars s v) t = Some w \<Longrightarrow> obj = w"
    using ask_law[OF vars] by metis
  have others: "slot (ob_vars s v) u \<noteq> Some obj" if "u \<noteq> t" for u
    using slots_distinct[OF x(2), of t obj u] that by (auto simp: x(3))
  show ?thesis
  proof (cases "slot (ob_vars s v) t")
    case None
    have "ob_mine slot (s\<lparr>ob_vars := (ob_vars s)(v := x), ob_name := (ob_name s)(v := (ob_name s v)(obj := [])), ob_lines := ls\<rparr>) u w
        = ob_mine slot s u w" for u w ls
      using others[of u] None by (auto simp: ob_mine_def x(3) split: option.split)
    then have mine: "ob_mine slot (s\<lparr>ob_vars := (ob_vars s)(v := x), ob_name := (ob_name s)(v := (ob_name s v)(obj := [])), ob_lines := ls\<rparr>)
        = ob_mine slot s" for ls by blast
    then show ?thesis using x(1-3) None vars by (simp add: ob_get_def Let_def) (simp add: ob_mine_def)
  next
    case (Some w)
    then have "obj = w" using x(4) by simp
    have "ob_mine slot (s\<lparr>ob_vars := (ob_vars s)(v := x)\<rparr>) u w = ob_mine slot s u w" for u w
      using Some \<open>obj = _\<close> by (auto simp: ob_mine_def x(3) split: option.split)
    then have "ob_mine slot (s\<lparr>ob_vars := (ob_vars s)(v := x)\<rparr>) = ob_mine slot s" by blast
    then show ?thesis using x(1-3) Some \<open>obj = w\<close> vars by (simp add: ob_get_def Let_def) (simp add: ob_mine_def)
  qed
qed

text \<open>One statement of thread \<open>t\<close>: the others' objects and lines stay, its own story goes on as when alone.\<close>

lemma ob_exec_law:
  assumes vars: "\<And>v. inv (ob_vars s v)" and run: "ob_exec slot ask t c s = Some s'"
  shows "(\<forall>w. inv (ob_vars s' w)) \<and> ob_code s' = ob_code s
    \<and> shown_by t (ob_lines s') @ alone cs (ob_mine slot s' t) = shown_by t (ob_lines s) @ alone (c # cs) (ob_mine slot s t)
    \<and> (\<forall>u. u \<noteq> t \<longrightarrow> shown_by u (ob_lines s') = shown_by u (ob_lines s) \<and> ob_mine slot s' u = ob_mine slot s u)
    \<and> (\<forall>u w. u \<noteq> t \<longrightarrow> slot (ob_vars s' w) u = slot (ob_vars s w) u)
    \<and> (\<forall>u w. n \<le> w \<longrightarrow> own_stmt n c \<or> c = StartThread u \<or> c = JoinThread u \<longrightarrow> ob_vars s' w = ob_vars s w)
    \<and> ob_phase s' = (case c of StartThread u \<Rightarrow> (ob_phase s)(u := Th_running) | _ \<Rightarrow> ob_phase s)
    \<and> (\<exists>v. \<forall>w. w \<noteq> v \<longrightarrow> ob_vars s' w = ob_vars s w)"
proof -
  have get: "\<exists>obj s1. ob_get slot ask t v s = Some (obj, s1) \<and> (\<forall>w. inv (ob_vars s1 w))
    \<and> slot (ob_vars s1 v) = (slot (ob_vars s v))(t := Some obj) \<and> (\<forall>w. w \<noteq> v \<longrightarrow> ob_vars s1 w = ob_vars s w)
    \<and> ob_mine slot s1 = ob_mine slot s \<and> ob_name s1 v obj = ob_mine slot s t v
    \<and> ob_code s1 = ob_code s \<and> ob_phase s1 = ob_phase s \<and> (\<forall>u. shown_by u (ob_lines s1) = shown_by u (ob_lines s))" for v
    by (rule ob_get_law) (rule vars)
  have mine_lines: "ob_mine slot (s1\<lparr>ob_lines := ls\<rparr>) = ob_mine slot s1" for s1 :: "'a objects" and ls
    by (intro ext) (simp add: ob_mine_def split: option.split)
  have mine_phase: "ob_mine slot (s1\<lparr>ob_phase := ph\<rparr>) = ob_mine slot s1" for s1 :: "'a objects" and ph
    by (intro ext) (simp add: ob_mine_def split: option.split)
  show ?thesis
  proof (cases c)
    case (SetName v x)
    obtain obj s1 where s1: "ob_get slot ask t v s = Some (obj, s1)" "\<And>w. inv (ob_vars s1 w)"
      "slot (ob_vars s1 v) = (slot (ob_vars s v))(t := Some obj)" "\<And>w. w \<noteq> v \<Longrightarrow> ob_vars s1 w = ob_vars s w"
      "ob_mine slot s1 = ob_mine slot s" "ob_code s1 = ob_code s" "ob_phase s1 = ob_phase s"
      "\<And>u. shown_by u (ob_lines s1) = shown_by u (ob_lines s)" using get by metis
    have others: "slot (ob_vars s1 v) u \<noteq> Some obj" if "u \<noteq> t" for u
      using slots_distinct[OF s1(2), of v t obj u] that by (auto simp: s1(3))
    have s': "s' = s1\<lparr>ob_name := (ob_name s1)(v := (ob_name s1 v)(obj := x))\<rparr>"
      using run SetName s1(1) by (simp add: ob_exec_def)
    have "ob_mine slot s' t w = ((ob_mine slot s1 t)(v := x)) w" for w
      by (auto simp: s' ob_mine_def s1(3) split: option.split)
    then have mine: "ob_mine slot s' t = (ob_mine slot s1 t)(v := x)" by blast
    have "ob_mine slot s' u w = ob_mine slot s1 u w" if "u \<noteq> t" for u w
      using others[OF that] by (auto simp: s' ob_mine_def split: option.split)
    then have other: "ob_mine slot s' u = ob_mine slot s u" if "u \<noteq> t" for u
      using that s1(5) by (intro ext) metis
    have "slot (ob_vars s' w) u = slot (ob_vars s w) u" if "u \<noteq> t" for u w
      using that s1(3) s1(4)[of w] by (cases "w = v") (simp_all add: s')
    moreover have "ob_vars s' w = ob_vars s w" if "n \<le> w" "v < n" for w
      using that s1(4)[of w] by (simp add: s')
    moreover have "\<exists>v. \<forall>w. w \<noteq> v \<longrightarrow> ob_vars s' w = ob_vars s w" using s1(4) by (auto simp: s')
    ultimately show ?thesis using mine other s1(2,5-8) by (simp add: SetName) (simp add: s')
  next
    case (PrintName v)
    obtain obj s1 where s1: "ob_get slot ask t v s = Some (obj, s1)" "\<And>w. inv (ob_vars s1 w)"
      "slot (ob_vars s1 v) = (slot (ob_vars s v))(t := Some obj)" "\<And>w. w \<noteq> v \<Longrightarrow> ob_vars s1 w = ob_vars s w"
      "ob_mine slot s1 = ob_mine slot s" "ob_name s1 v obj = ob_mine slot s t v" "ob_code s1 = ob_code s" "ob_phase s1 = ob_phase s"
      "\<And>u. shown_by u (ob_lines s1) = shown_by u (ob_lines s)" using get by metis
    have s': "s' = s1\<lparr>ob_lines := ob_lines s1 @ [Named t v obj (ob_name s1 v obj)]\<rparr>"
      using run PrintName s1(1) by (simp add: ob_exec_def)
    have "slot (ob_vars s' w) u = slot (ob_vars s w) u" if "u \<noteq> t" for u w
      using that s1(3) s1(4)[of w] by (cases "w = v") (simp_all add: s')
    moreover have "ob_vars s' w = ob_vars s w" if "n \<le> w" "v < n" for w
      using that s1(4)[of w] by (simp add: s')
    moreover have "\<exists>v. \<forall>w. w \<noteq> v \<longrightarrow> ob_vars s' w = ob_vars s w" using s1(4) by (auto simp: s')
    ultimately show ?thesis using s1(2,5-9) mine_lines by (simp add: PrintName) (simp add: s')
  next
    case (StartThread u)
    then show ?thesis using run vars by (auto simp: ob_exec_def mine_phase split: if_splits)
  next
    case (JoinThread u)
    then show ?thesis using run vars by (auto simp: ob_exec_def)
  qed
qed

text \<open>The invariant of the runs of a program: every thread's story is the one it would have alone.\<close>

definition runs_ok :: "nat \<Rightarrow> (nat \<Rightarrow> obj_stmt list) \<Rightarrow> 'a objects \<Rightarrow> bool" where
  "runs_ok n prog s \<longleftrightarrow> (\<forall>v. inv (ob_vars s v)) \<and> (\<forall>t. ob_story slot s t = alone (prog t) (\<lambda>_. []))
     \<and> (\<forall>t v. ob_phase s t \<in> {Th_new, Th_ended} \<longrightarrow> slot (ob_vars s v) t = None)
     \<and> (\<forall>t. ob_phase s t \<in> {Th_exiting, Th_ended} \<longrightarrow> ob_code s t = [])
     \<and> (\<forall>t v. n \<le> v \<longrightarrow> slot (ob_vars s v) t = None)
     \<and> ob_phase s 0 \<noteq> Th_new \<and> main_ok n (started_threads s) (ob_code s 0)
     \<and> started_threads s \<union> thread_starts (ob_code s 0) = thread_starts (prog 0)
     \<and> (\<forall>t c. t \<noteq> 0 \<longrightarrow> c \<in> set (ob_code s t) \<longrightarrow> own_stmt n c)"

lemma main_ok_head:
  "main_ok n A (c # cs) \<Longrightarrow> own_stmt n c \<or> (\<exists>u. c = StartThread u \<and> u \<noteq> 0 \<and> u \<notin> A) \<or> (\<exists>u. c = JoinThread u \<and> u \<in> A)"
  by (cases c) auto

lemma main_ok_tail:
  "main_ok n A (c # cs) \<Longrightarrow> main_ok n (case c of StartThread u \<Rightarrow> insert u A | _ \<Rightarrow> A) cs"
  by (cases c) auto

lemma runs_ok_start:
  assumes "program_ok n prog"
  shows "runs_ok n prog (ob_start fresh prog)"
proof -
  have "ob_mine slot (ob_start fresh prog) t = (\<lambda>_. [])" for t
    by (intro ext) (simp add: ob_mine_def ob_start_def fresh_slot)
  moreover have "started_threads (ob_start fresh prog) = {}" by (simp add: started_threads_def ob_start_def)
  ultimately show ?thesis
    using assms by (simp add: runs_ok_def ob_story_def program_ok_def) (simp add: ob_start_def fresh_inv fresh_slot)
qed

lemma runs_ok_exec:
  assumes ok: "runs_ok n prog s" and here: "ob_phase s t = Th_running" "ob_code s t = c # cs"
    and run: "ob_exec slot ask t c (s\<lparr>ob_code := (ob_code s)(t := cs)\<rparr>) = Some s'"
  shows "runs_ok n prog s'"
proof -
  let ?s = "s\<lparr>ob_code := (ob_code s)(t := cs)\<rparr>"
  have mine: "ob_mine slot ?s = ob_mine slot s" by (intro ext) (simp add: ob_mine_def split: option.split)
  have vars: "inv (ob_vars ?s v)" for v using ok by (simp add: runs_ok_def)
  have head: "own_stmt n c \<or> (\<exists>u. c = StartThread u \<and> t = 0 \<and> u \<noteq> 0 \<and> u \<notin> started_threads s) \<or> (\<exists>u. c = JoinThread u)"
    using ok here main_ok_head[of n "started_threads s" c cs] by (cases "t = 0") (auto simp: runs_ok_def)
  note law = ob_exec_law[OF vars run, where n = n and cs = cs, unfolded mine, simplified]
  have phase: "ob_phase s' = (case c of StartThread u \<Rightarrow> (ob_phase s)(u := Th_running) | _ \<Rightarrow> ob_phase s)"
    using law by (cases c) simp_all
  have started: "started_threads s' = (case c of StartThread u \<Rightarrow> insert u (started_threads s) | _ \<Rightarrow> started_threads s)"
    using head phase by (auto simp: started_threads_def split: obj_stmt.split)
  have story: "ob_story slot s' u = ob_story slot s u" for u
    using law here by (cases "u = t") (auto simp: ob_story_def)
  have same: "slot (ob_vars s' v) u = slot (ob_vars s v) u" if "u \<noteq> t" for u v using law that by simp
  have beyond: "ob_vars s' v = ob_vars s v" if "n \<le> v" for v
    using law head that by auto
  have t: "ob_phase s t \<notin> {Th_new, Th_ended, Th_exiting}" using here by simp
  have "inv (ob_vars s' v)" for v using law by simp
  moreover have "slot (ob_vars s' v) u = None" if "ob_phase s' u \<in> {Th_new, Th_ended}" for u v
  proof -
    from that phase t have "u \<noteq> t" "ob_phase s u \<in> {Th_new, Th_ended}"
      by (cases c; auto simp: here split: if_splits)+
    with ok same show ?thesis by (auto simp: runs_ok_def)
  qed
  moreover have "ob_code s' u = []" if "ob_phase s' u \<in> {Th_exiting, Th_ended}" for u
  proof -
    from that phase t have "u \<noteq> t" "ob_phase s u \<in> {Th_exiting, Th_ended}"
      by (cases c; auto simp: here split: if_splits)+
    with ok law show ?thesis by (auto simp: runs_ok_def)
  qed
  moreover have "slot (ob_vars s' v) u = None" if "n \<le> v" for u v
    using ok beyond[OF that] that by (simp add: runs_ok_def)
  moreover have "ob_phase s' 0 \<noteq> Th_new" using ok phase by (cases c) (simp_all add: runs_ok_def)
  moreover have "main_ok n (started_threads s') (ob_code s' 0)"
  proof (cases "t = 0")
    case True
    then show ?thesis using ok here law main_ok_tail[of n "started_threads s" c cs] by (simp add: started runs_ok_def)
  next
    case False
    then have "started_threads s' = started_threads s" using head by (cases c) (auto simp: started)
    then show ?thesis using False ok law by (simp add: runs_ok_def)
  qed
  moreover have "started_threads s' \<union> thread_starts (ob_code s' 0) = thread_starts (prog 0)"
  proof (cases "t = 0")
    case True
    then have "started_threads s' \<union> thread_starts cs = started_threads s \<union> thread_starts (ob_code s 0)"
      unfolding here(2)[unfolded True] by (cases c) (auto simp: started thread_starts_def)
    then show ?thesis using True ok law by (simp add: runs_ok_def)
  next
    case False
    then have "started_threads s' = started_threads s" using head by (cases c) (auto simp: started)
    then show ?thesis using False ok law by (simp add: runs_ok_def)
  qed
  moreover have "own_stmt n d" if "u \<noteq> 0" "d \<in> set (ob_code s' u)" for u d
    using ok law that here by (cases "u = t") (auto simp: runs_ok_def)
  ultimately show ?thesis using ok by (simp add: runs_ok_def story)
qed

lemma runs_ok_step:
  assumes ok: "runs_ok n prog s" and step: "ob_step slot ask leave n s s'"
  shows "runs_ok n prog s'"
  using step
proof cases
  case (exec t c cs)
  then show ?thesis using runs_ok_exec[OF ok] by blast
next
  case (exits t)
  have "ob_mine slot s' = ob_mine slot s" by (intro ext) (simp add: exits(1) ob_mine_def split: option.split)
  moreover have "started_threads s' = started_threads s" by (auto simp: exits started_threads_def)
  ultimately show ?thesis using ok exits by (auto simp: runs_ok_def ob_story_def)
next
  case (destroy t v obj x)
  obtain y where y: "leave t (ob_vars s v) = Some y" "inv y" "slot y = (slot (ob_vars s v))(t := None)"
    using leave_law[of "ob_vars s v" t] ok by (auto simp: runs_ok_def)
  with destroy have [simp]: "y = x" by simp
  have "ob_mine slot s' u w = ob_mine slot s u w" if "u \<noteq> t" for u w
    using that y by (auto simp: destroy(1) ob_mine_def split: option.split)
  then have mine: "ob_mine slot s' u = ob_mine slot s u" if "u \<noteq> t" for u using that by blast
  have "ob_story slot s' u = ob_story slot s u" for u
    using ok destroy mine[of u] by (cases "u = t") (auto simp: runs_ok_def ob_story_def)
  moreover have "started_threads s' = started_threads s" by (simp add: destroy started_threads_def)
  ultimately show ?thesis using ok destroy y by (auto simp: runs_ok_def)
next
  case (ended t)
  have "ob_mine slot s' = ob_mine slot s" by (intro ext) (simp add: ended(1) ob_mine_def split: option.split)
  moreover have "started_threads s' = started_threads s" using ended(2) by (auto simp: ended(1) started_threads_def)
  moreover have "slot (ob_vars s v) t = None" for v
    using ok ended(3)[of v] by (cases "v < n") (auto simp: runs_ok_def)
  ultimately show ?thesis using ok ended by (auto simp: runs_ok_def ob_story_def)
qed

lemma runs_ok_reachable:
  assumes "ob_reachable slot ask leave n (ob_start fresh prog) s" "program_ok n prog"
  shows "runs_ok n prog s"
  using assms by (induction rule: ob_reachable.induct) (auto intro: runs_ok_start runs_ok_step)

text \<open>Nobody is stuck: a thread that runs can take its next step unless it waits for one that still runs.\<close>

lemma thread_moves:
  assumes ok: "runs_ok n prog s" and t: "ob_phase s t \<in> {Th_running, Th_exiting}"
    and free: "\<And>u. u \<noteq> 0 \<Longrightarrow> t = 0 \<Longrightarrow> ob_phase s u \<in> {Th_new, Th_ended}"
  shows "\<exists>s'. ob_step slot ask leave n s s'"
proof (cases "ob_phase s t = Th_exiting")
  case exiting: True
  show ?thesis
  proof (cases "\<exists>v<n. slot (ob_vars s v) t \<noteq> None")
    case True
    then obtain v obj where v: "v < n" "slot (ob_vars s v) t = Some obj" by auto
    obtain x where "leave t (ob_vars s v) = Some x" using leave_law[of "ob_vars s v" t] ok by (auto simp: runs_ok_def)
    then show ?thesis using ob_step.destroy[where slot = slot, OF exiting v] by blast
  next
    case False
    then show ?thesis using ob_step.ended[OF exiting, of n slot ask leave] by blast
  qed
next
  case False
  then have running: "ob_phase s t = Th_running" using t by simp
  show ?thesis
  proof (cases "ob_code s t")
    case Nil
    then show ?thesis using ob_step.exits[OF running] by blast
  next
    case (Cons c cs)
    let ?s = "s\<lparr>ob_code := (ob_code s)(t := cs)\<rparr>"
    have get: "\<exists>y. ob_get slot ask t v ?s = Some y" for v
      using ob_get_law[of ?s t v] ok by (auto simp: runs_ok_def)
    have "own_stmt n c \<or> (\<exists>u. t = 0 \<and> u \<noteq> 0 \<and> c = StartThread u \<and> u \<notin> started_threads s)
        \<or> (\<exists>u. t = 0 \<and> c = JoinThread u \<and> u \<in> started_threads s)"
      using ok Cons main_ok_head[of n "started_threads s" c cs] by (cases "t = 0") (auto simp: runs_ok_def)
    then have "\<not> ob_waits s c \<and> (\<exists>s'. ob_exec slot ask t c ?s = Some s')"
      using get free by (cases c) (auto simp: ob_exec_def started_threads_def)
    then show ?thesis using ob_step.exec[OF running Cons] by blast
  qed
qed

lemma runs_move:
  assumes ok: "runs_ok n prog s" and "ob_phase s t \<in> {Th_running, Th_exiting}"
  shows "\<exists>s'. ob_step slot ask leave n s s'"
proof (cases "\<exists>u. u \<noteq> 0 \<and> ob_phase s u \<in> {Th_running, Th_exiting}")
  case True
  then show ?thesis using thread_moves[OF ok] by blast
next
  case False
  then have "ob_phase s u \<in> {Th_new, Th_ended}" if "u \<noteq> 0" for u
    using that obj_phase.exhaust[of "ob_phase s u"] by (metis insertCI)
  then show ?thesis using thread_moves[OF ok assms(2)] by blast
qed

text \<open>When nobody can move, all threads of the program have ended, each has printed what it would print alone,
  and no object is left.\<close>

lemma runs_finished:
  assumes ok: "runs_ok n prog s" and stuck: "\<And>s'. \<not> ob_step slot ask leave n s s'"
  shows "(\<forall>t \<in> insert 0 (thread_starts (prog 0)). ob_phase s t = Th_ended \<and> shown_by t (ob_lines s) = alone (prog t) (\<lambda>_. []))
    \<and> (\<forall>v. live (ob_vars s v) = {})"
proof -
  have rest: "ob_phase s t \<in> {Th_new, Th_ended}" for t
    using runs_move[OF ok, of t] stuck by (cases "ob_phase s t") auto
  then have "live (ob_vars s v) = {}" for v using ok by (intro no_leak) (auto simp: runs_ok_def)
  moreover have "ob_phase s t = Th_ended" if "t \<in> insert 0 (thread_starts (prog 0))" for t
  proof -
    have "ob_phase s 0 = Th_ended" using ok rest[of 0] by (auto simp: runs_ok_def)
    then have "started_threads s = thread_starts (prog 0)" using ok by (auto simp: runs_ok_def thread_starts_def)
    then show ?thesis using that rest[of t] \<open>ob_phase s 0 = _\<close> by (auto simp: started_threads_def)
  qed
  moreover have "shown_by t (ob_lines s) = alone (prog t) (\<lambda>_. [])" if "ob_phase s t = Th_ended" for t
  proof -
    from ok that have "ob_code s t = []" "ob_story slot s t = alone (prog t) (\<lambda>_. [])" by (auto simp: runs_ok_def)
    then show ?thesis by (simp add: ob_story_def)
  qed
  ultimately show ?thesis by blast
qed

text \<open>Every run ends: a step makes the work left smaller.\<close>

lemma left_exec:
  assumes ok: "runs_ok n prog s" and here: "ob_phase s t = Th_running" "ob_code s t = c # cs"
    and run: "ob_exec slot ask t c (s\<lparr>ob_code := (ob_code s)(t := cs)\<rparr>) = Some s'"
  shows "thread_left slot n s' t < thread_left slot n s t \<and> (\<forall>u. u \<noteq> t \<longrightarrow> thread_left slot n s' u \<le> thread_left slot n s u)"
proof -
  have vars: "inv (ob_vars (s\<lparr>ob_code := (ob_code s)(t := cs)\<rparr>) v)" for v using ok by (simp add: runs_ok_def)
  note law = ob_exec_law[OF vars run, where n = n and cs = cs, simplified]
  then obtain v where v: "\<And>w. w \<noteq> v \<Longrightarrow> ob_vars s' w = ob_vars s w" by blast
  have "{w. w < n \<and> (\<exists>y. slot (ob_vars s' w) t = Some y)} \<subseteq> insert v {w. w < n \<and> (\<exists>y. slot (ob_vars s w) t = Some y)}"
    using v by force
  then have "card {w. w < n \<and> (\<exists>y. slot (ob_vars s' w) t = Some y)} \<le> card (insert v {w. w < n \<and> (\<exists>y. slot (ob_vars s w) t = Some y)})"
    by (intro card_mono) auto
  also have "\<dots> \<le> Suc (card {w. w < n \<and> (\<exists>y. slot (ob_vars s w) t = Some y)})" by (rule card_insert_le_m1) auto
  finally have slots: "card {w. w < n \<and> (\<exists>y. slot (ob_vars s' w) t = Some y)} \<le> Suc (card {w. w < n \<and> (\<exists>y. slot (ob_vars s w) t = Some y)})" .
  have rank: "phase_rank (ob_phase s' u) \<le> phase_rank (ob_phase s u)" for u
    using law run here by (cases c) (auto simp: ob_exec_def split: if_splits)
  show ?thesis
    using law here slots rank[of t] rank by (auto simp: thread_left_def)
qed

lemma left_step:
  assumes ok: "runs_ok n prog s" and step: "ob_step slot ask leave n s s'"
  shows "ob_left slot n (insert 0 (thread_starts (prog 0))) s' < ob_left slot n (insert 0 (thread_starts (prog 0))) s"
proof -
  let ?T = "insert 0 (thread_starts (prog 0))"
  have "thread_starts (prog 0) \<subseteq> (\<lambda>c. case c of StartThread u \<Rightarrow> u | _ \<Rightarrow> 0) ` set (prog 0)"
    by (force simp: thread_starts_def)
  then have fin: "finite ?T" using finite_surj by blast
  have mem: "t \<in> ?T" if "ob_phase s t \<in> {Th_running, Th_exiting}" for t
    using ok that by (auto simp: runs_ok_def started_threads_def)
  have "\<exists>t\<in>?T. thread_left slot n s' t < thread_left slot n s t \<and> (\<forall>u. u \<noteq> t \<longrightarrow> thread_left slot n s' u \<le> thread_left slot n s u)"
    using step
  proof cases
    case (exec t c cs)
    then show ?thesis using left_exec[OF ok] mem[of t] by blast
  next
    case (exits t)
    then show ?thesis using mem[of t] by (intro bexI[of _ t]) (auto simp: thread_left_def)
  next
    case (destroy t v obj x)
    obtain y where "leave t (ob_vars s v) = Some y" "slot y = (slot (ob_vars s v))(t := None)"
      using leave_law[of "ob_vars s v" t] ok by (auto simp: runs_ok_def)
    with destroy have x: "slot x = (slot (ob_vars s v))(t := None)" by simp
    have "{w. w < n \<and> (\<exists>y. slot (((ob_vars s)(v := x)) w) t = Some y)} \<subset> {w. w < n \<and> (\<exists>y. slot (ob_vars s w) t = Some y)}"
      using destroy by (auto simp: x)
    then have "card {w. w < n \<and> (\<exists>y. slot (((ob_vars s)(v := x)) w) t = Some y)} < card {w. w < n \<and> (\<exists>y. slot (ob_vars s w) t = Some y)}"
      by (rule psubset_card_mono[rotated]) simp
    moreover have "card {w. w < n \<and> (\<exists>y. slot (((ob_vars s)(v := x)) w) u = Some y)} \<le> card {w. w < n \<and> (\<exists>y. slot (ob_vars s w) u = Some y)}" for u
      by (intro card_mono) (auto simp: x split: if_splits)
    ultimately show ?thesis using destroy mem[of t] by (intro bexI[of _ t]) (simp_all add: thread_left_def)
  next
    case (ended t)
    then show ?thesis using mem[of t] by (intro bexI[of _ t]) (auto simp: thread_left_def)
  qed
  then show ?thesis unfolding ob_left_def using fin by (metis sum_strict_mono_ex1 less_imp_le_nat order_refl)
qed

lemma runs_end:
  assumes "ob_reachable slot ask leave n (ob_start fresh prog) s" "program_ok n prog"
  shows "\<exists>s'. ob_reachable slot ask leave n (ob_start fresh prog) s' \<and> (\<forall>s''. \<not> ob_step slot ask leave n s' s'')"
  using assms(1)
proof (induction "ob_left slot n (insert 0 (thread_starts (prog 0))) s" arbitrary: s rule: less_induct)
  case less
  show ?case
  proof (cases "\<exists>s'. ob_step slot ask leave n s s'")
    case True
    then obtain s' where s': "ob_step slot ask leave n s s'" by blast
    then show ?thesis
      using less(1)[OF left_step[OF runs_ok_reachable[OF less(2) assms(2)] s'] ob_reachable.step[OF less(2) s']] by blast
  next
    case False
    then show ?thesis using less(2) by blast
  qed
qed

end

lemma ts_slot_new: "ts_value tl_singleton_new = (\<lambda>_. None)"
  by (simp add: tl_singleton_new_def)

lemma tv_slot_new: "tv_slot ThreadLocal_new = (\<lambda>_. None)"
  by (simp add: tv_slot_def ThreadLocal_new_def)

interpretation tso: object_threads ts_inv ts_value ts_live ts_instance ts_thread_exit tl_singleton_new
  by unfold_locales (simp_all add: ts_inv_new ts_slot_new)

interpretation tvo: object_threads tv_inv tv_slot tv_live ThreadLocal_value ThreadLocal_thread_exit ThreadLocal_new
  by unfold_locales (simp_all add: tv_inv_new tv_slot_new)

section \<open>ThreadLocal\_test.cc and ThreadLocalSingleton\_test.cc\<close>

lemma tl_program_ok: "program_ok 2 tl_threads"
  by (auto simp: program_ok_def tl_threads_def tl_main_def tl_threadFunc_def tl_print_def)

lemma ts_program_ok: "program_ok 1 ts_threads"
  by (auto simp: program_ok_def ts_threads_def ts_main_def ts_threadFunc_def)

text \<open>C36: \<open>ThreadLocal\<close> variables isolate threads: for every program whose threads name and print the objects of
  \<open>n\<close> variables, in every interleaving, what a thread has printed, followed by what it will print if nobody
  disturbs it, is what it would print alone; no assertion fails and nobody blocks for ever: as long as a
  thread that was started has not ended, some thread can move; and when all have ended, no object is left.\<close>

theorem thread_local_isolates:
  assumes "program_ok n prog"
    and "ob_reachable tv_slot ThreadLocal_value ThreadLocal_thread_exit n (ob_start ThreadLocal_new prog) s"
  shows "(\<forall>t. shown_by t (ob_lines s) @ alone (ob_code s t) (ob_mine tv_slot s t) = alone (prog t) (\<lambda>_. []))
    \<and> ((\<exists>s'. ob_step tv_slot ThreadLocal_value ThreadLocal_thread_exit n s s')
       \<or> (\<forall>t \<in> insert 0 (thread_starts (prog 0)). ob_phase s t = Th_ended) \<and> (\<forall>v. tv_live (ob_vars s v) = {}))"
proof -
  note ok = tvo.runs_ok_reachable[OF assms(2,1)]
  have "\<forall>t. ob_story tv_slot s t = alone (prog t) (\<lambda>_. [])" using ok by (simp add: tvo.runs_ok_def)
  then show ?thesis using tvo.runs_finished[OF ok] by (auto simp: ob_story_def)
qed

text \<open>ThreadLocal\_test.cc comes to an end, with the lines a person expects.\<close>

theorem thread_local_isolates_witness:
  "\<exists>s. ob_reachable tv_slot ThreadLocal_value ThreadLocal_thread_exit 2 (ob_start ThreadLocal_new tl_threads) s
    \<and> shown_by 0 (ob_lines s) = [(0, ''main one''), (1, []), (0, ''main one''), (1, ''main two'')]
    \<and> shown_by 1 (ob_lines s) = [(0, []), (1, []), (0, ''changed 1''), (1, ''changed 42'')]
    \<and> tv_live (ob_vars s 0) = {} \<and> tv_live (ob_vars s 1) = {}"
proof -
  obtain s where s: "ob_reachable tv_slot ThreadLocal_value ThreadLocal_thread_exit 2 (ob_start ThreadLocal_new tl_threads) s"
    "\<And>s'. \<not> ob_step tv_slot ThreadLocal_value ThreadLocal_thread_exit 2 s s'"
    using tvo.runs_end[OF ob_reachable.refl tl_program_ok] by blast
  have code: "ob_code s t = []" if "ob_phase s t = Th_ended" for t
    using tvo.runs_ok_reachable[OF s(1) tl_program_ok] that by (auto simp: tvo.runs_ok_def)
  have "thread_starts (tl_threads 0) = {1}" by (auto simp: thread_starts_def tl_threads_def tl_main_def tl_print_def)
  with thread_local_isolates[OF tl_program_ok s(1)] s(2)
  have all: "\<And>t. shown_by t (ob_lines s) @ alone (ob_code s t) (ob_mine tv_slot s t) = alone (tl_threads t) (\<lambda>_. [])"
    and ends: "ob_phase s 0 = Th_ended" "ob_phase s 1 = Th_ended" and live: "\<And>v. tv_live (ob_vars s v) = {}" by auto
  have "shown_by 0 (ob_lines s) = alone (tl_threads 0) (\<lambda>_. [])" "shown_by 1 (ob_lines s) = alone (tl_threads 1) (\<lambda>_. [])"
    using all[of 0] all[of 1] code[OF ends(1)] code[OF ends(2)] by simp_all
  then show ?thesis
    using s(1) live by (intro exI[of _ s]) (simp_all add: tl_threads_def tl_main_def tl_threadFunc_def tl_print_def)
qed

text \<open>ThreadLocalSingleton\_test.cc, where the main thread and two others run at the same time: every run can be
  continued to an end, and wherever it ends, each thread has read only the names it gave itself.\<close>

theorem ThreadLocalSingleton_test_lines:
  assumes "ob_reachable ts_value ts_instance ts_thread_exit 1 (ob_start tl_singleton_new ts_threads) s"
    and "\<And>s'. \<not> ob_step ts_value ts_instance ts_thread_exit 1 s s'"
  shows "shown_by 0 (ob_lines s) = [(0, ''main one'')] \<and> shown_by 1 (ob_lines s) = [(0, []), (0, ''thread1'')]
    \<and> shown_by 2 (ob_lines s) = [(0, []), (0, ''thread2'')] \<and> ts_live (ob_vars s 0) = {}"
proof -
  have "thread_starts (ts_threads 0) = {1, 2}" by (auto simp: thread_starts_def ts_threads_def ts_main_def)
  then show ?thesis using tso.runs_finished[OF tso.runs_ok_reachable[OF assms(1) ts_program_ok] assms(2)]
    by (simp add: ts_threads_def ts_main_def ts_threadFunc_def)
qed

lemma ThreadLocalSingleton_test_ends:
  assumes "ob_reachable ts_value ts_instance ts_thread_exit 1 (ob_start tl_singleton_new ts_threads) s"
  shows "\<exists>s'. ob_reachable ts_value ts_instance ts_thread_exit 1 (ob_start tl_singleton_new ts_threads) s'
    \<and> (\<forall>s''. \<not> ob_step ts_value ts_instance ts_thread_exit 1 s' s'')"
  by (rule tso.runs_end[OF assms ts_program_ok])

section \<open>Singleton\_test.cc\<close>

text \<open>A whole call of \<open>Singleton::instance\<close> while nobody else is inside \<open>init\<close>.\<close>

definition singleton_call :: "nat \<Rightarrow> singleton \<Rightarrow> (nat \<times> singleton) option" where
  "singleton_call t s =
     do { s1 \<leftarrow> (case sg_once s of
                  Once_init \<Rightarrow> map_option (singleton_register t)
                    (singleton_init t (s\<lparr>sg_once := Once_running t, sg_pc := (sg_pc s)(t := In_init)\<rparr>))
                | Once_running u \<Rightarrow> None
                | Once_done \<Rightarrow> Some (s\<lparr>sg_pc := (sg_pc s)(t := Behind_once)\<rparr>));
          s2 \<leftarrow> singleton_return t s1;
          obj \<leftarrow> sg_value s2;
          Some (obj, s2\<lparr>sg_pc := (sg_pc s2)(t := At_once)\<rparr>) }"

text \<open>\<open>Singleton<Test>\<close> is variable 0 and \<open>Singleton<TestNoDestroy>\<close> variable 1.\<close>

datatype singleton_stmt = St_setName bytes | St_print | St_noDestroy

record singleton_test =
  st_test :: singleton
  st_noDestroy :: singleton
  st_name :: bytes
  st_lines :: "obj_line list"

definition singleton_test_new :: singleton_test where
  "singleton_test_new = \<lparr>st_test = singleton_new, st_noDestroy = singleton_new, st_name = [], st_lines = []\<rparr>"

definition st_instance :: "nat \<Rightarrow> singleton_test \<Rightarrow> (nat \<times> singleton_test) option" where
  "st_instance t s =
     map_option (\<lambda>(obj, g). (obj, if sg_value (st_test s) = None
         then s\<lparr>st_test := g, st_name := [], st_lines := st_lines s @ [Constructing t 0 obj]\<rparr> else s\<lparr>st_test := g\<rparr>))
       (singleton_call t (st_test s))"

definition st_exec :: "nat \<times> singleton_stmt \<Rightarrow> singleton_test \<Rightarrow> singleton_test option" where
  "st_exec i s =
     (case i of
        (t, St_setName n) \<Rightarrow> map_option (\<lambda>(obj, s1). s1\<lparr>st_name := n\<rparr>) (st_instance t s)
      | (t, St_print) \<Rightarrow>
          do { (obj, s1) \<leftarrow> st_instance t s;
               (obj', s2) \<leftarrow> st_instance t s1;
               Some (s2\<lparr>st_lines := st_lines s2 @ [Named t 0 obj (st_name s2)]\<rparr>) }
      | (t, St_noDestroy) \<Rightarrow>
          map_option (\<lambda>(obj, g). s\<lparr>st_noDestroy := g,
              st_lines := (if sg_value (st_noDestroy s) = None then st_lines s @ [Constructing t 1 obj] else st_lines s)\<rparr>)
            (singleton_call t (st_noDestroy s)))"

text \<open>The thread runs between \<open>start\<close> and \<open>join\<close>, while the main thread waits.\<close>

definition st_threadFunc :: "singleton_stmt list" where
  "st_threadFunc = [St_print, St_setName ''only one, changed'']"

definition st_main :: "(nat \<times> singleton_stmt) list" where
  "st_main = [(0, St_setName ''only one'')] @ map (Pair 1) st_threadFunc @ [(0, St_print), (0, St_noDestroy)]"

text \<open>The end of the process: every registered \<open>destory\<close> is called, the last registered first.\<close>

definition run_atexit :: "nat \<Rightarrow> bytes \<Rightarrow> singleton \<Rightarrow> (obj_line list \<times> singleton) option" where
  "run_atexit v n g =
     fold_opt (\<lambda>_ (ls, g). map_option (\<lambda>g'. (case sg_value g of None \<Rightarrow> ls | Some obj \<Rightarrow> ls @ [Destructing 0 v obj n], g'))
         (singleton_destory g)) [0 ..< sg_atexit g] ([], g)"

definition singleton_test_main :: "singleton_test option" where
  "singleton_test_main =
     do { s \<leftarrow> fold_opt st_exec st_main singleton_test_new;
          (ls1, g1) \<leftarrow> run_atexit 1 [] (st_noDestroy s);
          (ls0, g0) \<leftarrow> run_atexit 0 (st_name s) (st_test s);
          Some (s\<lparr>st_noDestroy := g1, st_test := g0, st_lines := st_lines s @ ls1 @ ls0\<rparr>) }"

text \<open>Such a call is a run of the interleaved system.\<close>

lemma singleton_call_reachable:
  assumes "singleton_reachable s" "sg_pc s t = At_once" "singleton_call t s = Some (obj, s')"
  shows "singleton_reachable s' \<and> obj = 0"
proof -
  obtain s1 s2 where s1: "(case sg_once s of
        Once_init \<Rightarrow> map_option (singleton_register t)
          (singleton_init t (s\<lparr>sg_once := Once_running t, sg_pc := (sg_pc s)(t := In_init)\<rparr>))
      | Once_running u \<Rightarrow> None
      | Once_done \<Rightarrow> Some (s\<lparr>sg_pc := (sg_pc s)(t := Behind_once)\<rparr>)) = Some s1"
    and s2: "singleton_return t s1 = Some s2" "sg_value s2 = Some obj" "s' = s2\<lparr>sg_pc := (sg_pc s2)(t := At_once)\<rparr>"
    using assms(3) by (auto simp: singleton_call_def bind_eq_Some_conv)
  have "singleton_reachable s1 \<and> sg_pc s1 t = Behind_once"
  proof (cases "sg_once s")
    case Once_init
    let ?s0 = "s\<lparr>sg_once := Once_running t, sg_pc := (sg_pc s)(t := In_init)\<rparr>"
    obtain s0 where s0: "singleton_init t ?s0 = Some s0" "s1 = singleton_register t s0"
      using s1 Once_init by auto
    have "sg_pc s0 t = Init_stored" using s0(1) by (auto simp: singleton_init_def split: if_splits)
    moreover have "singleton_reachable s0"
      using singleton_reachable.step[OF singleton_reachable.step[OF assms(1) singleton_step.enter[OF assms(2) Once_init]]]
        singleton_step.init[OF _ s0(1)] by simp
    ultimately have "singleton_reachable s1" unfolding s0(2) by (metis singleton_reachable.step singleton_step.register)
    then show ?thesis by (simp add: s0(2) singleton_register_def)
  next
    case Once_done
    then show ?thesis
      using s1 singleton_reachable.step[OF assms(1) singleton_step.pass[OF assms(2) Once_done]] by auto
  qed (use s1 in simp)
  then have r2: "singleton_reachable s2" using singleton_reachable.step singleton_step.return s2(1) by blast
  moreover have pc: "sg_pc s2 t = Returned obj"
    using s2(1,2) by (auto simp: singleton_return_def split: option.splits)
  ultimately have "singleton_reachable s'" unfolding s2(3) by (metis singleton_reachable.step singleton_step.again)
  moreover have "obj = 0"
    using singleton_reachable_inv[OF r2] singleton_passed[OF singleton_reachable_inv[OF r2], of t obj] pc
    by (auto simp: singleton_inv_def dest: spec[of _ t])
  ultimately show ?thesis by blast
qed

text \<open>What the program prints.  The tag member \<open>no_destroy\<close> of the second class changes nothing: the last but one
  line is its destructor, where the program announces a leak.\<close>

theorem Singleton_test_lines:
  "map_option st_lines singleton_test_main = Some
     [Constructing 0 0 0, Named 1 0 0 ''only one'', Named 0 0 0 ''only one, changed'', Constructing 0 1 0,
      Destructing 0 1 0 [], Destructing 0 0 0 ''only one, changed'']"
  by (simp add: singleton_test_main_def st_main_def st_threadFunc_def st_exec_def st_instance_def singleton_call_def
      singleton_init_def singleton_register_def singleton_return_def singleton_destory_def run_atexit_def
      singleton_test_new_def singleton_new_def)

end
