(* ===== verification/ThreadLife.thy ===== *)
theory ThreadLife
  imports Thread
begin

text \<open>A \<open>Thread\<close> object and its pthread as two interleaved programs (Thread.cc): the creator that starts, joins and
  destroys the object, and the new thread in \<open>startThread\<close>, which works on the same object.  Shown is when the
  new thread touches the object after it was destroyed, and that \<open>start\<close> waits for the thread and returns what
  \<open>Thread_start\<close> of the theory Thread says.  Thread\_test.cc gives the creators.\<close>

section \<open>The creator and the new thread\<close>

datatype life_op = LStart | LJoin | LDestroy

text \<open>Where the new thread is in \<open>runInThread\<close>: before it stores its number, before it counts down, before it takes
  its name, in the function, at the end.\<close>

datatype child_pc = Not_created | Child_tid | Child_count | Child_name | In_func | Child_ended

text \<open>The assertions of \<open>start\<close> and \<open>join\<close>, in the order of the code.\<close>

datatype life_fault = Already_started | No_tid | Not_joinable

text \<open>\<open>lf_obj\<close> is \<open>None\<close> when the object is destroyed, \<open>lf_waits\<close> says that the creator is in \<open>start\<close>, behind
  \<open>pthread_create\<close>, \<open>lf_fault\<close> is the assertion that has failed, which ends the process.\<close>

record life =
  lf_obj :: "Thread option"
  lf_ops :: "life_op list"
  lf_waits :: bool
  lf_child :: child_pc
  lf_local :: thread_locals
  lf_detached :: bool
  lf_freed_use :: bool
  lf_fault :: "life_fault option"

definition life_new :: "life_op list \<Rightarrow> bytes \<Rightarrow> 32 word \<Rightarrow> life" where
  "life_new ops n numCreated =
     \<lparr>lf_obj = Some (fst (Thread_new n numCreated)), lf_ops = ops, lf_waits = False, lf_child = Not_created,
      lf_local = thread_locals_new, lf_detached = False, lf_freed_use = False, lf_fault = None\<rparr>"

text \<open>The new thread works on \<open>threadData_\<close>.\<close>

definition child_uses :: "(Thread \<Rightarrow> Thread) \<Rightarrow> life \<Rightarrow> life" where
  "child_uses f s = (case lf_obj s of None \<Rightarrow> s\<lparr>lf_freed_use := True\<rparr> | Some th \<Rightarrow> s\<lparr>lf_obj := Some (f th)\<rparr>)"

definition child_tid :: "int \<Rightarrow> life \<Rightarrow> life" where
  "child_tid gettid s =
     (case tid gettid (lf_local s) of
        (k, loc) \<Rightarrow> (child_uses (\<lambda>th. th\<lparr>th_tid := k\<rparr>) s)\<lparr>lf_local := loc, lf_child := Child_count\<rparr>)"

definition child_count :: "life \<Rightarrow> life" where
  "child_count s = (child_uses (\<lambda>th. th\<lparr>th_latch := th_latch th - 1\<rparr>) s)\<lparr>lf_child := Child_name\<rparr>"

definition child_name :: "life \<Rightarrow> life" where
  "child_name s =
     (let loc = (case lf_obj s of
                   None \<Rightarrow> lf_local s
                 | Some th \<Rightarrow> (lf_local s)\<lparr>t_threadName := (if th_name th = [] then ''Thread'' else th_name th)\<rparr>)
      in (child_uses id s)\<lparr>lf_local := loc, lf_child := In_func\<rparr>)"

text \<open>\<open>func_\<close> and what is bound to it are part of the object, so that the call uses the object as well.\<close>

definition child_func :: "life \<Rightarrow> life" where
  "child_func s =
     (child_uses id s)\<lparr>lf_local := (lf_local s)\<lparr>t_threadName := ''finished''\<rparr>, lf_child := Child_ended\<rparr>"

text \<open>The creator executes its operations; \<open>start\<close> comes back when the latch is at 0 and then asserts that the number
  is there.  A failed assertion is a step of its own, and after it nobody moves any more.\<close>

inductive creator_step :: "life \<Rightarrow> life \<Rightarrow> bool" where
  create: "lf_ops s = LStart # ops \<Longrightarrow> \<not> lf_waits s \<Longrightarrow> lf_obj s = Some th \<Longrightarrow> \<not> th_started th
    \<Longrightarrow> creator_step s (s\<lparr>lf_obj := Some (th\<lparr>th_started := True\<rparr>), lf_waits := True, lf_child := Child_tid\<rparr>)"
| create_fails: "lf_ops s = LStart # ops \<Longrightarrow> \<not> lf_waits s \<Longrightarrow> lf_obj s = Some th \<Longrightarrow> \<not> th_started th
    \<Longrightarrow> creator_step s (s\<lparr>lf_ops := ops\<rparr>)"
| create_asserts: "lf_ops s = LStart # ops \<Longrightarrow> \<not> lf_waits s \<Longrightarrow> lf_obj s = Some th \<Longrightarrow> th_started th
    \<Longrightarrow> creator_step s (s\<lparr>lf_fault := Some Already_started\<rparr>)"
| started: "lf_ops s = LStart # ops \<Longrightarrow> lf_waits s \<Longrightarrow> lf_obj s = Some th \<Longrightarrow> \<not> 0 < th_latch th
    \<Longrightarrow> creator_step s (if 0 < th_tid th then s\<lparr>lf_ops := ops, lf_waits := False\<rparr> else s\<lparr>lf_fault := Some No_tid\<rparr>)"
| join: "lf_ops s = LJoin # ops \<Longrightarrow> lf_obj s = Some th \<Longrightarrow> Thread_join th = Some th' \<Longrightarrow> lf_child s = Child_ended
    \<Longrightarrow> creator_step s (s\<lparr>lf_obj := Some th', lf_ops := ops\<rparr>)"
| join_asserts: "lf_ops s = LJoin # ops \<Longrightarrow> lf_obj s = Some th \<Longrightarrow> Thread_join th = None
    \<Longrightarrow> creator_step s (s\<lparr>lf_fault := Some Not_joinable\<rparr>)"
| destroy: "lf_ops s = LDestroy # ops \<Longrightarrow> lf_obj s = Some th
    \<Longrightarrow> creator_step s (s\<lparr>lf_obj := None, lf_ops := [], lf_detached := Thread_detaches th\<rparr>)"

text \<open>The statements of \<open>runInThread\<close>, in their order.\<close>

inductive child_step :: "int \<Rightarrow> life \<Rightarrow> life \<Rightarrow> bool" for gettid where
  tid: "lf_child s = Child_tid \<Longrightarrow> child_step gettid s (child_tid gettid s)"
| count: "lf_child s = Child_count \<Longrightarrow> child_step gettid s (child_count s)"
| name: "lf_child s = Child_name \<Longrightarrow> child_step gettid s (child_name s)"
| func: "lf_child s = In_func \<Longrightarrow> child_step gettid s (child_func s)"

inductive life_step :: "int \<Rightarrow> life \<Rightarrow> life \<Rightarrow> bool" for gettid where
  creator: "lf_fault s = None \<Longrightarrow> creator_step s s' \<Longrightarrow> life_step gettid s s'"
| child: "lf_fault s = None \<Longrightarrow> child_step gettid s s' \<Longrightarrow> life_step gettid s s'"

lemmas life_creator = life_step.creator[OF _ creator_step.create] life_step.creator[OF _ creator_step.started]
  life_step.creator[OF _ creator_step.join] life_step.creator[OF _ creator_step.destroy]
lemmas life_child = life_step.child[OF _ child_step.tid] life_step.child[OF _ child_step.count]
  life_step.child[OF _ child_step.name] life_step.child[OF _ child_step.func]

inductive life_reachable :: "int \<Rightarrow> life \<Rightarrow> life \<Rightarrow> bool" for gettid s0 where
  refl: "life_reachable gettid s0 s0"
| step: "life_reachable gettid s0 s \<Longrightarrow> life_step gettid s s' \<Longrightarrow> life_reachable gettid s0 s'"

section \<open>The invariant\<close>

text \<open>The object, while it exists, as a function of the place of the new thread; \<open>n\<close> is its name.\<close>

definition object_ok :: "int \<Rightarrow> bytes \<Rightarrow> life \<Rightarrow> Thread \<Rightarrow> bool" where
  "object_ok gettid n s th \<longleftrightarrow>
     (th_started th \<longleftrightarrow> lf_child s \<noteq> Not_created)
     \<and> th_tid th = (if lf_child s = Not_created \<or> lf_child s = Child_tid then 0 else gettid)
     \<and> th_latch th = (if lf_child s = Not_created \<or> lf_child s = Child_tid \<or> lf_child s = Child_count then 1 else 0)
     \<and> th_name th = n \<and> (th_joined th \<longrightarrow> lf_child s = Child_ended \<and> \<not> lf_waits s)"

definition life_ok :: "int \<Rightarrow> bytes \<Rightarrow> life \<Rightarrow> bool" where
  "life_ok gettid n s \<longleftrightarrow>
     (lf_waits s \<longrightarrow> (\<exists>ops. lf_ops s = LStart # ops) \<and> lf_obj s \<noteq> None \<and> lf_child s \<noteq> Not_created)
     \<and> (lf_child s = Child_tid \<or> lf_child s = Child_count \<longrightarrow> lf_waits s)
     \<and> (lf_child s = Not_created \<or> lf_child s = Child_tid \<longrightarrow> lf_local s = thread_locals_new)
     \<and> (\<forall>th. lf_obj s = Some th \<longrightarrow> \<not> lf_detached s \<and> object_ok gettid n s th)
     \<and> (lf_obj s = None \<longrightarrow> lf_ops s = [] \<and> (\<not> lf_detached s \<longrightarrow> lf_child s = Not_created \<or> lf_child s = Child_ended))
     \<and> (lf_freed_use s \<longrightarrow> lf_detached s) \<and> lf_fault s \<noteq> Some No_tid"

lemma life_new_fault [simp]: "lf_fault (life_new ops n numCreated) = None"
  by (simp add: life_new_def)

lemma Thread_new_fields:
  "\<exists>k. fst (Thread_new n numCreated) = \<lparr>th_started = False, th_joined = False, th_tid = 0, th_name = k, th_latch = 1\<rparr>"
  by (simp add: Thread_new_def setDefaultName_def split: prod.split)

lemma tid_new: "tid gettid thread_locals_new = (gettid, cacheTid gettid thread_locals_new)"
  by (simp add: tid_def cacheTid_def thread_locals_new_def)

lemma life_ok_new: "life_ok gettid (th_name (fst (Thread_new n numCreated))) (life_new ops n numCreated)"
  using Thread_new_fields[of n numCreated] by (auto simp: life_ok_def life_new_def object_ok_def)

lemma child_uses_keeps [simp]:
  "lf_fault (child_uses f s) = lf_fault s" "lf_ops (child_uses f s) = lf_ops s" "lf_waits (child_uses f s) = lf_waits s"
  by (simp_all add: child_uses_def split: option.split)

lemma child_fault [simp]:
  "lf_fault (child_tid gettid s) = lf_fault s" "lf_fault (child_count s) = lf_fault s"
  "lf_fault (child_name s) = lf_fault s" "lf_fault (child_func s) = lf_fault s"
  "lf_waits (child_tid gettid s) = lf_waits s" "lf_waits (child_count s) = lf_waits s"
  "lf_child (child_tid gettid s) = Child_count" "lf_child (child_count s) = Child_name"
  by (simp_all add: child_tid_def child_count_def child_name_def child_func_def Let_def split: prod.split)

lemmas child_defs = child_tid_def child_count_def child_name_def child_func_def child_uses_def

lemma life_ok_child:
  assumes ok: "life_ok gettid n s"
  shows "lf_child s = Child_tid \<Longrightarrow> life_ok gettid n (child_tid gettid s)"
    "lf_child s = Child_count \<Longrightarrow> life_ok gettid n (child_count s)"
    "lf_child s = Child_name \<Longrightarrow> life_ok gettid n (child_name s)"
    "lf_child s = In_func \<Longrightarrow> life_ok gettid n (child_func s)"
  using ok by (cases "lf_obj s"; simp add: life_ok_def object_ok_def child_defs tid_new Let_def)+

lemma life_ok_creator:
  assumes "creator_step s s'" "life_ok gettid n s" "0 < gettid"
  shows "life_ok gettid n s'"
  using assms(1)
proof cases
  case (join ops th th')
  then have "\<not> lf_waits s" "th' = th\<lparr>th_joined := True\<rparr>" using assms(2) by (auto simp: life_ok_def Thread_join_def split: if_splits)
  with join show ?thesis using assms(2) by (auto simp: life_ok_def object_ok_def)
next
  case (started ops th)
  then have "object_ok gettid n s th" "lf_child s \<noteq> Not_created" using assms(2) by (auto simp: life_ok_def)
  with started have "0 < th_tid th" "lf_child s \<notin> {Not_created, Child_tid, Child_count}"
    using assms(3) by (auto simp: object_ok_def split: if_splits)
  with started show ?thesis using assms(2) by (auto simp: life_ok_def object_ok_def)
next
  case (destroy ops th)
  then have "\<not> lf_waits s" using assms(2) by (auto simp: life_ok_def)
  with destroy show ?thesis using assms(2) by (cases "lf_child s") (auto simp: life_ok_def object_ok_def Thread_detaches_def)
qed (use assms(2) in \<open>auto simp: life_ok_def object_ok_def\<close>)

lemma life_ok_step:
  assumes "life_ok gettid n s" "life_step gettid s s'" "0 < gettid"
  shows "life_ok gettid n s'"
  using assms(2)
proof cases
  case creator
  then show ?thesis using life_ok_creator assms(1,3) by blast
next
  case child
  from child(2) show ?thesis by cases (use life_ok_child[OF assms(1)] in simp_all)
qed

lemma life_reachable_ok:
  assumes "life_reachable gettid (life_new ops n numCreated) s" "0 < gettid"
  shows "life_ok gettid (th_name (fst (Thread_new n numCreated))) s"
  using assms by (induction rule: life_reachable.induct) (auto intro: life_ok_new life_ok_step)

section \<open>Who may touch the object\<close>

text \<open>How \<open>start\<close> comes back: the new thread stores its number, counts down, and the creator goes on.\<close>

lemma start_open:
  assumes "life_reachable gettid s0 s" "life_ok gettid n s" "lf_waits s" "lf_fault s = None" "0 < gettid"
    "lf_child s \<noteq> Child_tid" "lf_child s \<noteq> Child_count"
  shows "\<exists>s'. life_reachable gettid s0 s' \<and> \<not> lf_waits s' \<and> lf_fault s' = None"
proof -
  from assms(2,3) have "lf_obj s \<noteq> None" by (simp add: life_ok_def)
  then obtain th where th: "lf_obj s = Some th" by blast
  from assms(2,3) obtain ops where o: "lf_ops s = LStart # ops" "lf_child s \<noteq> Not_created"
    by (auto simp: life_ok_def)
  from assms(2) th have "object_ok gettid n s th" by (simp add: life_ok_def)
  then have l: "\<not> 0 < th_latch th" "0 < th_tid th" using assms(5-7) o(2) by (auto simp: object_ok_def)
  from life_reachable.step[OF assms(1) life_creator(2)[OF assms(4) o(1) assms(3) th l(1)]] l(2) assms(4)
  show ?thesis by (intro exI[of _ "s\<lparr>lf_ops := ops, lf_waits := False\<rparr>"]) simp
qed

lemma start_counted:
  assumes "life_reachable gettid s0 s" "life_ok gettid n s" "lf_waits s" "lf_fault s = None" "0 < gettid" "lf_child s = Child_count"
  shows "\<exists>s'. life_reachable gettid s0 s' \<and> \<not> lf_waits s' \<and> lf_fault s' = None"
  by (rule start_open[OF life_reachable.step[OF assms(1) life_child(2)[OF assms(4,6)]] life_ok_child(2)[OF assms(2,6)]])
    (use assms in simp_all)

lemma start_returns:
  assumes "life_ok gettid n s" "lf_waits s" "lf_fault s = None" "0 < gettid"
  shows "\<exists>s'. life_reachable gettid s s' \<and> \<not> lf_waits s' \<and> lf_fault s' = None"
proof (cases "lf_child s = Child_tid")
  case True
  show ?thesis
    by (rule start_counted[OF life_reachable.step[OF life_reachable.refl life_child(1)[OF assms(3) True]] life_ok_child(1)[OF assms(1) True]])
      (use assms in simp_all)
next
  case False
  then show ?thesis using start_open[OF life_reachable.refl assms] start_counted[OF life_reachable.refl assms] by blast
qed

text \<open>C34: The life of a \<open>Thread\<close> object, in every interleaving of its creator and the new thread: when \<open>start\<close> finds the
  latch open, its assertion that the number is stored holds; as long as \<open>start\<close> waits it can come back, by steps of
  the new thread; the object is then what \<open>Thread_start\<close> says, until it is destroyed; the new thread uses the
  object after its destruction only if the creator destroyed it without joining, which detaches the thread.\<close>

theorem thread_object_lifetime:
  assumes "life_reachable gettid (life_new ops n numCreated) s" "0 < gettid"
  shows "lf_fault s \<noteq> Some No_tid \<and> (lf_freed_use s \<longrightarrow> lf_detached s)
    \<and> (\<forall>th. lf_obj s = Some th \<longrightarrow> th_started th \<longrightarrow> \<not> lf_waits s
        \<longrightarrow> Thread_start 0 gettid (fst (Thread_new n numCreated)) = Some (th\<lparr>th_joined := False\<rparr>))
    \<and> (lf_waits s \<and> lf_fault s = None \<longrightarrow> (\<exists>s'. life_reachable gettid s s' \<and> \<not> lf_waits s' \<and> lf_fault s' = None))"
proof -
  let ?th0 = "fst (Thread_new n numCreated)"
  note ok = life_reachable_ok[OF assms]
  have "Thread_start 0 gettid ?th0 = Some (th\<lparr>th_joined := False\<rparr>)"
    if th: "lf_obj s = Some th" "th_started th" "\<not> lf_waits s" for th
  proof -
    have "object_ok gettid (th_name ?th0) s th" "lf_child s \<notin> {Not_created, Child_tid, Child_count}"
      using ok th by (auto simp: life_ok_def object_ok_def)
    then show ?thesis using Thread_new_fields[of n numCreated] assms(2) th
      by (auto simp: object_ok_def Thread_start_def runInThread_begin_def tid_new)
  qed
  then show ?thesis using ok start_returns[OF ok _ _ assms(2)] by (auto simp: life_ok_def)
qed

section \<open>Thread\_test.cc\<close>

text \<open>What \<open>main\<close> does with its threads, in order: the names given and the operations before the end of the scope.
  \<open>t6\<close> is left alone as \<open>t5\<close> is, only later.\<close>

definition thread_test_main :: "(bytes \<times> life_op list) list" where
  "thread_test_main =
     [([], [LStart, LJoin, LDestroy]),
      (''thread for free function with argument'', [LStart, LJoin, LDestroy]),
      (''thread for member function without argument'', [LStart, LJoin, LDestroy]),
      ([], [LStart, LDestroy]),
      ([], [LStart, LDestroy])]"

fun thread_names :: "bytes list \<Rightarrow> 32 word \<Rightarrow> bytes list \<times> 32 word" where
  "thread_names [] c = ([], c)"
| "thread_names (n # ns) c =
     (case Thread_new n c of (th, c') \<Rightarrow> case thread_names ns c' of (ks, c'') \<Rightarrow> (th_name th # ks, c''))"

lemma Thread_test_names:
  "thread_names (map fst thread_test_main) 0 =
     ([''Thread1'', ''thread for free function with argument'', ''thread for member function without argument'',
       ''Thread4'', ''Thread5''], 5)"
  by code_simp

lemma start_back:
  assumes "life_reachable gettid s0 s" "lf_fault s = None" "lf_ops s = LStart # ops" "lf_waits s" "lf_obj s = Some th"
    "\<not> 0 < th_latch th" "0 < th_tid th"
  shows "life_reachable gettid s0 (s\<lparr>lf_ops := ops, lf_waits := False\<rparr>)"
  using life_reachable.step[OF assms(1) life_creator(2)[OF assms(2-6)]] assms(7) by simp

text \<open>The first thread of the test is started, runs, is joined and destroyed.\<close>

theorem thread_object_lifetime_witness:
  "\<exists>s. life_reachable 7 (life_new (snd (thread_test_main ! 0)) [] 0) s \<and> lf_ops s = [] \<and> lf_obj s = None
    \<and> lf_child s = Child_ended \<and> \<not> lf_detached s \<and> \<not> lf_freed_use s"
proof -
  let ?th = "fst (Thread_new [] 0)"
  let ?s0 = "life_new [LStart, LJoin, LDestroy] [] 0"
  obtain k where th: "?th = \<lparr>th_started = False, th_joined = False, th_tid = 0, th_name = k, th_latch = 1\<rparr>"
    using Thread_new_fields by blast
  let ?s1 = "?s0\<lparr>lf_obj := Some (?th\<lparr>th_started := True\<rparr>), lf_waits := True, lf_child := Child_tid\<rparr>"
  let ?s2 = "child_tid 7 ?s1" and ?s3 = "child_count (child_tid 7 ?s1)"
  let ?s4 = "?s3\<lparr>lf_ops := [LJoin, LDestroy], lf_waits := False\<rparr>"
  let ?s6 = "child_func (child_name ?s4)"
  let ?th4 = "\<lparr>th_started = True, th_joined = False, th_tid = 7, th_name = k, th_latch = 0\<rparr>"
  let ?th7 = "\<lparr>th_started = True, th_joined = True, th_tid = 7, th_name = k, th_latch = 0\<rparr>"
  let ?s7 = "?s6\<lparr>lf_obj := Some ?th7, lf_ops := [LDestroy]\<rparr>"
  have 1: "life_reachable 7 ?s0 ?s1"
    by (rule life_reachable.step[OF life_reachable.refl life_creator(1)]) (simp_all add: life_new_def th)
  have 3: "life_reachable 7 ?s0 ?s3"
    by (rule life_reachable.step[OF life_reachable.step[OF 1 life_child(1)] life_child(2)]) (simp_all add: child_tid_def tid_new life_new_def)
  have 4: "life_reachable 7 ?s0 ?s4"
    by (rule start_back[OF 3, of _ ?th4]) (simp_all add: child_defs tid_new life_new_def th)
  have 6: "life_reachable 7 ?s0 ?s6"
    by (rule life_reachable.step[OF life_reachable.step[OF 4 life_child(3)] life_child(4)]) (simp_all add: child_count_def child_name_def)
  have 7: "life_reachable 7 ?s0 ?s7"
    by (rule life_reachable.step[OF 6 life_creator(3)[where th = ?th4]]) (simp_all add: child_defs tid_new life_new_def th Thread_join_def)
  let ?s8 = "?s7\<lparr>lf_obj := None, lf_ops := [], lf_detached := Thread_detaches ?th7\<rparr>"
  have 8: "life_reachable 7 ?s0 ?s8" by (rule life_reachable.step[OF 7 life_creator(4)]) simp_all
  have "\<not> lf_detached ?s8" "lf_child ?s8 = Child_ended" by (simp_all add: Thread_detaches_def child_func_def)
  with thread_object_lifetime[OF 8] have "\<not> lf_freed_use ?s8" by simp
  with 8 \<open>\<not> lf_detached ?s8\<close> \<open>lf_child ?s8 = _\<close> show ?thesis
    by (intro exI[of _ ?s8]) (simp add: thread_test_main_def)
qed

text \<open>The fourth one may be destroyed before it takes its name: its first step after that reads freed memory.\<close>

theorem Thread_test_use_after_free:
  "\<exists>s. life_reachable 7 (life_new (snd (thread_test_main ! 3)) [] 3) s \<and> lf_freed_use s"
proof -
  let ?th = "fst (Thread_new [] 3)"
  let ?s0 = "life_new [LStart, LDestroy] [] 3"
  obtain k where th: "?th = \<lparr>th_started = False, th_joined = False, th_tid = 0, th_name = k, th_latch = 1\<rparr>"
    using Thread_new_fields by blast
  let ?s1 = "?s0\<lparr>lf_obj := Some (?th\<lparr>th_started := True\<rparr>), lf_waits := True, lf_child := Child_tid\<rparr>"
  let ?s3 = "child_count (child_tid 7 ?s1)"
  let ?th3 = "\<lparr>th_started = True, th_joined = False, th_tid = 7, th_name = k, th_latch = 0\<rparr>"
  let ?s5 = "?s3\<lparr>lf_obj := None, lf_ops := [], lf_waits := False, lf_detached := Thread_detaches ?th3\<rparr>"
  have 1: "life_reachable 7 ?s0 ?s1"
    by (rule life_reachable.step[OF life_reachable.refl life_creator(1)]) (simp_all add: life_new_def th)
  have 3: "life_reachable 7 ?s0 ?s3"
    by (rule life_reachable.step[OF life_reachable.step[OF 1 life_child(1)] life_child(2)]) (simp_all add: child_tid_def tid_new life_new_def)
  have 4: "life_reachable 7 ?s0 (?s3\<lparr>lf_ops := [LDestroy], lf_waits := False\<rparr>)"
    by (rule start_back[OF 3, of _ ?th3]) (simp_all add: child_defs tid_new life_new_def th)
  have "life_step 7 (?s3\<lparr>lf_ops := [LDestroy], lf_waits := False\<rparr>) ?s5"
    using life_creator(4)[of "?s3\<lparr>lf_ops := [LDestroy], lf_waits := False\<rparr>" "[]" ?th3 7]
    by (simp add: child_defs tid_new life_new_def th)
  from life_reachable.step[OF life_reachable.step[OF 4 this] life_child(3)]
  have "life_reachable 7 ?s0 (child_name ?s5)" by (simp add: child_count_def)
  moreover have "lf_freed_use (child_name ?s5)" by (simp add: child_name_def child_uses_def)
  ultimately show ?thesis by (intro exI[of _ "child_name ?s5"]) (simp add: thread_test_main_def)
qed

end
